(* ===== verification/Pmfs_Prelude.thy ===== *)
theory Pmfs_Prelude
  imports Main "HOL-Library.Word"
begin

text \<open>
  The shared base of the development: the C integer types as words, the kernel error numbers,
  and the byte-addressed persistent memory with its little-endian accessors.

  PMFS maps one contiguous region of persistent memory at \<open>sbi->virt_addr\<close> and reaches all of
  its metadata by pointers into it. Here the region is a total function from byte offsets
  (relative to \<open>virt_addr\<close>) to bytes, and a C pointer is such an offset. A field of width
  \<open>w\<close> at offset \<open>a\<close> is read by \<open>rdw m a\<close> and written by \<open>wrw a v m\<close>, least significant byte
  first (\<open>cpu_to_le64\<close> and its kin on the x86-64 machines PMFS supports), so that overlapping
  structures (a log entry's copy of an inode, or two structures placed at the same address)
  alias in the model exactly as they do in memory.

  The collection \<open>unat_simps\<close> gathers the rewrite rules that carry word arithmetic to \<open>nat\<close>;
  the memory lemmas are simp rules whose side conditions are linear arithmetic on offsets.
\<close>

unbundle bit_operations_syntax

named_theorems unat_simps \<open>word operations read as natural numbers\<close>

section \<open>Machine integers and error numbers\<close>

type_synonym u8 = "8 word"
type_synonym u16 = "16 word"
type_synonym u32 = "32 word"
type_synonym u64 = "64 word"

datatype errno =
    EPERM | ENOENT | EIO | EAGAIN | ENOMEM | EACCES | EFAULT | ENODEV | EINVAL | EEXIST | ENOSPC
  | EMLINK | ENAMETOOLONG | ENOTEMPTY | ENODATA | ESTALE | ENXIO | EBUSY | EOPNOTSUPP | ENOTTY | EGENERIC

lemma unat_plus_fits [unat_simps]:
  "unat a + unat b < 2 ^ LENGTH('a) \<Longrightarrow> unat (a + b :: 'a::len word) = unat a + unat b"
  by (simp add: unat_add_lem)

lemma unat_minus_fits [unat_simps]:
  "unat b \<le> unat a \<Longrightarrow> unat (a - b :: 'a::len word) = unat a - unat b"
  by (simp add: unat_sub word_le_nat_alt)

lemma unat_drop_bit_div [unat_simps]:
  "unat (drop_bit n w :: 'a::len word) = unat w div 2 ^ n"
  by (simp only: unat_drop_bit_eq) (simp only: drop_bit_eq_div)

lemma unat_take_bit_mod [unat_simps]:
  "unat (take_bit n w :: 'a::len word) = unat w mod 2 ^ n"
  by (simp only: unsigned_take_bit_eq) (simp only: take_bit_eq_mod)

lemma unat_push_bit_mod:
  "unat (push_bit n w :: 'a::len word) = unat w * 2 ^ n mod 2 ^ LENGTH('a)"
  by (simp only: unsigned_push_bit_eq) (simp only: push_bit_eq_mult take_bit_eq_mod)

lemma unat_push_bit_fits [unat_simps]:
  "unat w * 2 ^ n < 2 ^ LENGTH('a) \<Longrightarrow> unat (push_bit n w :: 'a::len word) = unat w * 2 ^ n"
  by (simp add: unat_push_bit_mod)

lemma and_not_mask_shift:
  "x AND NOT (mask n) = push_bit n (drop_bit n x)" for x :: "'a::len word"
  by (rule bit_word_eqI) (auto simp: bit_simps)

text \<open>Rounding down to a power of two, the idiom \<open>x & ~(n - 1)\<close>.\<close>

lemma unat_and_not_mask [unat_simps]:
  "unat (x AND NOT (mask n) :: 'a::len word) = unat x div 2 ^ n * 2 ^ n"
proof -
  have "unat x div 2 ^ n * 2 ^ n < 2 ^ LENGTH('a)"
    using div_times_less_eq_dividend unsigned_less by (rule le_less_trans)
  then show ?thesis
    by (simp only: and_not_mask_shift unat_push_bit_mod unat_drop_bit_div) simp
qed

lemma unat_ucast_fits [unat_simps]:
  "unat x < 2 ^ LENGTH('b) \<Longrightarrow> unat (ucast (x :: 'a::len word) :: 'b::len word) = unat x"
  by (simp add: unsigned_ucast_eq take_bit_nat_eq_self)

lemma unat_ucast_mod:
  "unat (ucast (x :: 'a::len word) :: 'b::len word) = unat x mod 2 ^ LENGTH('b)"
  by (simp add: unsigned_ucast_eq take_bit_eq_mod)

lemma unat_and_mask: "unat (x AND mask n :: 'a::len word) = unat x mod 2 ^ n"
  by (simp only: take_bit_eq_mask[symmetric] unat_take_bit_mod)

lemma unat_less_size: "unat (w :: 'a::len word) < 2 ^ LENGTH('a)"
  by (rule unsigned_less)

section \<open>Persistent memory\<close>

type_synonym mem = "nat \<Rightarrow> u8"

text \<open>\<open>rdn k m a\<close>: the little-endian number in the \<open>k\<close> bytes at \<open>a\<close>; \<open>wrn k a v m\<close>
  stores the \<open>k\<close> low bytes of \<open>v\<close> there.\<close>

primrec rdn :: "nat \<Rightarrow> mem \<Rightarrow> nat \<Rightarrow> nat" where
  "rdn 0 m a = 0"
| "rdn (Suc k) m a = unat (m a) + 256 * rdn k m (Suc a)"

definition wrn :: "nat \<Rightarrow> nat \<Rightarrow> nat \<Rightarrow> mem \<Rightarrow> mem" where
  "wrn k a v m = (\<lambda>x. if a \<le> x \<and> x < a + k then word_of_nat (v div 256 ^ (x - a)) else m x)"

definition rdw :: "mem \<Rightarrow> nat \<Rightarrow> 'a::len word" where
  "rdw m a = word_of_nat (rdn (LENGTH('a) div 8) m a)"

definition wrw :: "nat \<Rightarrow> 'a::len word \<Rightarrow> mem \<Rightarrow> mem" where
  "wrw a v m = wrn (LENGTH('a) div 8) a (unat v) m"

abbreviation rd8 :: "mem \<Rightarrow> nat \<Rightarrow> u8" where "rd8 \<equiv> rdw"
abbreviation rd16 :: "mem \<Rightarrow> nat \<Rightarrow> u16" where "rd16 \<equiv> rdw"
abbreviation rd32 :: "mem \<Rightarrow> nat \<Rightarrow> u32" where "rd32 \<equiv> rdw"
abbreviation rd64 :: "mem \<Rightarrow> nat \<Rightarrow> u64" where "rd64 \<equiv> rdw"

abbreviation wr8 :: "nat \<Rightarrow> u8 \<Rightarrow> mem \<Rightarrow> mem" where "wr8 \<equiv> wrw"
abbreviation wr16 :: "nat \<Rightarrow> u16 \<Rightarrow> mem \<Rightarrow> mem" where "wr16 \<equiv> wrw"
abbreviation wr32 :: "nat \<Rightarrow> u32 \<Rightarrow> mem \<Rightarrow> mem" where "wr32 \<equiv> wrw"
abbreviation wr64 :: "nat \<Rightarrow> u64 \<Rightarrow> mem \<Rightarrow> mem" where "wr64 \<equiv> wrw"

text \<open>\<open>memset(a, c, n)\<close>, \<open>memcpy(a, s, n)\<close> from the same memory (the ranges the code copies
  do not overlap), \<open>memcpy\<close> from a buffer outside of it, and the \<open>n\<close> bytes at an address.\<close>

definition memset :: "nat \<Rightarrow> u8 \<Rightarrow> nat \<Rightarrow> mem \<Rightarrow> mem" where
  "memset a c n m = (\<lambda>x. if a \<le> x \<and> x < a + n then c else m x)"

definition memcpy :: "nat \<Rightarrow> nat \<Rightarrow> nat \<Rightarrow> mem \<Rightarrow> mem" where
  "memcpy a s n m = (\<lambda>x. if a \<le> x \<and> x < a + n then m (s + (x - a)) else m x)"

definition memput :: "nat \<Rightarrow> u8 list \<Rightarrow> mem \<Rightarrow> mem" where
  "memput a bs m = (\<lambda>x. if a \<le> x \<and> x < a + length bs then bs ! (x - a) else m x)"

definition bytes_at :: "mem \<Rightarrow> nat \<Rightarrow> nat \<Rightarrow> u8 list" where
  "bytes_at m a n = map m [a..<a + n]"

lemma rdn_cong: "(\<And>x. a \<le> x \<Longrightarrow> x < a + k \<Longrightarrow> m x = m' x) \<Longrightarrow> rdn k m a = rdn k m' a"
  by (induction k arbitrary: a) auto

lemma rdn_less: "rdn k m a < 256 ^ k"
proof (induction k arbitrary: a)
  case (Suc k)
  have "unat (m a) < 256"
    using unat_less_size [of "m a"] by simp
  moreover from Suc [of "Suc a"] have "rdn k m (Suc a) + 1 \<le> 256 ^ k"
    by simp
  ultimately show ?case by simp
qed simp

lemma rdn_wrn_disj: "b + k \<le> a \<or> a + n \<le> b \<Longrightarrow> rdn k (wrn n a v m) b = rdn k m b"
  by (rule rdn_cong) (auto simp: wrn_def)

text \<open>Reading any part of a wider field just written: the bytes of the value, shifted.\<close>

lemma rdn_wrn_inside:
  "j + k \<le> n \<Longrightarrow> rdn k (wrn n a v m) (a + j) = v div 256 ^ j mod 256 ^ k"
proof (induction k arbitrary: j)
  case (Suc k)
  have "rdn k (wrn n a v m) (a + Suc j) = v div 256 ^ Suc j mod 256 ^ k"
    using Suc.prems by (intro Suc.IH) simp
  moreover have "unat (word_of_nat (v div 256 ^ j) :: u8) = v div 256 ^ j mod 256"
    by (simp add: unat_of_nat)
  moreover have "v div 256 ^ Suc j = v div 256 ^ j div 256"
    by (simp only: power_Suc2 div_mult2_eq)
  ultimately show ?case
    using Suc.prems by (simp add: wrn_def mod_mult2_eq)
qed simp

lemma pow_256_bytes: "8 dvd n \<Longrightarrow> (256::nat) ^ (n div 8) = 2 ^ n"
  using power_mult [of "2::nat" 8 "n div 8"] by simp

lemma rdw_cong:
  "(\<And>x. a \<le> x \<Longrightarrow> x < a + LENGTH('a) div 8 \<Longrightarrow> m x = m' x) \<Longrightarrow>
    (rdw m a :: 'a::len word) = rdw m' a"
  unfolding rdw_def by (subst rdn_cong [of a _ m m']) auto

lemma rdw_wrw_same [simp]:
  "8 dvd LENGTH('a) \<Longrightarrow> rdw (wrw a (v :: 'a::len word) m) a = v"
  using rdn_wrn_inside [of 0 "LENGTH('a) div 8" "LENGTH('a) div 8" a "unat v" m]
  by (simp add: rdw_def wrw_def pow_256_bytes)

lemma rdw_wrw_other [simp]:
  "b + LENGTH('b) div 8 \<le> a \<or> a + LENGTH('a) div 8 \<le> b \<Longrightarrow>
    (rdw (wrw a (v :: 'a::len word) m) b :: 'b::len word) = rdw m b"
  by (simp add: rdw_def wrw_def rdn_wrn_disj)

lemma wrw_apply_other:
  "x < a \<or> a + LENGTH('a) div 8 \<le> x \<Longrightarrow> wrw a (v :: 'a::len word) m x = m x"
  by (auto simp: wrw_def wrn_def)

lemma wrw_changed:
  "wrw a (v :: 'a::len word) m x \<noteq> m x \<Longrightarrow> a \<le> x \<and> x < a + LENGTH('a) div 8"
  by (auto simp: wrw_def wrn_def split: if_splits)

lemma unat_rdw:
  "8 dvd LENGTH('a) \<Longrightarrow> unat (rdw m a :: 'a::len word) = rdn (LENGTH('a) div 8) m a"
  using rdn_less [of "LENGTH('a) div 8" m a] by (simp add: rdw_def unat_of_nat pow_256_bytes)

lemma rdw_memset_other [simp]:
  "b + LENGTH('b) div 8 \<le> a \<or> a + n \<le> b \<Longrightarrow> (rdw (memset a c n m) b :: 'b::len word) = rdw m b"
  by (rule rdw_cong) (auto simp: memset_def)

lemma rdn_zero: "(\<And>x. a \<le> x \<Longrightarrow> x < a + k \<Longrightarrow> m x = 0) \<Longrightarrow> rdn k m a = 0"
  by (induction k arbitrary: a) auto

lemma rdw_zero [simp]: "rdw (\<lambda>_. 0) a = 0"
  by (simp add: rdw_def rdn_zero)

lemma rdw_memset_zero [simp]:
  "a \<le> b \<Longrightarrow> b + LENGTH('b) div 8 \<le> a + n \<Longrightarrow> (rdw (memset a 0 n m) b :: 'b::len word) = 0"
  by (simp add: rdw_def rdn_zero memset_def)

lemma rdw_memcpy_other [simp]:
  "b + LENGTH('b) div 8 \<le> a \<or> a + n \<le> b \<Longrightarrow> (rdw (memcpy a s n m) b :: 'b::len word) = rdw m b"
  by (rule rdw_cong) (auto simp: memcpy_def)

lemma rdn_shift: "(\<And>x. x < k \<Longrightarrow> m (a + x) = m' (b + x)) \<Longrightarrow> rdn k m a = rdn k m' b"
proof (induction k arbitrary: a b)
  case (Suc k)
  have "rdn k m (Suc a) = rdn k m' (Suc b)"
    using Suc.prems [of "Suc _"] by (intro Suc.IH) simp
  with Suc.prems [of 0] show ?case by simp
qed simp

lemma rdw_memcpy_inside:
  assumes "a \<le> b" and "b + LENGTH('b) div 8 \<le> a + n"
  shows "(rdw (memcpy a s n m) b :: 'b::len word) = rdw m (s + (b - a))"
  using assms unfolding rdw_def
  by (subst rdn_shift [of _ "memcpy a s n m" b m "s + (b - a)"]) (auto simp: memcpy_def add.assoc)

lemma rdw_memput_other [simp]:
  "b + LENGTH('b) div 8 \<le> a \<or> a + length bs \<le> b \<Longrightarrow>
    (rdw (memput a bs m) b :: 'b::len word) = rdw m b"
  by (rule rdw_cong) (auto simp: memput_def)

lemma length_bytes_at [simp]: "length (bytes_at m a n) = n"
  by (simp add: bytes_at_def)

lemma nth_bytes_at [simp]: "i < n \<Longrightarrow> bytes_at m a n ! i = m (a + i)"
  by (simp add: bytes_at_def)

lemma bytes_at_cong:
  "(\<And>x. a \<le> x \<Longrightarrow> x < a + n \<Longrightarrow> m x = m' x) \<Longrightarrow> bytes_at m a n = bytes_at m' a n"
  by (simp add: bytes_at_def)

lemma bytes_at_memput_same [simp]: "bytes_at (memput a bs m) a (length bs) = bs"
  by (rule nth_equalityI) (auto simp: memput_def)

lemma bytes_at_wrw_other [simp]:
  "b + n \<le> a \<or> a + LENGTH('a) div 8 \<le> b \<Longrightarrow>
    bytes_at (wrw a (v :: 'a::len word) m) b n = bytes_at m b n"
  by (rule bytes_at_cong) (auto simp: wrw_apply_other)

lemma memput_bytes_at: "memput a (bytes_at m a n) m = m"
  by (auto simp: memput_def fun_eq_iff)

text \<open>Writing back what is there changes nothing.\<close>

lemma rdn_digit: "j < k \<Longrightarrow> word_of_nat (rdn k m a div 256 ^ j) = m (a + j)"
proof (induction k arbitrary: a j)
  case (Suc k)
  have lt: "unat (m a) < 256"
    using unat_less_size [of "m a"] by simp
  show ?case
  proof (cases j)
    case 0
    have zero: "(256 :: u8) = 0" by simp
    show ?thesis
      by (simp only: 0 rdn.simps of_nat_add of_nat_mult power_0 div_by_1) (simp add: zero)
  next
    case (Suc i)
    have "(unat (m a) + 256 * rdn k m (Suc a)) div 256 = rdn k m (Suc a)"
      using lt by simp
    then have "rdn (Suc k) m a div 256 ^ j = rdn k m (Suc a) div 256 ^ i"
      by (simp only: Suc rdn.simps power_Suc div_mult2_eq)
    then show ?thesis using Suc.IH [of i "Suc a"] Suc.prems Suc by simp
  qed
qed simp

lemma wrw_rdw_id: "8 dvd LENGTH('a) \<Longrightarrow> wrw a (rdw m a :: 'a::len word) m = m"
  by (auto simp: wrw_def wrn_def unat_rdw rdn_digit fun_eq_iff)

text \<open>Reading a narrower field inside a wider one.\<close>

lemma unat_rdw_wrw_inside:
  assumes "j + LENGTH('b) div 8 \<le> LENGTH('a) div 8" "8 dvd LENGTH('b)"
  shows "unat (rdw (wrw a (v :: 'a::len word) m) (a + j) :: 'b::len word)
    = unat v div 256 ^ j mod 2 ^ LENGTH('b)"
  using rdn_wrn_inside [OF assms(1), of a "unat v" m] assms(2)
  by (simp add: unat_rdw wrw_def pow_256_bytes)

lemma rdn_add: "rdn (j + k) m a = rdn j m a + 256 ^ j * rdn k m (a + j)"
  by (induction j arbitrary: a) (auto simp: algebra_simps)

lemma memcpy_memput: "memcpy a b n m = memput a (bytes_at m b n) m"
  by (auto simp: memcpy_def memput_def fun_eq_iff)

section \<open>Loops\<close>

text \<open>\<open>for_loop body is a\<close>: the C loop over the indices \<open>is\<close>. The body returns the new loop state and
  whether it breaks out of the loop; \<open>None\<close> is an oops.\<close>

primrec for_loop :: "(nat \<Rightarrow> 'a \<Rightarrow> ('a \<times> bool) option) \<Rightarrow> nat list \<Rightarrow> 'a \<Rightarrow> 'a option" where
  "for_loop body [] a = Some a"
| "for_loop body (i # is) a =
     (case body i a of None \<Rightarrow> None
      | Some (a', brk) \<Rightarrow> if brk then Some a' else for_loop body is a')"

text \<open>An invariant that every iteration keeps holds at the end.\<close>

lemma for_loop_invariant:
  assumes "for_loop body is a = Some a'" "I a"
    and step: "\<And>i a a' brk. i \<in> set is \<Longrightarrow> I a \<Longrightarrow> body i a = Some (a', brk) \<Longrightarrow> I a'"
  shows "I a'"
  using assms
proof (induction "is" arbitrary: a)
  case (Cons i "is")
  obtain a1 brk where b: "body i a = Some (a1, brk)"
    using Cons.prems(1) by (auto split: option.splits)
  have I: "I a1" by (rule Cons.prems(3)[OF _ Cons.prems(2) b]) simp
  show ?case
  proof (cases brk)
    case True
    then show ?thesis using Cons.prems(1) b I by simp
  next
    case False
    then have "for_loop body is a1 = Some a'" using Cons.prems(1) b by simp
    then show ?thesis using I by (rule Cons.IH) (use Cons.prems(3) in auto)
  qed
qed simp

end
