(* ===== verification/Pmfs_State.thy ===== *)
theory Pmfs_State
  imports Pmfs_Prelude "HOL-Library.Monad_Syntax"
begin

text \<open>
  The state the components share: the on-media structures of \<open>pmfs_def.h\<close> and \<open>journal.h\<close> as
  typed fields at their byte offsets, the in-memory \<open>struct pmfs_sb_info\<close> of \<open>pmfs.h\<close>, the
  environment, and the inline helpers of \<open>pmfs.h\<close>.

  Conventions. A pointer into the region is its byte offset and \<open>NULL\<close> is \<open>0\<close>, which is what
  \<open>pmfs_get_block\<close> makes of block offset \<open>0\<close>. An operation that can oops (dereference \<open>NULL\<close>,
  hit a \<open>BUG_ON\<close>, panic on an error) or fail to return gives \<open>None\<close> for that; C error codes
  are \<open>Inl\<close> values of a sum. Names that begin with two underscores in C begin with \<open>raw_\<close>.
  The mutexes make each operation atomic, and write protection (\<open>pmfs_memunlock_*\<close>), cache
  flushes and barriers do not change the contents of memory, so they leave no trace here.
\<close>

section \<open>Constants\<close>

abbreviation (input) PMFS_SUPER_MAGIC :: u16 where "PMFS_SUPER_MAGIC \<equiv> 0xEFFC"
abbreviation (input) PAGE_SHIFT :: nat where "PAGE_SHIFT \<equiv> 12"
abbreviation (input) META_BLK_SHIFT :: nat where "META_BLK_SHIFT \<equiv> 9"
abbreviation (input) PMFS_INODE_BITS :: nat where "PMFS_INODE_BITS \<equiv> 7"
abbreviation (input) PMFS_SB_SIZE :: nat where "PMFS_SB_SIZE \<equiv> 512"
abbreviation (input) PMFS_BLOCK_TYPE_4K :: u8 where "PMFS_BLOCK_TYPE_4K \<equiv> 0"
abbreviation (input) PMFS_BLOCK_TYPE_2M :: u8 where "PMFS_BLOCK_TYPE_2M \<equiv> 1"
abbreviation (input) PMFS_BLOCK_TYPE_1G :: u8 where "PMFS_BLOCK_TYPE_1G \<equiv> 2"
abbreviation (input) PMFS_ROOT_INO :: u64 where "PMFS_ROOT_INO \<equiv> 128"
abbreviation (input) PMFS_BLOCKNODE_IN0 :: u64 where "PMFS_BLOCKNODE_IN0 \<equiv> 256"
abbreviation (input) PMFS_FREE_INODE_HINT_START :: u32 where "PMFS_FREE_INODE_HINT_START \<equiv> 3"
abbreviation (input) PMFS_EOFBLOCKS_FL :: u32 where "PMFS_EOFBLOCKS_FL \<equiv> 0x20000000"
abbreviation (input) PMFS_MOUNT_ERRORS_CONT :: u64 where "PMFS_MOUNT_ERRORS_CONT \<equiv> 0x10"
abbreviation (input) PMFS_MOUNT_ERRORS_RO :: u64 where "PMFS_MOUNT_ERRORS_RO \<equiv> 0x20"
abbreviation (input) PMFS_MOUNT_ERRORS_PANIC :: u64 where "PMFS_MOUNT_ERRORS_PANIC \<equiv> 0x40"
abbreviation (input) PMFS_MOUNT_FORMAT :: u64 where "PMFS_MOUNT_FORMAT \<equiv> 0x400"
abbreviation (input) PMFS_MOUNT_MOUNTING :: u64 where "PMFS_MOUNT_MOUNTING \<equiv> 0x800"
abbreviation (input) MS_RDONLY :: u64 where "MS_RDONLY \<equiv> 1"

section \<open>On-media structures\<close>

text \<open>\<open>struct pmfs_super_block\<close>, at offset 0 and, as the redundant copy, at \<open>PMFS_SB_SIZE\<close>.\<close>

record pmfs_super_block =
  s_sum :: u16
  s_magic :: u16
  s_blocksize_le :: u32
  s_size :: u64
  s_journal_offset :: u64
  s_inode_table_offset :: u64
  s_mtime :: u32
  s_wtime :: u32
  s_num_blocknode_allocated :: u64
  s_num_free_blocks :: u64
  ps_inodes_count :: u32
  ps_free_inodes_count :: u32
  ps_inodes_used_count :: u32
  ps_free_inode_hint :: u32
  free_nvm_blockaddr :: u64
  free_ssd1_blockaddr :: u64
  free_ssd2_blockaddr :: u64
  free_ssd3_blockaddr :: u64
  u_free_inode_base :: u64

definition rd_super :: "mem \<Rightarrow> nat \<Rightarrow> pmfs_super_block" where
  "rd_super m ps =
     \<lparr> s_sum = rd16 m ps, s_magic = rd16 m (ps + 2), s_blocksize_le = rd32 m (ps + 4),
       s_size = rd64 m (ps + 8), s_journal_offset = rd64 m (ps + 32),
       s_inode_table_offset = rd64 m (ps + 40), s_mtime = rd32 m (ps + 56),
       s_wtime = rd32 m (ps + 60), s_num_blocknode_allocated = rd64 m (ps + 64),
       s_num_free_blocks = rd64 m (ps + 72), ps_inodes_count = rd32 m (ps + 80),
       ps_free_inodes_count = rd32 m (ps + 84), ps_inodes_used_count = rd32 m (ps + 88),
       ps_free_inode_hint = rd32 m (ps + 92), free_nvm_blockaddr = rd64 m (ps + 96),
       free_ssd1_blockaddr = rd64 m (ps + 104), free_ssd2_blockaddr = rd64 m (ps + 112),
       free_ssd3_blockaddr = rd64 m (ps + 120), u_free_inode_base = rd64 m (ps + 128) \<rparr>"

abbreviation (input) SUPER_BLOCK_SIZEOF :: nat where "SUPER_BLOCK_SIZEOF \<equiv> 136"
abbreviation (input) SB_STATIC_SIZE :: nat where "SB_STATIC_SIZE \<equiv> 48"

text \<open>\<open>pmfs_journal_t\<close>.\<close>

record pmfs_journal =
  j_base :: u64
  j_size :: u32
  j_head :: u32
  j_tail :: u32
  j_gen_id :: u16
  j_redo_logging :: u16

definition rd_journal :: "mem \<Rightarrow> nat \<Rightarrow> pmfs_journal" where
  "rd_journal m j =
     \<lparr> j_base = rd64 m j, j_size = rd32 m (j + 8), j_head = rd32 m (j + 12),
       j_tail = rd32 m (j + 16), j_gen_id = rd16 m (j + 20), j_redo_logging = rd16 m (j + 24) \<rparr>"

text \<open>\<open>pmfs_logentry_t\<close>, one cacheline: 16 bytes of header and 48 bytes of data.\<close>

record pmfs_logentry =
  le_addr_offset :: u64
  le_transaction_id :: u32
  le_gen_id :: u16
  le_type :: u8
  le_size :: u8
  le_data :: "u8 list"

definition rd_logentry :: "mem \<Rightarrow> nat \<Rightarrow> pmfs_logentry" where
  "rd_logentry m le =
     \<lparr> le_addr_offset = rd64 m le, le_transaction_id = rd32 m (le + 8),
       le_gen_id = rd16 m (le + 12), le_type = rd8 m (le + 14), le_size = rd8 m (le + 15),
       le_data = bytes_at m (le + 16) 48 \<rparr>"

text \<open>\<open>struct pmfs_inode\<close> (80 bytes in a 128-byte slot), followed in the slot by the inode's
  \<open>struct pmfs_inode_truncate_item\<close>.\<close>

record pmfs_inode =
  pi_height :: u8
  pi_blk_type :: u8
  pi_flags :: u32
  pi_root :: u64
  pi_size :: u64
  pi_ctime :: u32
  pi_mtime :: u32
  pi_dtime :: u32
  pi_mode :: u16
  pi_links_count :: u16
  pi_blocks :: u64
  pi_uid :: u32
  pi_gid :: u32
  pi_generation :: u32
  pi_atime :: u32
  pi_rdev :: u32
  pi_nvmblock :: u32
  pi_blkoff :: u64

definition rd_inode :: "mem \<Rightarrow> nat \<Rightarrow> pmfs_inode" where
  "rd_inode m pi =
     \<lparr> pi_height = rd8 m (pi + 2), pi_blk_type = rd8 m (pi + 3), pi_flags = rd32 m (pi + 4),
       pi_root = rd64 m (pi + 8), pi_size = rd64 m (pi + 16), pi_ctime = rd32 m (pi + 24),
       pi_mtime = rd32 m (pi + 28), pi_dtime = rd32 m (pi + 32), pi_mode = rd16 m (pi + 36),
       pi_links_count = rd16 m (pi + 38), pi_blocks = rd64 m (pi + 40), pi_uid = rd32 m (pi + 48),
       pi_gid = rd32 m (pi + 52), pi_generation = rd32 m (pi + 56), pi_atime = rd32 m (pi + 60),
       pi_rdev = rd32 m (pi + 64), pi_nvmblock = rd32 m (pi + 68), pi_blkoff = rd64 m (pi + 72) \<rparr>"

record pmfs_inode_truncate_item =
  i_truncatesize :: u64
  i_next_truncate :: u64

definition rd_truncate_item :: "mem \<Rightarrow> nat \<Rightarrow> pmfs_inode_truncate_item" where
  "rd_truncate_item m li = \<lparr> i_truncatesize = rd64 m li, i_next_truncate = rd64 m (li + 8) \<rparr>"

text \<open>\<open>struct pmfs_direntry\<close>: the name follows the 12-byte header.\<close>

record pmfs_direntry =
  de_ino :: u64
  de_len :: u16
  de_name_len :: u8
  de_file_type :: u8
  de_name :: "u8 list"

definition rd_direntry :: "mem \<Rightarrow> nat \<Rightarrow> pmfs_direntry" where
  "rd_direntry m de =
     \<lparr> de_ino = rd64 m de, de_len = rd16 m (de + 8), de_name_len = rd8 m (de + 10),
       de_file_type = rd8 m (de + 11), de_name = bytes_at m (de + 12) (unat (rd8 m (de + 10))) \<rparr>"

section \<open>In-memory state\<close>

record pmfs_blocknode =
  block_low :: u64
  block_high :: u64

record pmfs_sb_info =
  block_inuse_head :: "pmfs_blocknode list"
  block_start :: u64
  block_end :: u64
  num_free_blocks :: u64
  bpi :: u64
  num_inodes :: u64
  blocksize :: u64
  initsize :: u64
  s_mount_opt :: u64
  sbi_uid :: u32
  sbi_gid :: u32
  sbi_mode :: u16
  next_generation :: u32
  s_inodes_count :: u32
  s_free_inodes_count :: u32
  s_inodes_used_count :: u32
  s_free_inode_hint :: u32
  num_blocknode_allocated :: u64
  next_transaction_id :: u32
  jsize :: u32
  journal_base_addr :: nat
  redo_log :: bool
  s_truncate :: "u64 list"

text \<open>The fields of the VFS inode (\<open>struct inode\<close> and the \<open>struct pmfs_inode_info\<close> around it) that the
  code uses. Operations that change a VFS inode take it and return it. Sizes and offsets are
  non-negative (the VFS checks that), so \<open>loff_t\<close> is an unsigned word.\<close>

record vinode =
  i_ino :: u64
  i_mode :: u16
  i_uid :: u32
  i_gid :: u32
  i_nlink :: u32
  i_size :: u64
  i_blocks :: u64
  i_atime :: u32
  i_mtime :: u32
  i_ctime :: u32
  i_generation :: u32
  i_flags :: u32
  i_rdev :: u32
  i_dir_start_lookup :: u32

text \<open>
  The whole file system: the memory, the per-mount data, the fields of the VFS super block the
  code uses, the task's stack of running transactions (their ids, innermost first), and the
  environment: the outcomes of the coming slab allocations (\<open>kmem\<close>, where the empty list means
  that they all succeed) and the clock (\<open>get_seconds\<close>, \<open>CURRENT_TIME_SEC\<close>).
\<close>

record fs =
  mem :: mem
  sbi :: pmfs_sb_info
  s_blocksize :: u64
  s_blocksize_bits :: nat
  s_flags :: u64
  journal_info :: "u32 list"
  kmem :: "bool list"
  now :: u32

abbreviation upd_sbi :: "(pmfs_sb_info \<Rightarrow> pmfs_sb_info) \<Rightarrow> fs \<Rightarrow> fs" where
  "upd_sbi f s \<equiv> s\<lparr>sbi := f (sbi s)\<rparr>"

abbreviation upd_mem :: "(mem \<Rightarrow> mem) \<Rightarrow> fs \<Rightarrow> fs" where
  "upd_mem f s \<equiv> s\<lparr>mem := f (mem s)\<rparr>"

text \<open>\<open>pmfs_error_mng\<close>: panic or remount read-only, as the mount options ask.\<close>

definition test_opt :: "fs \<Rightarrow> u64 \<Rightarrow> bool" where
  "test_opt s opt \<longleftrightarrow> s_mount_opt (sbi s) AND opt \<noteq> 0"

definition pmfs_error_mng :: "fs \<Rightarrow> fs option" where
  "pmfs_error_mng s =
     (if test_opt s PMFS_MOUNT_ERRORS_PANIC then None
      else if test_opt s PMFS_MOUNT_ERRORS_RO then Some (s\<lparr>s_flags := s_flags s OR MS_RDONLY\<rparr>)
      else Some s)"

section \<open>Inline helpers of pmfs.h\<close>

definition pmfs_get_super :: "fs \<Rightarrow> nat" where
  "pmfs_get_super s = 0"

definition pmfs_get_journal :: "fs \<Rightarrow> nat" where
  "pmfs_get_journal s = pmfs_get_super s"

definition pmfs_get_inode_table :: "fs \<Rightarrow> nat" where
  "pmfs_get_inode_table s =
     pmfs_get_super s + unat (s_inode_table_offset (rd_super (mem s) (pmfs_get_super s)))"

definition pmfs_get_block :: "fs \<Rightarrow> u64 \<Rightarrow> nat" where
  "pmfs_get_block s block = (if block = 0 then 0 else pmfs_get_super s + unat block)"

definition pmfs_get_block_off :: "u64 \<Rightarrow> u64" where
  "pmfs_get_block_off blocknr = push_bit PAGE_SHIFT blocknr"

definition pmfs_get_blocknr :: "u64 \<Rightarrow> u64" where
  "pmfs_get_blocknr block = drop_bit PAGE_SHIFT block"

definition pmfs_get_numblocks :: "u8 \<Rightarrow> u64" where
  "pmfs_get_numblocks btype =
     (if btype = PMFS_BLOCK_TYPE_4K then 1
      else if btype = PMFS_BLOCK_TYPE_2M then 512
      else 0x40000)"

text \<open>The arrays have three elements; an index beyond them is unspecified here as in C.\<close>

definition blk_type_to_shift :: "u8 \<Rightarrow> nat" where
  "blk_type_to_shift bt = [12, 21, 30] ! unat bt"

definition blk_type_to_size :: "u8 \<Rightarrow> u32" where
  "blk_type_to_size bt = [0x1000, 0x200000, 0x40000000] ! unat bt"

definition pmfs_inode_blk_shift :: "fs \<Rightarrow> nat \<Rightarrow> nat" where
  "pmfs_inode_blk_shift s pi = blk_type_to_shift (pi_blk_type (rd_inode (mem s) pi))"

definition pmfs_inode_blk_size :: "fs \<Rightarrow> nat \<Rightarrow> u32" where
  "pmfs_inode_blk_size s pi = blk_type_to_size (pi_blk_type (rd_inode (mem s) pi))"

definition INODES_PER_BLOCK :: "u8 \<Rightarrow> u32" where
  "INODES_PER_BLOCK bt = push_bit (blk_type_to_shift bt - PMFS_INODE_BITS) 1"

text \<open>The walk of \<open>__pmfs_find_data_block\<close> down a block tree; \<open>None\<close> when it meets a null root
  below height 0, which it dereferences.\<close>

fun find_data_block_loop :: "fs \<Rightarrow> nat \<Rightarrow> u64 \<Rightarrow> u64 \<Rightarrow> u64 option" where
  "find_data_block_loop s 0 bp blocknr = Some bp"
| "find_data_block_loop s (Suc h) bp blocknr =
     (let level_ptr = pmfs_get_block s bp;
          bit_shift = h * META_BLK_SHIFT;
          idx = (ucast (drop_bit bit_shift blocknr) :: u32)
      in if level_ptr = 0 then None
         else let bp' = rd64 (mem s) (level_ptr + 8 * unat idx)
              in if bp' = 0 then Some 0
                 else find_data_block_loop s h bp' (blocknr AND (push_bit bit_shift 1 - 1)))"

definition raw_pmfs_find_data_block :: "fs \<Rightarrow> nat \<Rightarrow> u64 \<Rightarrow> u64 option" where
  "raw_pmfs_find_data_block s pi blocknr =
     (let i = rd_inode (mem s) pi
      in find_data_block_loop s (unat (pi_height i)) (pi_root i) blocknr)"

text \<open>\<open>pmfs_get_inode\<close>, and \<open>pmfs_fetch_inode\<close>, which repeats it: \<open>Some 0\<close> is a \<open>NULL\<close> result.\<close>

definition pmfs_get_inode :: "fs \<Rightarrow> u64 \<Rightarrow> nat option" where
  "pmfs_get_inode s ino =
     (if ino = 0 then Some 0
      else let inode_table = pmfs_get_inode_table s;
               block = drop_bit (pmfs_inode_blk_shift s inode_table) ino
           in do {
                bp \<leftarrow> raw_pmfs_find_data_block s inode_table block;
                if bp = 0 then Some 0
                else Some (pmfs_get_super s + unat bp +
                  unat (ino AND (ucast (pmfs_inode_blk_size s inode_table) - 1)))
              })"

definition pmfs_fetch_inode :: "fs \<Rightarrow> u64 \<Rightarrow> nat option" where
  "pmfs_fetch_inode s ino =
     (if ino = 0 then Some 0
      else let inode_table = pmfs_get_inode_table s;
               block = drop_bit (pmfs_inode_blk_shift s inode_table) ino
           in do {
                bp \<leftarrow> raw_pmfs_find_data_block s inode_table block;
                if bp = 0 then Some 0
                else Some (pmfs_get_super s + unat bp +
                  unat (ino AND (ucast (pmfs_inode_blk_size s inode_table) - 1)))
              })"

definition pmfs_is_mounting :: "fs \<Rightarrow> bool" where
  "pmfs_is_mounting s \<longleftrightarrow> s_mount_opt (sbi s) AND PMFS_MOUNT_MOUNTING \<noteq> 0"

text \<open>Every caller dereferences the truncate item at once, so a null inode is an oops here.\<close>

definition pmfs_get_truncate_item :: "fs \<Rightarrow> u64 \<Rightarrow> nat option" where
  "pmfs_get_truncate_item s ino = do { pi \<leftarrow> pmfs_get_inode s ino; if pi = 0 then None else Some (pi + 80) }"

definition pmfs_get_truncate_list_head :: "fs \<Rightarrow> nat" where
  "pmfs_get_truncate_list_head s = pmfs_get_inode_table s + 80"

definition check_eof_blocks :: "nat \<Rightarrow> u64 \<Rightarrow> fs \<Rightarrow> fs" where
  "check_eof_blocks pi sz s =
     (let i = rd_inode (mem s) pi
      in if pi_flags i AND PMFS_EOFBLOCKS_FL \<noteq> 0
            \<and> sz + s_blocksize s > push_bit (s_blocksize_bits s) (pi_blocks i)
         then upd_mem (wr32 (pi + 4) (pi_flags i AND NOT PMFS_EOFBLOCKS_FL)) s
         else s)"

section \<open>A blank state, for examples\<close>

definition blank_sbi :: pmfs_sb_info where
  "blank_sbi = \<lparr> block_inuse_head = [], block_start = 0, block_end = 0, num_free_blocks = 0, bpi = 0,
     num_inodes = 0, blocksize = 4096, initsize = 0, s_mount_opt = 0, sbi_uid = 0, sbi_gid = 0,
     sbi_mode = 0, next_generation = 0, s_inodes_count = 0, s_free_inodes_count = 0,
     s_inodes_used_count = 0, s_free_inode_hint = 0, num_blocknode_allocated = 0,
     next_transaction_id = 0, jsize = 0, journal_base_addr = 0, redo_log = False,
     s_truncate = [] \<rparr>"

definition blank_fs :: fs where
  "blank_fs = \<lparr> mem = (\<lambda>_. 0), sbi = blank_sbi, s_blocksize = 4096, s_blocksize_bits = 12, s_flags = 0,
     journal_info = [], kmem = [], now = 0 \<rparr>"

section \<open>Basic facts\<close>

lemma pmfs_get_super_0 [simp]: "pmfs_get_super s = 0"
  by (simp add: pmfs_get_super_def)

lemma pmfs_get_block_unat [simp]: "pmfs_get_block s block = unat block"
  by (simp add: pmfs_get_block_def)

lemma pmfs_fetch_inode_eq: "pmfs_fetch_inode = pmfs_get_inode"
  by (simp add: fun_eq_iff pmfs_fetch_inode_def pmfs_get_inode_def)

end
