(* ===== verification/Balloc.thy ===== *)
theory Balloc
  imports Pmfs_State
begin

text \<open>
  The block allocator of \<open>balloc.c\<close>: the list \<open>block_inuse_head\<close> of runs of blocks in use, the
  first-fit search of \<open>pmfs_new_block\<close>, and \<open>__pmfs_free_block\<close> with its optional start hint.
  The invariant \<open>balloc_inv\<close> says that the runs are sorted, disjoint, never adjacent and inside
  the device, so that the list is determined by the set of blocks in use (\<open>used_blocks\<close>). The
  operations are shown to implement the abstract allocator on that set, which is the locale
  \<open>block_allocator\<close> at the end.
\<close>

section \<open>Operations\<close>

text \<open>Slab allocation of list nodes (\<open>super.c\<close>); the flag says whether it succeeded.\<close>

definition kmem_cache_alloc :: "fs \<Rightarrow> bool \<times> fs" where
  "kmem_cache_alloc s = (case kmem s of [] \<Rightarrow> (True, s) | ok # rest \<Rightarrow> (ok, s\<lparr>kmem := rest\<rparr>))"

definition pmfs_alloc_blocknode :: "fs \<Rightarrow> bool \<times> fs" where
  "pmfs_alloc_blocknode s =
     (case kmem_cache_alloc s of
        (True, s') \<Rightarrow> (True, upd_sbi (num_blocknode_allocated_update (\<lambda>n. n + 1)) s')
      | (False, s') \<Rightarrow> (False, s'))"

definition pmfs_free_blocknode :: "fs \<Rightarrow> fs" where
  "pmfs_free_blocknode s = upd_sbi (num_blocknode_allocated_update (\<lambda>n. n - 1)) s"

definition pmfs_init_blockmap :: "u64 \<Rightarrow> fs \<Rightarrow> fs option" where
  "pmfs_init_blockmap init_used_size s =
     (let num_used_block = drop_bit (s_blocksize_bits s) (init_used_size + s_blocksize s - 1)
      in case pmfs_alloc_blocknode s of
           (False, _) \<Rightarrow> None
         | (True, s') \<Rightarrow>
             Some (upd_sbi (\<lambda>b. b\<lparr>
                 num_free_blocks := num_free_blocks b - num_used_block - 25 * 1024 * 1024,
                 block_inuse_head :=
                   \<lparr>block_low = block_start b,
                    block_high = block_start b + num_used_block - 1\<rparr> # block_inuse_head b\<rparr>) s'))"

text \<open>
  The loop of \<open>__pmfs_free_block\<close> from position \<open>k\<close> of the list on. \<open>hint\<close> is \<open>*start_hint\<close> as a
  position in the list; \<open>None\<close> as the whole result means that no node contained the run.
\<close>

fun free_block_loop ::
  "u64 \<Rightarrow> u64 \<Rightarrow> u64 \<Rightarrow> nat option \<Rightarrow> nat \<Rightarrow> pmfs_blocknode list \<Rightarrow> fs
     \<Rightarrow> (nat option \<times> pmfs_blocknode list \<times> fs) option" where
  "free_block_loop lo hi num hint k [] s = None"
| "free_block_loop lo hi num hint k (i # rest) s =
     (let next_blocknode = (\<lambda>p. if rest = [] then None else Some p);
          freed = upd_sbi (num_free_blocks_update (\<lambda>n. n + num));
          continue = map_option (\<lambda>(h, rest', s'). (h, i # rest', s'))
                       (free_block_loop lo hi num hint (Suc k) rest s)
      in if lo > block_high i then continue
         else if lo = block_low i \<and> hi = block_high i then
           Some (next_blocknode k, rest,
             freed (upd_sbi (num_blocknode_allocated_update (\<lambda>n. n - 1)) s))
         else if lo = block_low i \<and> hi < block_high i then
           Some (Some k, i\<lparr>block_low := hi + 1\<rparr> # rest, freed s)
         else if lo > block_low i \<and> hi = block_high i then
           Some (next_blocknode (Suc k), i\<lparr>block_high := lo - 1\<rparr> # rest, freed s)
         else if lo > block_low i \<and> hi < block_high i then
           (case pmfs_alloc_blocknode s of
              (False, s') \<Rightarrow> Some (hint, i # rest, s')
            | (True, s') \<Rightarrow>
                Some (Some (Suc k),
                  i\<lparr>block_high := lo - 1\<rparr>
                    # \<lparr>block_low = hi + 1, block_high = block_high i\<rparr> # rest, freed s'))
         else continue)"

definition raw_pmfs_free_block ::
  "u64 \<Rightarrow> u8 \<Rightarrow> nat option \<Rightarrow> fs \<Rightarrow> (nat option \<times> fs) option" where
  "raw_pmfs_free_block blocknr btype hint s =
     (let num_blocks = pmfs_get_numblocks btype;
          new_block_low = blocknr;
          new_block_high = blocknr + num_blocks - 1;
          head = block_inuse_head (sbi s);
          k = (case hint of
                 Some p \<Rightarrow> if new_block_low \<ge> block_low (head ! p) then p else 0
               | None \<Rightarrow> 0)
      in if head = [] then None
         else case free_block_loop new_block_low new_block_high num_blocks hint k (drop k head) s of
                None \<Rightarrow> map_option (Pair hint) (pmfs_error_mng s)
              | Some (hint', rest, s') \<Rightarrow>
                  Some (hint', upd_sbi (block_inuse_head_update (\<lambda>_. take k head @ rest)) s'))"

definition pmfs_free_block :: "u64 \<Rightarrow> u8 \<Rightarrow> fs \<Rightarrow> fs option" where
  "pmfs_free_block blocknr btype s = map_option snd (raw_pmfs_free_block blocknr btype None s)"

text \<open>The loop of \<open>pmfs_new_block\<close>: the new run's first block if one was found, and the list.\<close>

fun new_block_loop ::
  "u64 \<Rightarrow> pmfs_blocknode list \<Rightarrow> fs \<Rightarrow> u64 option \<times> pmfs_blocknode list \<times> fs" where
  "new_block_loop num [] s = (None, [], s)"
| "new_block_loop num (i # rest) s =
     (let next_block_low = (case rest of [] \<Rightarrow> block_end (sbi s) | next_i # _ \<Rightarrow> block_low next_i);
          new_block_low = (block_high i + num) AND NOT (num - 1);
          new_block_high = new_block_low + num - 1;
          continue = (case new_block_loop num rest s of (r, rest', s') \<Rightarrow> (r, i # rest', s'))
      in if new_block_high \<ge> next_block_low then continue
         else if new_block_low = block_high i + 1 \<and> new_block_high = next_block_low - 1 then
           (case rest of
              next_i # rest' \<Rightarrow>
                (Some new_block_low, i\<lparr>block_high := block_high next_i\<rparr> # rest',
                 upd_sbi (num_blocknode_allocated_update (\<lambda>n. n - 1)) s)
            | [] \<Rightarrow> (Some new_block_low, [i\<lparr>block_high := new_block_high\<rparr>], s))
         else if new_block_low = block_high i + 1 \<and> new_block_high < next_block_low - 1 then
           (Some new_block_low, i\<lparr>block_high := new_block_high\<rparr> # rest, s)
         else if new_block_low > block_high i + 1 \<and> new_block_high = next_block_low - 1 then
           (case rest of
              next_i # rest' \<Rightarrow>
                (Some new_block_low, i # next_i\<lparr>block_low := new_block_low\<rparr> # rest', s)
            | [] \<Rightarrow>
                (case pmfs_alloc_blocknode s of
                   (False, s') \<Rightarrow> (None, [i], s')
                 | (True, s') \<Rightarrow>
                     (Some new_block_low,
                      [i, \<lparr>block_low = new_block_low, block_high = new_block_high\<rparr>], s')))
         else if new_block_low > block_high i + 1 \<and> new_block_high < next_block_low - 1 then
           (case pmfs_alloc_blocknode s of
              (False, s') \<Rightarrow> (None, i # rest, s')
            | (True, s') \<Rightarrow>
                (Some new_block_low,
                 i # \<lparr>block_low = new_block_low, block_high = new_block_high\<rparr> # rest, s'))
         else continue)"

definition pmfs_new_block :: "u8 \<Rightarrow> bool \<Rightarrow> fs \<Rightarrow> ((errno + u64) \<times> fs) option" where
  "pmfs_new_block btype zero s =
     (let num_blocks = pmfs_get_numblocks btype
      in case new_block_loop num_blocks (block_inuse_head (sbi s)) s of
           (None, head, s') \<Rightarrow> Some (Inl ENOSPC, upd_sbi (block_inuse_head_update (\<lambda>_. head)) s')
         | (Some new_block_low, head, s') \<Rightarrow>
             let s1 = upd_sbi (\<lambda>b. b\<lparr>block_inuse_head := head,
                                     num_free_blocks := num_free_blocks b - num_blocks\<rparr>) s'
             in if zero then
                  let bp = pmfs_get_block s1 (pmfs_get_block_off new_block_low);
                      size = (if btype = PMFS_BLOCK_TYPE_4K then 2 ^ 12
                              else if btype = PMFS_BLOCK_TYPE_2M then 2 ^ 21 else 2 ^ 30)
                  in if bp = 0 then None
                     else Some (Inr new_block_low, upd_mem (memset bp 0 size) s1)
                else Some (Inr new_block_low, s1))"

definition pmfs_count_free_blocks :: "fs \<Rightarrow> u64" where
  "pmfs_count_free_blocks s = num_free_blocks (sbi s)"

section \<open>Invariant and abstraction\<close>

text \<open>\<open>chain l ns e\<close>: the runs \<open>ns\<close> are sorted, apart from each other, and within \<open>[l, e)\<close>.\<close>

fun chain :: "nat \<Rightarrow> pmfs_blocknode list \<Rightarrow> nat \<Rightarrow> bool" where
  "chain l [] e \<longleftrightarrow> True"
| "chain l (i # ns) e \<longleftrightarrow>
     l \<le> unat (block_low i) \<and> block_low i \<le> block_high i \<and> unat (block_high i) < e
     \<and> chain (unat (block_high i) + 2) ns e"

definition run_of :: "pmfs_blocknode \<Rightarrow> nat set" where
  "run_of i = {unat (block_low i)..unat (block_high i)}"

definition used :: "pmfs_blocknode list \<Rightarrow> nat set" where
  "used ns = (\<Union>i\<in>set ns. run_of i)"

definition balloc_inv :: "fs \<Rightarrow> bool" where
  "balloc_inv s \<longleftrightarrow>
     unat (block_end (sbi s)) < 2 ^ 52
     \<and> chain (unat (block_start (sbi s))) (block_inuse_head (sbi s)) (unat (block_end (sbi s)))"

definition used_blocks :: "fs \<Rightarrow> nat set" where
  "used_blocks s = used (block_inuse_head (sbi s))"

text \<open>The blocks of an allocation of type \<open>btype\<close> at \<open>b\<close>.\<close>

definition block_run :: "u8 \<Rightarrow> u64 \<Rightarrow> nat set" where
  "block_run btype b = {unat b..<unat b + unat (pmfs_get_numblocks btype)}"

text \<open>\<open>fits ns e n b\<close>: an aligned run of \<open>n\<close> free blocks at \<open>b\<close>, above some block in use.\<close>

definition fits :: "pmfs_blocknode list \<Rightarrow> nat \<Rightarrow> nat \<Rightarrow> nat \<Rightarrow> bool" where
  "fits ns e n b \<longleftrightarrow>
     n dvd b \<and> {b..<b + n} \<inter> used ns = {} \<and> b + n \<le> e \<and> (\<exists>u\<in>used ns. u < b)"

section \<open>Facts about runs\<close>

lemma chain_mono: "chain l ns e \<Longrightarrow> l' \<le> l \<Longrightarrow> chain l' ns e"
  by (cases ns) auto

lemma used_Nil [simp]: "used [] = {}"
  by (simp add: used_def)

lemma used_Cons [simp]: "used (i # ns) = {unat (block_low i)..unat (block_high i)} \<union> used ns"
  by (simp add: used_def run_of_def)

lemma used_append [simp]: "used (ns @ ms) = used ns \<union> used ms"
  by (simp add: used_def)

lemma finite_used [simp]: "finite (used ns)"
  by (induction ns) auto

lemma chain_used: "chain l ns e \<Longrightarrow> x \<in> used ns \<Longrightarrow> l \<le> x \<and> x < e"
proof (induction ns arbitrary: l)
  case (Cons i ns)
  then show ?case by (fastforce simp: word_le_nat_alt)
qed simp

lemma chain_ConsD:
  assumes "chain l (i # ns) e"
  shows "unat (block_low i) \<le> unat (block_high i)" "unat (block_high i) < e" "l \<le> unat (block_low i)"
    and "chain (unat (block_high i) + 2) ns e"
    and "x \<in> used ns \<Longrightarrow> unat (block_high i) + 2 \<le> x"
  using assms by (auto simp: word_le_nat_alt dest: chain_used)

text \<open>A coalesced list is determined by the blocks it covers.\<close>

lemma blocknode_eqI:
  "unat (block_low i) = unat (block_low j) \<Longrightarrow> unat (block_high i) = unat (block_high j) \<Longrightarrow> i = (j :: pmfs_blocknode)"
  by (cases i, cases j) (simp add: word_unat_eq_iff)

lemma chain_first_run:
  assumes "chain l (i # ns) e" "chain l' (j # ms) e" "used (i # ns) = used (j # ms)"
  shows "unat (block_low i) \<ge> unat (block_low j)"
    and "unat (block_low i) = unat (block_low j) \<Longrightarrow> unat (block_high i) \<ge> unat (block_high j)"
proof -
  note ci = chain_ConsD[OF assms(1)] and cj = chain_ConsD[OF assms(2)]
  have "unat (block_low i) \<in> used (j # ms)"
    using ci(1) assms(3) by (metis UnI1 atLeastAtMost_iff order_refl used_Cons)
  then show low: "unat (block_low i) \<ge> unat (block_low j)"
    using cj(1) cj(5) by fastforce
  show "unat (block_high i) \<ge> unat (block_high j)" if "unat (block_low i) = unat (block_low j)"
  proof (rule ccontr)
    assume "\<not> ?thesis"
    then have "unat (block_high i) + 1 \<in> used (j # ms)"
      using that ci(1) by auto
    then have "unat (block_high i) + 1 \<in> used (i # ns)"
      using assms(3) by simp
    then show False using ci(5) by fastforce
  qed
qed

lemma chain_unique:
  "chain l ns e \<Longrightarrow> chain l' ms e \<Longrightarrow> used ns = used ms \<Longrightarrow> ns = ms"
proof (induction ns arbitrary: l l' ms)
  case Nil
  then show ?case
    by (cases ms) (auto simp: word_le_nat_alt)
next
  case (Cons i ns)
  show ?case
  proof (cases ms)
    case Nil
    with Cons.prems show ?thesis by (auto simp: word_le_nat_alt)
  next
    case (Cons j ms')
    note cs = Cons.prems[unfolded Cons]
    have lo: "unat (block_low i) = unat (block_low j)"
      using chain_first_run(1)[OF cs] chain_first_run(1)[OF cs(2,1) cs(3)[symmetric]] by simp
    have hi: "unat (block_high i) = unat (block_high j)"
      using chain_first_run(2)[OF cs lo] chain_first_run(2)[OF cs(2,1) cs(3)[symmetric] lo[symmetric]]
      by simp
    have ij: "i = j" using lo hi by (rule blocknode_eqI)
    have "used ns = used (i # ns) - {unat (block_low i)..unat (block_high i)}"
      using chain_ConsD(5)[OF cs(1)] by fastforce
    moreover have "used ms' = used (j # ms') - {unat (block_low j)..unat (block_high j)}"
      using chain_ConsD(5)[OF cs(2)] by fastforce
    ultimately have "used ns = used ms'" using cs(3) ij by simp
    then show ?thesis
      using Cons.IH chain_ConsD(4)[OF cs(1)] chain_ConsD(4)[OF cs(2)] ij Cons by blast
  qed
qed

section \<open>Arithmetic of one step\<close>

lemma pmfs_get_numblocks_pow:
  obtains k where "k \<le> 18" "pmfs_get_numblocks bt = push_bit k 1" "unat (pmfs_get_numblocks bt) = 2 ^ k"
proof -
  have "\<exists>k\<le>18. pmfs_get_numblocks bt = push_bit k 1 \<and> unat (pmfs_get_numblocks bt) = 2 ^ k"
    unfolding pmfs_get_numblocks_def
    by (auto intro: exI[of _ "0::nat"] exI[of _ "9::nat"] exI[of _ "18::nat"] simp: push_bit_eq_mult)
  then show ?thesis using that by blast
qed

lemma new_run_arith:
  fixes h :: u64 and bt :: u8
  assumes h: "unat h < 2 ^ 52"
  defines "num \<equiv> pmfs_get_numblocks bt"
  defines "c \<equiv> (h + num) AND NOT (num - 1)"
  shows "unat num dvd unat c" "unat h < unat c" "unat c \<le> unat h + unat num"
    and "unat (c + num - 1) = unat c + unat num - 1"
    and "\<And>b. unat num dvd b \<Longrightarrow> unat h < b \<Longrightarrow> unat c \<le> b"
    and "0 < unat num" "unat num \<le> 2 ^ 18"
proof -
  obtain k where k: "k \<le> 18" "num = push_bit k 1" "unat num = 2 ^ k"
    unfolding num_def by (rule pmfs_get_numblocks_pow)
  have n: "(2::nat) ^ k \<le> 2 ^ 18" using k(1) by (intro power_increasing) auto
  have m: "num - 1 = mask k" by (simp add: k(2) mask_eq_exp_minus_1 push_bit_eq_mult)
  have hn: "unat (h + num) = unat h + 2 ^ k"
    using h n k(3) by (subst unat_plus_fits) auto
  have c: "unat c = (unat h + 2 ^ k) div 2 ^ k * 2 ^ k"
    unfolding c_def m by (simp add: unat_and_not_mask hn)
  show "unat num dvd unat c" by (simp add: c k(3))
  have "unat h + 2 ^ k < (unat h + 2 ^ k) div 2 ^ k * 2 ^ k + 2 ^ k"
    using dividend_less_div_times[of "2 ^ k" "unat h + 2 ^ k"] by simp
  then show hc: "unat h < unat c" by (simp add: c)
  show ch: "unat c \<le> unat h + unat num" by (simp add: c k(3))
  have "unat (c + num) = unat c + 2 ^ k"
    using h n ch k(3) by (subst unat_plus_fits) auto
  then show "unat (c + num - 1) = unat c + unat num - 1"
    using hc by (subst unat_minus_fits) (auto simp: word_le_nat_alt k(3))
  show "unat c \<le> b" if "unat num dvd b" "unat h < b" for b
  proof -
    from that(1) obtain q where q: "b = 2 ^ k * q" unfolding k(3) by (rule dvdE)
    have "unat h div 2 ^ k < q"
      using that(2) q by (simp add: less_mult_imp_div_less mult.commute)
    then have "(unat h + 2 ^ k) div 2 ^ k \<le> q" by (simp add: div_add_self2)
    then show ?thesis by (simp add: c q mult.commute)
  qed
  show "0 < unat num" "unat num \<le> 2 ^ 18" using k(3) n by auto
qed

lemma fits_Cons:
  assumes "chain l (i # ns) e" "fits ns e n b"
  shows "fits (i # ns) e n b"
proof -
  obtain u where "u \<in> used ns" "u < b" using assms(2) by (auto simp: fits_def)
  then have "unat (block_high i) + 2 < b" using chain_ConsD(5)[OF assms(1)] by force
  then show ?thesis using assms(2) by (auto simp: fits_def)
qed

text \<open>When the gap after a run is too small, the next fit is above the following run.\<close>

lemma fits_skip:
  assumes f: "fits (i # ns) e n b" and c: "chain l (i # ns) e" and n: "0 < n"
    and small: "\<And>b'. n dvd b' \<Longrightarrow> unat (block_high i) < b' \<Longrightarrow> nl < b' + n"
    and nl: "nl = (case ns of [] \<Rightarrow> e | j # _ \<Rightarrow> unat (block_low j))"
  shows "fits ns e n b"
proof -
  note ci = chain_ConsD[OF c]
  have b: "n dvd b" "{b..<b + n} \<inter> used (i # ns) = {}" "b + n \<le> e"
    using f by (auto simp: fits_def)
  obtain u where u: "u \<in> used (i # ns)" "u < b" using f unfolding fits_def by blast
  have hb: "unat (block_high i) < b"
  proof (rule ccontr)
    assume "\<not> ?thesis"
    moreover from this have "unat (block_low i) \<le> b" using u ci(5)[of u] by force
    moreover have "b \<in> {b..<b + n}" using n by simp
    ultimately have "b \<in> {b..<b + n} \<inter> used (i # ns)" by simp
    then show False using b(2) by blast
  qed
  have lt: "nl < b + n" by (rule small[OF b(1) hb])
  show ?thesis
  proof (cases ns)
    case Nil
    then show ?thesis using lt nl b(3) by simp
  next
    case (Cons j ns')
    have "unat (block_low j) \<in> used ns"
      using Cons c by (auto simp: word_le_nat_alt)
    moreover have "unat (block_low j) \<notin> {b..<b + n}" using calculation b(2) by auto
    ultimately have "\<exists>u\<in>used ns. u < b"
      using lt nl Cons by (intro bexI[of _ "unat (block_low j)"]) auto
    then show ?thesis using b by (auto simp: fits_def)
  qed
qed


text \<open>The branches of one step of the search, read over the naturals.\<close>

lemma new_block_loop_step:
  fixes s :: fs and bt :: u8 and i :: pmfs_blocknode and rest :: "pmfs_blocknode list"
  defines "num \<equiv> pmfs_get_numblocks bt"
  defines "c \<equiv> (block_high i + num) AND NOT (num - 1)"
  defines "n \<equiv> unat num"
  defines "hi \<equiv> unat (block_high i)"
  defines "e \<equiv> unat (block_end (sbi s))"
  defines "nl \<equiv> (case rest of [] \<Rightarrow> e | j # _ \<Rightarrow> unat (block_low j))"
  assumes ch: "chain l (i # rest) e" and e: "e < 2 ^ 52"
  shows "new_block_loop num (i # rest) s =
    (if unat c + n > nl then
       (case new_block_loop num rest s of (r, rest', s') \<Rightarrow> (r, i # rest', s'))
     else if unat c = hi + 1 \<and> unat c + n = nl then
       (case rest of
          j # rest' \<Rightarrow>
            (Some c, i\<lparr>block_high := block_high j\<rparr> # rest',
             upd_sbi (num_blocknode_allocated_update (\<lambda>n. n - 1)) s)
        | [] \<Rightarrow> (Some c, [i\<lparr>block_high := c + num - 1\<rparr>], s))
     else if unat c = hi + 1 then (Some c, i\<lparr>block_high := c + num - 1\<rparr> # rest, s)
     else if unat c + n = nl \<and> rest \<noteq> [] then
       (Some c, i # (hd rest)\<lparr>block_low := c\<rparr> # tl rest, s)
     else (case pmfs_alloc_blocknode s of
             (False, s') \<Rightarrow> (None, i # rest, s')
           | (True, s') \<Rightarrow>
               (Some c, i # \<lparr>block_low = c, block_high = c + num - 1\<rparr> # rest, s')))"
proof -
  note ci = chain_ConsD[OF ch]
  have hi52: "unat (block_high i) < 2 ^ 52" using ci(2) e by simp
  note a = new_run_arith[OF hi52, of bt, folded num_def, folded c_def, folded n_def]
  define nlw where "nlw = (case rest of [] \<Rightarrow> block_end (sbi s) | j # _ \<Rightarrow> block_low j)"
  have nlw: "unat nlw = nl" by (simp add: nlw_def nl_def e_def split: list.split)
  have h1: "unat (block_high i + 1) = hi + 1"
    using hi52 by (subst unat_plus_fits) (auto simp: hi_def)
  have hc: "hi + 1 \<le> unat c" using a(2) by (simp add: hi_def)
  have c1: "(c + num - 1 \<ge> nlw) = (unat c + n > nl)"
    using a(4,6) nlw by (auto simp: word_le_nat_alt)
  have c2: "(c = block_high i + 1) = (unat c = hi + 1)" by (simp add: word_unat_eq_iff h1)
  have c3: "(c > block_high i + 1) = (unat c \<noteq> hi + 1)"
    using hc by (auto simp: word_less_nat_alt h1)
  have c4: "(c + num - 1 = nlw - 1) = (unat c + n = nl)"
    "(c + num - 1 < nlw - 1) = (unat c + n < nl)" if "\<not> unat c + n > nl"
  proof -
    have "1 \<le> nlw" using that a(6) nlw by (simp add: word_le_nat_alt)
    then have "unat (nlw - 1) = nl - 1" using that a(6) by (subst unat_minus_fits) (auto simp: nlw)
    then show "(c + num - 1 = nlw - 1) = (unat c + n = nl)"
      "(c + num - 1 < nlw - 1) = (unat c + n < nl)"
      using a(4,6) that by (auto simp: word_unat_eq_iff word_less_nat_alt)
  qed
  show ?thesis
    unfolding new_block_loop.simps Let_def nlw_def[symmetric] c_def[symmetric] c1
    using hc by (auto simp: c2 c3 c4 split: list.split)
qed


text \<open>What a completed search has found: the lowest fitting run, added to the list.\<close>

definition search_result ::
  "nat \<Rightarrow> nat \<Rightarrow> nat \<Rightarrow> pmfs_blocknode list \<Rightarrow> u64 \<Rightarrow> pmfs_blocknode list \<Rightarrow> bool" where
  "search_result l e n ns b ns' \<longleftrightarrow>
     chain l ns' e \<and> ns' \<noteq> [] \<and> used ns' = used ns \<union> {unat b..<unat b + n}
     \<and> fits ns e n (unat b) \<and> (\<forall>b'. fits ns e n b' \<longrightarrow> unat b \<le> b')"

lemma search_result_Cons:
  assumes ch: "chain l (i # ns) e" and r: "search_result (unat (block_high i) + 2) e n ns b ns'"
    and skip: "\<And>b'. fits (i # ns) e n b' \<Longrightarrow> fits ns e n b'"
  shows "search_result l e n (i # ns) b (i # ns')"
  using assms fits_Cons[OF ch, of n "unat b"] by (auto simp: search_result_def)

text \<open>A run placed right above \<open>i\<close>, or in the gap after it, is the lowest one.\<close>

lemma search_resultI:
  assumes ch: "chain l (i # ns) e" and n: "0 < n" "n dvd unat b" "unat (block_high i) < unat b"
    and gap: "unat b + n \<le> (case ns of [] \<Rightarrow> e | j # _ \<Rightarrow> unat (block_low j))"
    and low: "\<And>b'. n dvd b' \<Longrightarrow> unat (block_high i) < b' \<Longrightarrow> unat b \<le> b'"
    and ns': "chain l ns' e" "ns' \<noteq> []" "used ns' = used (i # ns) \<union> {unat b..<unat b + n}"
  shows "search_result l e n (i # ns) b ns'"
proof -
  note ci = chain_ConsD[OF ch]
  have above: "unat b + n \<le> x" if "x \<in> used ns" for x
  proof (cases ns)
    case (Cons j ns'')
    then have "chain (unat (block_low j)) ns e" using ch by simp
    then have "unat (block_low j) \<le> x" using that chain_used by blast
    then show ?thesis using gap Cons by simp
  qed (use that in simp)
  have e: "unat b + n \<le> e"
    using gap ch by (cases ns) (auto simp: word_le_nat_alt)
  have "{unat b..<unat b + n} \<inter> used (i # ns) = {}"
    using n(3) by (auto dest: above)
  moreover have "unat (block_low i) \<in> used (i # ns)" "unat (block_low i) < unat b"
    using ci(1) n(3) by auto
  ultimately have f: "fits (i # ns) e n (unat b)" using e n(2) unfolding fits_def by blast
  have "unat b \<le> b'" if f': "fits (i # ns) e n b'" for b'
  proof (cases "unat (block_high i) < b'")
    case False
    have *: "n dvd b'" "{b'..<b' + n} \<inter> used (i # ns) = {}" "\<exists>u\<in>used (i # ns). u < b'"
      using f' unfolding fits_def by blast+
    then obtain u where "u \<in> used (i # ns)" "u < b'" by blast
    then have "unat (block_low i) \<le> b'" using ci(5)[of u] False by auto
    then have "b' \<in> {b'..<b' + n} \<inter> used (i # ns)" using False n(1) by simp
    then show ?thesis using *(2) by blast
  qed (use low f' in \<open>auto simp: fits_def\<close>)
  then show ?thesis using f ns' by (simp add: search_result_def)
qed

lemma pmfs_alloc_blocknode_frame:
  "pmfs_alloc_blocknode s = (ok, s') \<Longrightarrow>
     block_inuse_head (sbi s') = block_inuse_head (sbi s)
     \<and> block_start (sbi s') = block_start (sbi s) \<and> block_end (sbi s') = block_end (sbi s)
     \<and> num_free_blocks (sbi s') = num_free_blocks (sbi s) \<and> mem s' = mem s"
  by (auto simp: pmfs_alloc_blocknode_def kmem_cache_alloc_def split: list.splits bool.splits prod.splits)

text \<open>The four ways of entering a run of \<open>n\<close> blocks at \<open>c\<close> in the list.\<close>

lemma place_fill:
  assumes "chain l (i # j # ns) e" "c = unat (block_high i) + 1" "c + n = unat (block_low j)"
  shows "chain l (i\<lparr>block_high := block_high j\<rparr> # ns) e"
    and "used (i\<lparr>block_high := block_high j\<rparr> # ns) = used (i # j # ns) \<union> {c..<c + n}"
proof -
  note ci = chain_ConsD[OF assms(1)] and cj = chain_ConsD[OF chain_ConsD(4)[OF assms(1)]]
  show "chain l (i\<lparr>block_high := block_high j\<rparr> # ns) e"
    using ci(1-3) cj(1-4) by (simp add: word_le_nat_alt)
  have "{unat (block_low i)..unat (block_high j)} =
      {unat (block_low i)..unat (block_high i)} \<union> {c..<c + n} \<union> {unat (block_low j)..unat (block_high j)}"
    using ci(1) cj(1) assms(2,3) by auto
  then show "used (i\<lparr>block_high := block_high j\<rparr> # ns) = used (i # j # ns) \<union> {c..<c + n}"
    by auto
qed

lemma place_left:
  assumes ch: "chain l (i # ns) e" and n: "0 < n" and w: "unat w = unat c + n - 1"
    and c: "unat c = unat (block_high i) + 1"
    and gap: "unat c + n \<le> (case ns of [] \<Rightarrow> e | j # _ \<Rightarrow> unat (block_low j))"
    and apart: "ns = [] \<or> unat c + n \<noteq> (case ns of [] \<Rightarrow> e | j # _ \<Rightarrow> unat (block_low j))"
  shows "chain l (i\<lparr>block_high := w\<rparr> # ns) e"
    and "used (i\<lparr>block_high := w\<rparr> # ns) = used (i # ns) \<union> {unat c..<unat c + n}"
proof -
  note ci = chain_ConsD[OF ch]
  show "chain l (i\<lparr>block_high := w\<rparr> # ns) e"
    using ci n w c gap apart by (cases ns) (auto simp: word_le_nat_alt)
  have "{unat (block_low i)..unat w} = {unat (block_low i)..unat (block_high i)} \<union> {unat c..<unat c + n}"
    using ci(1) n w c by auto
  then show "used (i\<lparr>block_high := w\<rparr> # ns) = used (i # ns) \<union> {unat c..<unat c + n}"
    by auto
qed

lemma place_right:
  assumes "chain l (i # j # ns) e" "unat c + n = unat (block_low j)"
    and "unat (block_high i) < unat c" "unat c \<noteq> unat (block_high i) + 1"
  shows "chain l (i # j\<lparr>block_low := c\<rparr> # ns) e"
    and "used (i # j\<lparr>block_low := c\<rparr> # ns) = used (i # j # ns) \<union> {unat c..<unat c + n}"
proof -
  note ci = chain_ConsD[OF assms(1)] and cj = chain_ConsD[OF chain_ConsD(4)[OF assms(1)]]
  show "chain l (i # j\<lparr>block_low := c\<rparr> # ns) e"
    using ci(1-3) cj(1-4) assms(2-4) by (simp add: word_le_nat_alt)
  have "{unat c..unat (block_high j)} = {unat c..<unat c + n} \<union> {unat (block_low j)..unat (block_high j)}"
    using cj(1) assms(2) by auto
  then show "used (i # j\<lparr>block_low := c\<rparr> # ns) = used (i # j # ns) \<union> {unat c..<unat c + n}"
    by auto
qed

lemma place_middle:
  assumes ch: "chain l (i # ns) e" and n: "0 < n" and w: "unat w = unat c + n - 1"
    and c: "unat (block_high i) < unat c" "unat c \<noteq> unat (block_high i) + 1"
    and gap: "unat c + n \<le> (case ns of [] \<Rightarrow> e | j # _ \<Rightarrow> unat (block_low j))"
    and apart: "ns = [] \<or> unat c + n \<noteq> (case ns of [] \<Rightarrow> e | j # _ \<Rightarrow> unat (block_low j))"
  shows "chain l (i # \<lparr>block_low = c, block_high = w\<rparr> # ns) e"
    and "used (i # \<lparr>block_low = c, block_high = w\<rparr> # ns) = used (i # ns) \<union> {unat c..<unat c + n}"
proof -
  note ci = chain_ConsD[OF ch]
  show "chain l (i # \<lparr>block_low = c, block_high = w\<rparr> # ns) e"
    using ci n w c gap apart by (cases ns) (auto simp: word_le_nat_alt)
  have "{unat c..unat w} = {unat c..<unat c + n}" using n w by auto
  then show "used (i # \<lparr>block_low = c, block_high = w\<rparr> # ns) = used (i # ns) \<union> {unat c..<unat c + n}"
    by auto
qed

lemma new_block_loop_Some:
  assumes "chain l ns (unat (block_end (sbi s)))" "unat (block_end (sbi s)) < 2 ^ 52"
    and "new_block_loop (pmfs_get_numblocks bt) ns s = (Some b, ns', s')"
  shows "search_result l (unat (block_end (sbi s))) (unat (pmfs_get_numblocks bt)) ns b ns'"
  using assms
proof (induction ns arbitrary: l ns')
  case (Cons i ns)
  define num where "num = pmfs_get_numblocks bt"
  define c where "c = (block_high i + num) AND NOT (num - 1)"
  let ?e = "unat (block_end (sbi s))" and ?n = "unat num"
  let ?nl = "case ns of [] \<Rightarrow> ?e | j # _ \<Rightarrow> unat (block_low j)"
  note ch = Cons.prems(1) and ci = chain_ConsD[OF Cons.prems(1)]
  have hi52: "unat (block_high i) < 2 ^ 52" using ci(2) Cons.prems(2) by simp
  note a = new_run_arith[OF hi52, of bt, folded num_def, folded c_def]
  note step = new_block_loop_step[OF Cons.prems(1,2), of bt, folded num_def, folded c_def]
  note R = Cons.prems(3)[folded num_def, unfolded step]
  show ?case
  proof (cases "unat c + ?n > ?nl")
    case True
    then obtain ns'' where ns': "ns' = i # ns''" and rec: "new_block_loop num ns s = (Some b, ns'', s')"
      using R by (auto split: prod.splits)
    have small: "\<And>b'. ?n dvd b' \<Longrightarrow> unat (block_high i) < b' \<Longrightarrow> ?nl < b' + ?n"
      using True a(5) by fastforce
    show ?thesis unfolding ns' num_def[symmetric]
      by (rule search_result_Cons[OF ch Cons.IH[OF ci(4) Cons.prems(2) rec[unfolded num_def], folded num_def]])
        (rule fits_skip[OF _ ch a(6) small refl])
  next
    case False
    have b: "b = c" using R False by (auto split: prod.splits bool.splits list.splits if_splits)
    have "chain l ns' ?e \<and> ns' \<noteq> [] \<and> used ns' = used (i # ns) \<union> {unat c..<unat c + ?n}"
    proof -
      let ?p = "unat c = unat (block_high i) + 1" and ?q = "unat c + ?n = ?nl \<and> ns \<noteq> []"
      consider (fill) "?p" "?q" | (left) "?p" "\<not> ?q" | (right) "\<not> ?p" "?q" | (middle) "\<not> ?p" "\<not> ?q"
        by blast
      then show ?thesis
      proof cases
        case k: fill
        from k obtain j ns2 where j: "ns = j # ns2" by (auto simp: neq_Nil_conv)
        then have "ns' = i\<lparr>block_high := block_high j\<rparr> # ns2" using R k by auto
        then show ?thesis using place_fill[OF ch[unfolded j] k(1)] k j by simp
      next
        case k: left
        from k have "ns' = i\<lparr>block_high := c + num - 1\<rparr> # ns"
          using R False k by (cases ns) (auto split: if_splits)
        then show ?thesis using place_left[OF ch a(6,4) k(1)] False k by auto
      next
        case k: right
        from k obtain j ns2 where j: "ns = j # ns2" by (auto simp: neq_Nil_conv)
        then have "ns' = i # j\<lparr>block_low := c\<rparr> # ns2" using R k by auto
        then show ?thesis using place_right[OF ch[unfolded j] _ a(2) k(1), of ?n] k j by simp
      next
        case k: middle
        from k have "ns' = i # \<lparr>block_low = c, block_high = c + num - 1\<rparr> # ns"
          using R False k by (auto split: prod.splits bool.splits)
        then show ?thesis using place_middle[OF ch a(6,4,2) k(1)] False k by auto
      qed
    qed
    then show ?thesis unfolding num_def[symmetric] b
      using False a by (intro search_resultI[OF ch]) auto
  qed
qed simp

text \<open>A search that finds nothing: no run fits, or the slab allocation failed.\<close>

definition kmem_fails :: "fs \<Rightarrow> bool" where
  "kmem_fails s \<longleftrightarrow> (case kmem s of [] \<Rightarrow> False | ok # _ \<Rightarrow> \<not> ok)"

lemma pmfs_alloc_blocknode_fails: "fst (pmfs_alloc_blocknode s) \<longleftrightarrow> \<not> kmem_fails s"
  by (auto simp: pmfs_alloc_blocknode_def kmem_cache_alloc_def kmem_fails_def split: list.split bool.split prod.split)

lemma new_block_loop_None:
  assumes "chain l ns (unat (block_end (sbi s)))" "unat (block_end (sbi s)) < 2 ^ 52"
    and "new_block_loop (pmfs_get_numblocks bt) ns s = (None, ns', s')"
  shows "ns' = ns \<and>
    (kmem_fails s \<or> (\<forall>b. \<not> fits ns (unat (block_end (sbi s))) (unat (pmfs_get_numblocks bt)) b))"
  using assms
proof (induction ns arbitrary: l ns')
  case Nil
  then show ?case by (simp add: fits_def)
next
  case (Cons i ns)
  define num where "num = pmfs_get_numblocks bt"
  define c where "c = (block_high i + num) AND NOT (num - 1)"
  let ?e = "unat (block_end (sbi s))" and ?n = "unat num"
  let ?nl = "case ns of [] \<Rightarrow> ?e | j # _ \<Rightarrow> unat (block_low j)"
  note ch = Cons.prems(1) and ci = chain_ConsD[OF Cons.prems(1)]
  have hi52: "unat (block_high i) < 2 ^ 52" using ci(2) Cons.prems(2) by simp
  note a = new_run_arith[OF hi52, of bt, folded num_def, folded c_def]
  note step = new_block_loop_step[OF Cons.prems(1,2), of bt, folded num_def, folded c_def]
  note R = Cons.prems(3)[folded num_def, unfolded step]
  show ?case
  proof (cases "unat c + ?n > ?nl")
    case True
    then obtain ns'' where ns': "ns' = i # ns''" and rec: "new_block_loop num ns s = (None, ns'', s')"
      using R by (auto split: prod.splits)
    have small: "\<And>b'. ?n dvd b' \<Longrightarrow> unat (block_high i) < b' \<Longrightarrow> ?nl < b' + ?n"
      using True a(5) by fastforce
    have "ns'' = ns \<and> (kmem_fails s \<or> (\<forall>b. \<not> fits ns ?e ?n b))"
      using Cons.IH[OF ci(4) Cons.prems(2) rec[unfolded num_def]] by (simp add: num_def)
    then show ?thesis
      using fits_skip[OF _ ch a(6) small refl] unfolding ns' num_def[symmetric] by blast
  next
    case False
    obtain ok s2 where al: "pmfs_alloc_blocknode s = (ok, s2)" by (cases "pmfs_alloc_blocknode s")
    then show ?thesis
      using R False pmfs_alloc_blocknode_fails[of s]
      by (auto split: if_splits list.splits bool.splits)
  qed
qed


text \<open>What allocation may change: memory, the list and its counters, the slab outcomes.\<close>

definition alloc_rest :: "fs \<Rightarrow> fs" where
  "alloc_rest s = s\<lparr>mem := (\<lambda>_. 0), kmem := [],
     sbi := (sbi s)\<lparr>block_inuse_head := [], num_free_blocks := 0, num_blocknode_allocated := 0\<rparr>\<rparr>"

abbreviation alloc_frame :: "fs \<Rightarrow> fs \<Rightarrow> bool" where
  "alloc_frame s s' \<equiv> alloc_rest s' = alloc_rest s"

lemma alloc_frame_fields:
  assumes "alloc_frame s s'"
  shows "block_start (sbi s') = block_start (sbi s)" "block_end (sbi s') = block_end (sbi s)"
    and "s_blocksize s' = s_blocksize s" "s_blocksize_bits s' = s_blocksize_bits s"
    and "s_flags s' = s_flags s" "journal_info s' = journal_info s" "now s' = now s"
  using arg_cong[OF assms, of "\<lambda>s. block_start (sbi s)"] arg_cong[OF assms, of "\<lambda>s. block_end (sbi s)"]
    arg_cong[OF assms, of s_blocksize] arg_cong[OF assms, of s_blocksize_bits]
    arg_cong[OF assms, of s_flags] arg_cong[OF assms, of journal_info] arg_cong[OF assms, of now]
  by (simp_all add: alloc_rest_def)

lemma pmfs_alloc_blocknode_alloc_frame: "alloc_frame s (snd (pmfs_alloc_blocknode s))"
  by (auto simp: pmfs_alloc_blocknode_def kmem_cache_alloc_def alloc_rest_def
    split: list.split bool.split prod.split)

lemma new_block_loop_state:
  "new_block_loop num ns s = (r, ns', s') \<Longrightarrow>
     s' = s \<or> s' = upd_sbi (num_blocknode_allocated_update (\<lambda>n. n - 1)) s
     \<or> s' = snd (pmfs_alloc_blocknode s)"
proof (induction ns arbitrary: r ns' s')
  case (Cons i rest)
  obtain ok s2 where al: "pmfs_alloc_blocknode s = (ok, s2)" by (cases "pmfs_alloc_blocknode s")
  obtain r' rest' s3 where rec: "new_block_loop num rest s = (r', rest', s3)"
    by (cases "new_block_loop num rest s")
  show ?case
    using Cons(2) Cons(1)[OF rec] unfolding new_block_loop.simps Let_def rec al
    by (auto split: if_splits list.splits bool.splits)
qed simp

lemma new_block_loop_frame:
  assumes "new_block_loop num ns s = (r, ns', s')"
  shows "alloc_frame s s'" "mem s' = mem s" "num_free_blocks (sbi s') = num_free_blocks (sbi s)"
    and "block_inuse_head (sbi s') = block_inuse_head (sbi s)"
proof -
  obtain ok s2 where al: "pmfs_alloc_blocknode s = (ok, s2)" by (cases "pmfs_alloc_blocknode s")
  note facts = new_block_loop_state[OF assms] pmfs_alloc_blocknode_frame[OF al]
  show "mem s' = mem s" "num_free_blocks (sbi s') = num_free_blocks (sbi s)"
    "block_inuse_head (sbi s') = block_inuse_head (sbi s)"
    using facts by (auto simp: al)
  show "alloc_frame s s'"
    using facts(1) pmfs_alloc_blocknode_alloc_frame[of s] by (auto simp: alloc_rest_def)
qed

section \<open>What pmfs_new_block does\<close>

lemma numblocks_page: "unat (pmfs_get_numblocks bt) * 2 ^ 12 =
   (if bt = PMFS_BLOCK_TYPE_4K then 2 ^ 12 else if bt = PMFS_BLOCK_TYPE_2M then 2 ^ 21 else 2 ^ 30)"
  by (simp add: pmfs_get_numblocks_def)

lemma unat_block_off: "unat b < 2 ^ 52 \<Longrightarrow> unat (pmfs_get_block_off b) = unat b * 2 ^ 12"
  unfolding pmfs_get_block_off_def by (subst unat_push_bit_fits) (auto simp: mult.commute)

text \<open>The bytes of a set of blocks.\<close>

definition bytes_of :: "nat set \<Rightarrow> nat set" where
  "bytes_of B = {a. a div 2 ^ 12 \<in> B}"

lemma bytes_of_run:
  "bytes_of {b..<b + n} = {b * 2 ^ 12..<b * 2 ^ 12 + n * 2 ^ 12}"
proof -
  have "a div 2 ^ 12 \<in> {b..<b + n} \<longleftrightarrow> a \<in> {b * 2 ^ 12..<(b + n) * 2 ^ 12}" for a :: nat
    by (simp add: less_eq_div_iff_mult_less_eq div_less_iff_less_mult)
  then show ?thesis unfolding bytes_of_def by (simp add: add_mult_distrib set_eq_iff)
qed

lemma pmfs_new_block_Inr:
  assumes inv: "balloc_inv s" and r: "pmfs_new_block bt zero s = Some (Inr b, s')"
  shows "balloc_inv s'" "used_blocks s' = used_blocks s \<union> block_run bt b"
    and "fits (block_inuse_head (sbi s)) (unat (block_end (sbi s))) (unat (pmfs_get_numblocks bt)) (unat b)"
    and "fits (block_inuse_head (sbi s)) (unat (block_end (sbi s))) (unat (pmfs_get_numblocks bt)) b' \<Longrightarrow> unat b \<le> b'"
    and "num_free_blocks (sbi s') = num_free_blocks (sbi s) - pmfs_get_numblocks bt"
    and "mem s' = (\<lambda>a. if zero \<and> a \<in> bytes_of (block_run bt b) then 0 else mem s a)"
    and "alloc_frame s s'"
proof -
  let ?num = "pmfs_get_numblocks bt"
  obtain ns' s1 where L: "new_block_loop ?num (block_inuse_head (sbi s)) s = (Some b, ns', s1)"
    and s': "s' = (let s2 = upd_sbi (\<lambda>x. x\<lparr>block_inuse_head := ns', num_free_blocks := num_free_blocks x - ?num\<rparr>) s1
        in if zero then upd_mem (memset (unat (pmfs_get_block_off b)) 0 (unat ?num * 2 ^ 12)) s2 else s2)"
    using r unfolding pmfs_new_block_def numblocks_page
    by (auto simp: Let_def split: prod.splits option.splits if_splits)
  note fr = new_block_loop_frame[OF L]
  have S: "search_result (unat (block_start (sbi s))) (unat (block_end (sbi s))) (unat ?num) (block_inuse_head (sbi s)) b ns'"
    using new_block_loop_Some[OF _ _ L] inv by (simp add: balloc_inv_def)
  have be: "block_end (sbi s') = block_end (sbi s)" "block_start (sbi s') = block_start (sbi s)"
    using alloc_frame_fields[OF fr(1)] by (simp_all add: s' Let_def)
  have ns: "block_inuse_head (sbi s') = ns'" by (simp add: s' Let_def)
  show "balloc_inv s'" using S inv be ns by (simp add: balloc_inv_def search_result_def)
  show "used_blocks s' = used_blocks s \<union> block_run bt b"
    using S by (simp add: used_blocks_def ns search_result_def block_run_def)
  show fit: "fits (block_inuse_head (sbi s)) (unat (block_end (sbi s))) (unat ?num) (unat b)"
    "fits (block_inuse_head (sbi s)) (unat (block_end (sbi s))) (unat ?num) b' \<Longrightarrow> unat b \<le> b'"
    using S by (auto simp: search_result_def)
  show "num_free_blocks (sbi s') = num_free_blocks (sbi s) - ?num"
    using fr by (simp add: s' Let_def)
  have "unat b < 2 ^ 52" using fit(1) inv by (simp add: fits_def balloc_inv_def)
  then show "mem s' = (\<lambda>a. if zero \<and> a \<in> bytes_of (block_run bt b) then 0 else mem s a)"
    using fr by (auto simp: s' Let_def fun_eq_iff block_run_def bytes_of_run unat_block_off memset_def)
  show "alloc_frame s s'" using fr(1) by (simp add: s' Let_def alloc_rest_def)
qed

lemma pmfs_new_block_Inl:
  assumes inv: "balloc_inv s" and r: "pmfs_new_block bt zero s = Some (Inl e, s')"
  shows "e = ENOSPC" "block_inuse_head (sbi s') = block_inuse_head (sbi s)" "mem s' = mem s"
    and "num_free_blocks (sbi s') = num_free_blocks (sbi s)" "alloc_frame s s'"
    and "kmem_fails s \<or> \<not> fits (block_inuse_head (sbi s)) (unat (block_end (sbi s))) (unat (pmfs_get_numblocks bt)) b"
proof -
  let ?num = "pmfs_get_numblocks bt"
  obtain ns' s1 where L: "new_block_loop ?num (block_inuse_head (sbi s)) s = (None, ns', s1)"
    and s': "s' = upd_sbi (block_inuse_head_update (\<lambda>_. ns')) s1" and e: "e = ENOSPC"
    using r unfolding pmfs_new_block_def by (auto simp: Let_def split: prod.splits option.splits if_splits)
  note fr = new_block_loop_frame[OF L] and S = new_block_loop_None[OF _ _ L]
  show "e = ENOSPC" by fact
  show "block_inuse_head (sbi s') = block_inuse_head (sbi s)"
    "kmem_fails s \<or> \<not> fits (block_inuse_head (sbi s)) (unat (block_end (sbi s))) (unat ?num) b"
    using S inv by (auto simp: balloc_inv_def s')
  show "mem s' = mem s" "num_free_blocks (sbi s') = num_free_blocks (sbi s)" "alloc_frame s s'"
    using fr by (auto simp: s' alloc_rest_def)
qed

lemma pmfs_new_block_returns:
  assumes inv: "balloc_inv s"
  obtains r s' where "pmfs_new_block bt zero s = Some (r, s')"
proof -
  let ?num = "pmfs_get_numblocks bt"
  obtain r ns' s1 where L: "new_block_loop ?num (block_inuse_head (sbi s)) s = (r, ns', s1)"
    by (cases "new_block_loop ?num (block_inuse_head (sbi s)) s")
  have "unat (pmfs_get_block_off b) \<noteq> 0" if "r = Some b" for b
  proof -
    have "fits (block_inuse_head (sbi s)) (unat (block_end (sbi s))) (unat ?num) (unat b)"
      using new_block_loop_Some[OF _ _ L[unfolded that]] inv
      by (auto simp: balloc_inv_def search_result_def)
    then have "0 < unat b" "unat b < 2 ^ 52" using inv by (auto simp: fits_def balloc_inv_def)
    then show ?thesis by (simp add: unat_block_off)
  qed
  then have "pmfs_new_block bt zero s \<noteq> None"
    using L by (cases r) (auto simp: pmfs_new_block_def Let_def)
  then show ?thesis using that by fast
qed

section \<open>What __pmfs_free_block does\<close>

text \<open>Nodes below the run are skipped, so the search may start at any of them.\<close>

lemma free_block_loop_skip:
  assumes "\<And>i. i \<in> set pre \<Longrightarrow> block_high i < lo"
  shows "free_block_loop lo hi num hint k (pre @ ns) s =
    map_option (\<lambda>(h, rest, s'). (h, pre @ rest, s')) (free_block_loop lo hi num hint (k + length pre) ns s)"
  using assms
proof (induction pre arbitrary: k)
  case (Cons i pre)
  then show ?case by (simp add: option.map_comp comp_def case_prod_beta)
qed (simp add: option.map_id)

lemma chain_sorted:
  "chain l (ns @ j # ms) e \<Longrightarrow>
     l \<le> unat (block_low j) \<and> (\<forall>i\<in>set ns. unat (block_high i) + 2 \<le> unat (block_low j))"
proof (induction ns arbitrary: l)
  case (Cons k ns)
  note ck = chain_ConsD[OF Cons.prems[unfolded append_Cons]]
  then show ?case using Cons.IH[OF ck(4)] by auto
qed simp

lemma chain_suffix: "chain l (ns @ ms) e \<Longrightarrow> chain l ms e"
proof (induction ns arbitrary: l)
  case (Cons k ns)
  note ck = chain_ConsD[OF Cons.prems[unfolded append_Cons]]
  then show ?case using chain_mono[OF Cons.IH[OF ck(4)]] by auto
qed simp

text \<open>A run inside the used blocks lies inside one node.\<close>

lemma chain_run_in_node:
  assumes "chain l ns e" "{lo..hi} \<subseteq> used ns" "lo \<le> hi"
  obtains pre i post where "ns = pre @ i # post" "unat (block_low i) \<le> lo" "hi \<le> unat (block_high i)"
  using assms
proof (induction ns arbitrary: l thesis)
  case (Cons i ns)
  note ci = chain_ConsD[OF Cons.prems(2)]
  show ?case
  proof (cases "lo \<le> unat (block_high i)")
    case True
    have "lo \<in> used (i # ns)" using Cons.prems(3,4) by auto
    then have low: "unat (block_low i) \<le> lo" using ci(1) ci(5)[of lo] True by auto
    have "hi \<le> unat (block_high i)"
    proof (rule ccontr)
      assume "\<not> ?thesis"
      then have "unat (block_high i) + 1 \<in> used (i # ns)"
        using True by (intro subsetD[OF Cons.prems(3)]) simp
      then show False using ci(5)[of "unat (block_high i) + 1"] by auto
    qed
    then show ?thesis using Cons.prems(1)[of "[]"] low by simp
  next
    case False
    then have "{lo..hi} \<subseteq> used ns" using Cons.prems(3) by auto
    then show ?thesis
      using Cons.IH[OF _ ci(4) _ Cons.prems(4)] Cons.prems(1)[of "i # _"] by (metis append_Cons)
  qed
qed auto

definition free_result ::
  "u64 \<Rightarrow> u64 \<Rightarrow> u64 \<Rightarrow> nat \<Rightarrow> nat \<Rightarrow> pmfs_blocknode list \<Rightarrow> fs \<Rightarrow> pmfs_blocknode list \<Rightarrow> fs \<Rightarrow> bool" where
  "free_result lo hi num l e ns s ns' s' \<longleftrightarrow>
     chain l ns' e \<and> used ns' = used ns - {unat lo..unat hi}
     \<and> num_free_blocks (sbi s') = num_free_blocks (sbi s) + num"

lemma free_block_loop_node:
  assumes ch: "chain l (i # ns) e" and lohi: "lo \<le> hi"
    and i: "block_low i \<le> lo" "hi \<le> block_high i" and e: "e < 2 ^ 52"
  obtains h ns' s' where "free_block_loop lo hi num hint k (i # ns) s = Some (h, ns', s')"
    and "alloc_frame s s'" "mem s' = mem s"
    and "free_result lo hi num l e (i # ns) s ns' s'
      \<or> kmem_fails s \<and> ns' = i # ns \<and> num_free_blocks (sbi s') = num_free_blocks (sbi s)"
proof -
  note ci = chain_ConsD[OF ch]
  have le: "unat (block_low i) \<le> unat lo" "unat lo \<le> unat hi" "unat hi \<le> unat (block_high i)"
    using i lohi by (simp_all add: word_le_nat_alt)
  have hi1: "unat (hi + 1) = unat hi + 1"
    using le ci(2) e by (subst unat_plus_fits) auto
  have lo1: "unat (lo - 1) = unat lo - 1" if "block_low i < lo"
    using that by (subst unat_minus_fits) (auto simp: word_le_nat_alt word_less_nat_alt)
  have lo_le: "\<not> block_high i < lo" using i(2) lohi by auto
  obtain ok s2 where al: "pmfs_alloc_blocknode s = (ok, s2)" by (cases "pmfs_alloc_blocknode s")
  note fr = pmfs_alloc_blocknode_frame[OF al] pmfs_alloc_blocknode_alloc_frame[of s, unfolded al snd_conv]
  consider (all) "lo = block_low i" "hi = block_high i" | (left) "lo = block_low i" "hi < block_high i"
    | (right) "block_low i < lo" "hi = block_high i" | (middle) "block_low i < lo" "hi < block_high i"
    using i by fastforce
  then show ?thesis
  proof cases
    case all
    have u: "used ns = used (i # ns) - {unat lo..unat hi}" using all ci(5) by fastforce
    have c: "chain l ns e" using ci by (auto intro: chain_mono)
    have f: "free_block_loop lo hi num hint k (i # ns) s =
        Some (if ns = [] then None else Some k, ns, upd_sbi (num_free_blocks_update (\<lambda>n. n + num))
          (upd_sbi (num_blocknode_allocated_update (\<lambda>n. n - 1)) s))"
      using lo_le all by simp
    show ?thesis
      by (rule that[OF f]) (use u c in \<open>simp_all add: free_result_def alloc_rest_def\<close>)
  next
    case left
    have u: "used (i\<lparr>block_low := hi + 1\<rparr> # ns) = used (i # ns) - {unat lo..unat hi}"
      using left hi1 ci(5) le by fastforce
    have c: "chain l (i\<lparr>block_low := hi + 1\<rparr> # ns) e"
      using ci le hi1 left by (simp add: word_le_nat_alt word_less_nat_alt)
    have f: "free_block_loop lo hi num hint k (i # ns) s =
        Some (Some k, i\<lparr>block_low := hi + 1\<rparr> # ns, upd_sbi (num_free_blocks_update (\<lambda>n. n + num)) s)"
      using lo_le left by auto
    show ?thesis
      by (rule that[OF f]) (use u c in \<open>simp_all add: free_result_def alloc_rest_def\<close>)
  next
    case right
    have u: "used (i\<lparr>block_high := lo - 1\<rparr> # ns) = used (i # ns) - {unat lo..unat hi}"
      using right lo1 ci(5) le by (fastforce simp: word_less_nat_alt)
    have c: "chain l (i\<lparr>block_high := lo - 1\<rparr> # ns) e"
      using ci le lo1 right by (auto simp: word_le_nat_alt word_less_nat_alt intro: chain_mono)
    have f: "free_block_loop lo hi num hint k (i # ns) s =
        Some (if ns = [] then None else Some (Suc k), i\<lparr>block_high := lo - 1\<rparr> # ns,
          upd_sbi (num_free_blocks_update (\<lambda>n. n + num)) s)"
      using lo_le right by auto
    show ?thesis
      by (rule that[OF f]) (use u c in \<open>simp_all add: free_result_def alloc_rest_def\<close>)
  next
    case middle
    let ?ns = "i\<lparr>block_high := lo - 1\<rparr> # \<lparr>block_low = hi + 1, block_high = block_high i\<rparr> # ns"
    have u: "used ?ns = used (i # ns) - {unat lo..unat hi}"
      using middle lo1 hi1 ci(5) le by (fastforce simp: word_less_nat_alt)
    have c: "chain l ?ns e"
      using ci le lo1 hi1 middle by (auto simp: word_le_nat_alt word_less_nat_alt)
    have f: "free_block_loop lo hi num hint k (i # ns) s =
        (if ok then Some (Some (Suc k), ?ns, upd_sbi (num_free_blocks_update (\<lambda>n. n + num)) s2)
         else Some (hint, i # ns, s2))"
      using lo_le middle al by auto
    show ?thesis
    proof (cases ok)
      case True
      show ?thesis
        by (rule that[OF f[unfolded if_P[OF True]]])
          (use u c fr in \<open>simp_all add: free_result_def alloc_rest_def\<close>)
    next
      case False
      then have "kmem_fails s" using pmfs_alloc_blocknode_fails[of s] al by simp
      then show ?thesis
        using fr by (intro that[OF f[unfolded if_not_P[OF False]]]) simp_all
    qed
  qed
qed

lemma free_block_loop_used:
  assumes ch: "chain l ns e" and e: "e < 2 ^ 52" and lohi: "lo \<le> hi"
    and sub: "{unat lo..unat hi} \<subseteq> used ns"
  obtains h ns' s' where "free_block_loop lo hi num hint k ns s = Some (h, ns', s')"
    and "alloc_frame s s'" "mem s' = mem s"
    and "free_result lo hi num l e ns s ns' s'
      \<or> kmem_fails s \<and> ns' = ns \<and> num_free_blocks (sbi s') = num_free_blocks (sbi s)"
  using assms
proof (induction ns arbitrary: l k thesis)
  case Nil
  then show ?case by (simp add: word_le_nat_alt)
next
  case (Cons i ns)
  note ch = Cons.prems(2) and ci = chain_ConsD[OF Cons.prems(2)]
  have le: "unat lo \<le> unat hi" using lohi by (simp add: word_le_nat_alt)
  show ?case
  proof (cases "block_high i < lo")
    case True
    then have "{unat lo..unat hi} \<subseteq> used ns"
      using Cons.prems(5) by (auto simp: word_less_nat_alt)
    from Cons.IH[OF _ ci(4) e lohi this, of "Suc k"] obtain h ns' s' where
      r: "free_block_loop lo hi num hint (Suc k) ns s = Some (h, ns', s')"
        "alloc_frame s s'" "mem s' = mem s"
        "free_result lo hi num (unat (block_high i) + 2) e ns s ns' s'
         \<or> kmem_fails s \<and> ns' = ns \<and> num_free_blocks (sbi s') = num_free_blocks (sbi s)"
      by blast
    have "free_result lo hi num l e (i # ns) s (i # ns') s'"
      if "free_result lo hi num (unat (block_high i) + 2) e ns s ns' s'"
    proof -
      have "{unat (block_low i)..unat (block_high i)} - {unat lo..unat hi} =
          {unat (block_low i)..unat (block_high i)}"
        using True by (intro Diff_triv) (auto simp: word_less_nat_alt)
      then show ?thesis using that ch by (simp add: free_result_def Un_Diff)
    qed
    then show ?thesis
      using r True by (intro Cons.prems(1)[of h "i # ns'" s']) auto
  next
    case False
    then have lo_le: "unat lo \<le> unat (block_high i)" by (simp add: word_less_nat_alt)
    have "unat lo \<in> used (i # ns)" by (rule subsetD[OF Cons.prems(5)]) (simp add: le)
    then have low: "block_low i \<le> lo" using lo_le ci(5)[of "unat lo"] by (auto simp: word_le_nat_alt)
    have "hi \<le> block_high i"
    proof (rule ccontr)
      assume "\<not> ?thesis"
      then have "unat (block_high i) + 1 \<in> used (i # ns)"
        using lo_le by (intro subsetD[OF Cons.prems(5)]) (simp add: word_le_nat_alt)
      then show False using ci(5)[of "unat (block_high i) + 1"] by auto
    qed
    then show ?thesis
      using free_block_loop_node[OF ch lohi low _ e] Cons.prems(1) by blast
  qed
qed

lemma free_block_loop_unused:
  "chain l ns e \<Longrightarrow> lo \<le> hi \<Longrightarrow> \<not> {unat lo..unat hi} \<subseteq> used ns \<Longrightarrow>
     free_block_loop lo hi num hint k ns s = None"
proof (induction ns arbitrary: l k)
  case (Cons i ns)
  have "\<not> (block_low i \<le> lo \<and> hi \<le> block_high i)"
    using Cons.prems(3) by (auto simp: word_le_nat_alt)
  moreover have "\<not> {unat lo..unat hi} \<subseteq> used ns"
    using Cons.prems(3) by auto
  ultimately show ?case
    using Cons.IH[OF chain_ConsD(4)[OF Cons.prems(1)] Cons.prems(2)] by auto
qed simp

lemma free_block_loop_hint_indep:
  "map_option snd (free_block_loop lo hi num hint k ns s) =
   map_option snd (free_block_loop lo hi num hint' k' ns s)"
proof (induction ns arbitrary: k k')
  case (Cons i ns)
  have "map_option snd (map_option (\<lambda>(h, rest', s'). (h, i # rest', s')) x) =
      map_option (\<lambda>(rest', s'). (i # rest', s')) (map_option snd x)" for x :: "(nat option \<times> pmfs_blocknode list \<times> fs) option"
    by (cases x) auto
  then show ?case using Cons[of "Suc k" "Suc k'"] by (simp split: bool.split prod.split)
qed simp

lemma free_block_loop_hint_valid:
  "free_block_loop lo hi num hint k ns s = Some (Some q, ns', s') \<Longrightarrow>
     (case hint of None \<Rightarrow> True | Some p \<Rightarrow> p < k + length ns) \<Longrightarrow> q < k + length ns'"
proof (induction ns arbitrary: k ns')
  case (Cons i ns)
  show ?case
    using Cons.prems Cons.IH[of "Suc k"]
    by (auto simp: Let_def split: if_splits prod.splits bool.splits option.splits)
qed simp

text \<open>The run as the code computes it.\<close>

lemma block_run_bounds:
  assumes "balloc_inv s" "block_run bt b \<subseteq> used_blocks s"
  shows "block_run bt b = {unat b..unat (b + pmfs_get_numblocks bt - 1)}"
    and "b \<le> b + pmfs_get_numblocks bt - 1"
proof -
  obtain k where k: "k \<le> 18" "unat (pmfs_get_numblocks bt) = 2 ^ k"
    by (rule pmfs_get_numblocks_pow)
  have n: "(2::nat) ^ k \<le> 2 ^ 18" using k(1) by (intro power_increasing) auto
  have pos: "0 < (2::nat) ^ k" by simp
  have "unat b \<in> used_blocks s" using assms(2) k(2) by (auto simp: block_run_def)
  then have "unat b < 2 ^ 52"
    using assms(1) chain_used unfolding balloc_inv_def used_blocks_def by fastforce
  then have p: "unat (b + pmfs_get_numblocks bt) = unat b + 2 ^ k"
    using n by (subst unat_plus_fits) (auto simp: k(2))
  have u: "unat (b + pmfs_get_numblocks bt - 1) = unat b + 2 ^ k - 1"
    using p by (subst unat_minus_fits) (auto simp: word_le_nat_alt trans_le_add2)
  show "block_run bt b = {unat b..unat (b + pmfs_get_numblocks bt - 1)}"
    using pos by (auto simp only: block_run_def k(2) u atLeastAtMost_iff atLeastLessThan_iff set_eq_iff)
  show "b \<le> b + pmfs_get_numblocks bt - 1" using pos by (simp only: word_le_nat_alt u)
qed

lemma free_start_append:
  assumes "balloc_inv s" "p < length (block_inuse_head (sbi s))" "block_low (block_inuse_head (sbi s) ! p) \<le> lo"
  shows "i \<in> set (take p (block_inuse_head (sbi s))) \<Longrightarrow> block_high i < lo"
proof -
  assume i: "i \<in> set (take p (block_inuse_head (sbi s)))"
  have "block_inuse_head (sbi s) = take p (block_inuse_head (sbi s)) @ (block_inuse_head (sbi s) ! p) # drop (Suc p) (block_inuse_head (sbi s))"
    using assms(2) by (rule id_take_nth_drop)
  then show ?thesis
    using chain_sorted[of "unat (block_start (sbi s))" "take p (block_inuse_head (sbi s))"
       "block_inuse_head (sbi s) ! p" "drop (Suc p) (block_inuse_head (sbi s))"] assms i
    by (fastforce simp: balloc_inv_def word_le_nat_alt word_less_nat_alt)
qed

definition hint_valid :: "nat option \<Rightarrow> fs \<Rightarrow> bool" where
  "hint_valid hint s \<longleftrightarrow> (case hint of None \<Rightarrow> True | Some p \<Rightarrow> p < length (block_inuse_head (sbi s)))"

text \<open>The hint only saves work: the list and the counters end up the same.\<close>

lemma raw_pmfs_free_block_hint:
  assumes inv: "balloc_inv s" and v: "hint_valid hint s"
  shows "map_option snd (raw_pmfs_free_block b bt hint s) = pmfs_free_block b bt s"
proof -
  let ?head = "block_inuse_head (sbi s)"
  let ?lo = b and ?hi = "b + pmfs_get_numblocks bt - 1" and ?num = "pmfs_get_numblocks bt"
  define k where "k = (case hint of Some p \<Rightarrow> if b \<ge> block_low (?head ! p) then p else 0 | None \<Rightarrow> 0)"
  let ?l = "\<lambda>h k ns. free_block_loop ?lo ?hi ?num h k ns s"
  have pre: "block_high i < b" if "i \<in> set (take k ?head)" for i
    using that free_start_append[OF inv, of k b] v
    by (auto simp: k_def hint_valid_def split: option.splits if_splits)
  have "?l None 0 ?head = map_option (\<lambda>(h, r, s'). (h, take k ?head @ r, s')) (?l None (length (take k ?head)) (drop k ?head))"
    using free_block_loop_skip[of "take k ?head" b ?hi ?num None 0 "drop k ?head" s] pre by simp
  moreover have "map_option snd (?l None (length (take k ?head)) (drop k ?head)) = map_option snd (?l hint k (drop k ?head))"
    by (rule free_block_loop_hint_indep)
  ultimately show ?thesis
    by (cases "?l None (length (take k ?head)) (drop k ?head)"; cases "?l hint k (drop k ?head)")
      (auto simp: pmfs_free_block_def raw_pmfs_free_block_def Let_def k_def[symmetric] option.map_comp comp_def)
qed

lemma pmfs_error_mng_frame:
  "pmfs_error_mng s = Some s' \<Longrightarrow> sbi s' = sbi s \<and> mem s' = mem s"
  by (auto simp: pmfs_error_mng_def split: if_splits)

lemma raw_pmfs_free_block_used:
  assumes inv: "balloc_inv s" and sub: "block_run bt b \<subseteq> used_blocks s"
  obtains s' where "pmfs_free_block b bt s = Some s'" "balloc_inv s'" "alloc_frame s s'" "mem s' = mem s"
    and "used_blocks s' = used_blocks s - block_run bt b
        \<and> num_free_blocks (sbi s') = num_free_blocks (sbi s) + pmfs_get_numblocks bt
      \<or> kmem_fails s \<and> block_inuse_head (sbi s') = block_inuse_head (sbi s)
        \<and> num_free_blocks (sbi s') = num_free_blocks (sbi s)"
proof -
  let ?head = "block_inuse_head (sbi s)"
  let ?hi = "b + pmfs_get_numblocks bt - 1" and ?num = "pmfs_get_numblocks bt"
  note br = block_run_bounds[OF inv sub]
  have ch: "chain (unat (block_start (sbi s))) ?head (unat (block_end (sbi s)))"
    and e: "unat (block_end (sbi s)) < 2 ^ 52" using inv by (auto simp: balloc_inv_def)
  have sub': "{unat b..unat ?hi} \<subseteq> used ?head"
    using sub by (simp add: br(1) used_blocks_def)
  have ne: "?head \<noteq> []" using sub' br(2) by (auto simp: word_le_nat_alt)
  from free_block_loop_used[OF ch e br(2) sub'] obtain h ns' s' where
    r: "free_block_loop b ?hi ?num None 0 ?head s = Some (h, ns', s')" "alloc_frame s s'" "mem s' = mem s"
      "free_result b ?hi ?num (unat (block_start (sbi s))) (unat (block_end (sbi s))) ?head s ns' s'
       \<or> kmem_fails s \<and> ns' = ?head \<and> num_free_blocks (sbi s') = num_free_blocks (sbi s)"
    by blast
  let ?s = "upd_sbi (block_inuse_head_update (\<lambda>_. ns')) s'"
  have "pmfs_free_block b bt s = Some ?s"
    using r(1) ne by (simp add: pmfs_free_block_def raw_pmfs_free_block_def Let_def)
  moreover have "alloc_frame s ?s" using r(2) by (simp add: alloc_rest_def)
  moreover have "balloc_inv ?s"
    using alloc_frame_fields[OF r(2)] r(4) ch e by (auto simp: balloc_inv_def free_result_def)
  ultimately show ?thesis
    using r(3,4) by (intro that[of ?s]) (auto simp: free_result_def used_blocks_def br(1))
qed

text \<open>Freeing a run that is not all in use reports an error and changes nothing else.\<close>

lemma pmfs_free_block_unused:
  assumes inv: "balloc_inv s" and ne: "used_blocks s \<noteq> {}" and nsub: "\<not> block_run bt b \<subseteq> used_blocks s"
    and b: "unat b + unat (pmfs_get_numblocks bt) < 2 ^ 64"
  shows "pmfs_free_block b bt s = pmfs_error_mng s"
proof -
  let ?head = "block_inuse_head (sbi s)"
  let ?hi = "b + pmfs_get_numblocks bt - 1" and ?num = "pmfs_get_numblocks bt"
  obtain k where k: "unat ?num = 2 ^ k" by (rule pmfs_get_numblocks_pow)
  have pos: "0 < (2::nat) ^ k" by simp
  have p: "unat (b + ?num) = unat b + 2 ^ k" using b k by (subst unat_plus_fits) auto
  have u: "unat ?hi = unat b + 2 ^ k - 1"
    using p by (subst unat_minus_fits) (auto simp: word_le_nat_alt trans_le_add2)
  have le: "b \<le> ?hi" using pos by (simp only: word_le_nat_alt u)
  have "block_run bt b = {unat b..unat ?hi}"
    using pos by (auto simp only: block_run_def k u atLeastAtMost_iff atLeastLessThan_iff set_eq_iff)
  then have "free_block_loop b ?hi ?num None 0 ?head s = None"
    using free_block_loop_unused[OF _ le, of "unat (block_start (sbi s))" ?head "unat (block_end (sbi s))"] inv nsub
    by (simp add: balloc_inv_def used_blocks_def)
  then show ?thesis
    using ne by (auto simp: pmfs_free_block_def raw_pmfs_free_block_def Let_def used_blocks_def option.map_comp comp_def option.map_ident)
qed

text \<open>The counters follow the list.\<close>

lemma finite_used_blocks [simp]: "finite (used_blocks s)"
  by (simp add: used_blocks_def)

lemma card_block_run: "card (block_run bt b) = unat (pmfs_get_numblocks bt)"
  by (simp add: block_run_def)

lemma new_block_loop_count:
  "new_block_loop num ns s = (r, ns', s') \<Longrightarrow>
     num_blocknode_allocated (sbi s') + of_nat (length ns)
       = num_blocknode_allocated (sbi s) + of_nat (length ns')"
proof (induction ns arbitrary: r ns' s')
  case (Cons i rest)
  obtain r' rest' s3 where rec: "new_block_loop num rest s = (r', rest', s3)"
    by (cases "new_block_loop num rest s")
  show ?case
    using Cons(2) Cons(1)[OF rec] unfolding new_block_loop.simps Let_def rec
    by (auto simp: pmfs_alloc_blocknode_def kmem_cache_alloc_def algebra_simps
        split: if_splits list.splits bool.splits prod.splits)
qed simp

lemma free_block_loop_count:
  "free_block_loop lo hi num hint k ns s = Some (h, ns', s') \<Longrightarrow>
     num_blocknode_allocated (sbi s') + of_nat (length ns)
       = num_blocknode_allocated (sbi s) + of_nat (length ns')"
proof (induction ns arbitrary: k h ns' s')
  case (Cons i rest)
  show ?case
    using Cons(2) Cons(1)[of "Suc k"] 
    by (auto simp: pmfs_alloc_blocknode_def kmem_cache_alloc_def algebra_simps Let_def
        split: if_splits list.splits bool.splits prod.splits)
qed simp

section \<open>The allocator contract\<close>

text \<open>\<open>live_ok U run xs\<close>: the live allocations \<open>xs\<close> lie in \<open>U\<close> and do not overlap.\<close>

fun live_ok :: "nat set \<Rightarrow> ('a \<Rightarrow> nat set) \<Rightarrow> 'a list \<Rightarrow> bool" where
  "live_ok U run [] \<longleftrightarrow> True"
| "live_ok U run (x # xs) \<longleftrightarrow>
     run x \<subseteq> U \<and> (\<forall>y\<in>set xs. run x \<inter> run y = {}) \<and> live_ok U run xs"

lemma live_ok_mono: "live_ok U run xs \<Longrightarrow> U \<subseteq> V \<Longrightarrow> live_ok V run xs"
  by (induction xs) auto

lemma live_ok_sub: "live_ok U run xs \<Longrightarrow> x \<in> set xs \<Longrightarrow> run x \<subseteq> U"
  by (induction xs) auto

lemma live_ok_shrink:
  "live_ok U run xs \<Longrightarrow> (\<And>y. y \<in> set xs \<Longrightarrow> run y \<subseteq> V) \<Longrightarrow> live_ok V run xs"
  by (induction xs) auto

lemma live_ok_remove1:
  "live_ok U run xs \<Longrightarrow> live_ok U run (remove1 x xs)"
  by (induction xs) (use notin_set_remove1 in fastforce)+

lemma live_ok_remove1_disjoint:
  "live_ok U run xs \<Longrightarrow> x \<in> set xs \<Longrightarrow> y \<in> set (remove1 x xs) \<Longrightarrow> run x \<inter> run y = {}"
  by (induction xs) (auto split: if_splits)

locale block_allocator =
  fixes inv :: "'s \<Rightarrow> bool" and in_use :: "'s \<Rightarrow> nat set" and run :: "'t \<Rightarrow> 'b \<Rightarrow> nat set"
    and alloc :: "'t \<Rightarrow> 's \<Rightarrow> (('e + 'b) \<times> 's) option" and free :: "'t \<Rightarrow> 'b \<Rightarrow> 's \<Rightarrow> 's option"
  assumes alloc_total: "inv s \<Longrightarrow> alloc t s \<noteq> None"
    and alloc_new: "inv s \<Longrightarrow> alloc t s = Some (Inr b, s') \<Longrightarrow>
      inv s' \<and> run t b \<inter> in_use s = {} \<and> in_use s' = in_use s \<union> run t b"
    and alloc_err: "inv s \<Longrightarrow> alloc t s = Some (Inl e, s') \<Longrightarrow> inv s' \<and> in_use s' = in_use s"
    and free_total: "inv s \<Longrightarrow> run t b \<subseteq> in_use s \<Longrightarrow> free t b s \<noteq> None"
    and free_used: "inv s \<Longrightarrow> run t b \<subseteq> in_use s \<Longrightarrow> free t b s = Some s' \<Longrightarrow>
      inv s' \<and> in_use s' \<subseteq> in_use s \<and> in_use s - run t b \<subseteq> in_use s'"
begin

lemma live_alloc:
  assumes "inv s" "live_ok (in_use s) (\<lambda>(t, b). run t b) live" "alloc t s = Some (Inr b, s')"
  shows "inv s' \<and> live_ok (in_use s') (\<lambda>(t, b). run t b) ((t, b) # live)"
proof -
  have n: "inv s'" "run t b \<inter> in_use s = {}" "in_use s' = in_use s \<union> run t b"
    using alloc_new[OF assms(1,3)] by auto
  have "\<forall>y\<in>set live. run t b \<inter> (case y of (t, b) \<Rightarrow> run t b) = {}"
    using live_ok_sub[OF assms(2)] n(2) by blast
  then show ?thesis using n live_ok_mono[OF assms(2)] by auto
qed

lemma live_alloc_err:
  "inv s \<Longrightarrow> live_ok (in_use s) (\<lambda>(t, b). run t b) live \<Longrightarrow> alloc t s = Some (Inl e, s') \<Longrightarrow>
     inv s' \<and> live_ok (in_use s') (\<lambda>(t, b). run t b) live"
  using alloc_err by simp

lemma live_free:
  assumes "inv s" "live_ok (in_use s) (\<lambda>(t, b). run t b) live" "(t, b) \<in> set live"
    and "free t b s = Some s'"
  shows "inv s' \<and> live_ok (in_use s') (\<lambda>(t, b). run t b) (remove1 (t, b) live)"
proof -
  have sub: "run t b \<subseteq> in_use s" using live_ok_sub[OF assms(2,3)] by simp
  have f: "inv s'" "in_use s - run t b \<subseteq> in_use s'"
    using free_used[OF assms(1) sub assms(4)] by auto
  have "(case y of (t, b) \<Rightarrow> run t b) \<subseteq> in_use s'" if y: "y \<in> set (remove1 (t, b) live)" for y
    using live_ok_remove1_disjoint[OF assms(2,3) y] live_ok_sub[OF live_ok_remove1[OF assms(2)] y] f(2)
    by auto
  then show ?thesis using live_ok_shrink[OF live_ok_remove1[OF assms(2)]] f(1) by auto
qed

end

lemma fits_free: "fits ns e n b \<Longrightarrow> {b..<b + n} \<inter> used ns = {}"
  by (simp add: fits_def)

interpretation ba: block_allocator balloc_inv used_blocks block_run
  "\<lambda>bt. pmfs_new_block bt zero" "\<lambda>bt b. pmfs_free_block b bt" for zero
proof unfold_locales
  fix s s' :: fs and t :: u8 and b :: u64 and e :: errno
  assume inv: "balloc_inv s"
  show "pmfs_new_block t zero s \<noteq> None"
    using pmfs_new_block_returns[OF inv, of t zero] by blast
  show "balloc_inv s' \<and> block_run t b \<inter> used_blocks s = {} \<and> used_blocks s' = used_blocks s \<union> block_run t b"
    if "pmfs_new_block t zero s = Some (Inr b, s')"
    using pmfs_new_block_Inr(1-3)[OF inv that] fits_free by (simp add: used_blocks_def block_run_def)
  show "balloc_inv s' \<and> used_blocks s' = used_blocks s"
    if "pmfs_new_block t zero s = Some (Inl e, s')"
    using pmfs_new_block_Inl(2,5)[OF inv that] alloc_frame_fields[of s s'] inv
    by (simp add: balloc_inv_def used_blocks_def)
  assume sub: "block_run t b \<subseteq> used_blocks s"
  obtain s2 where r: "pmfs_free_block b t s = Some s2" "balloc_inv s2"
    "used_blocks s2 = used_blocks s - block_run t b \<or> used_blocks s2 = used_blocks s"
    using raw_pmfs_free_block_used[OF inv sub] by (metis used_blocks_def)
  show "pmfs_free_block b t s \<noteq> None" using r by simp
  show "balloc_inv s' \<and> used_blocks s' \<subseteq> used_blocks s \<and> used_blocks s - block_run t b \<subseteq> used_blocks s'"
    if "pmfs_free_block b t s = Some s'"
    using r that by auto
qed

section \<open>Interleavings of allocations and frees\<close>

text \<open>One operation on a file system with the allocations \<open>live\<close> not yet freed.\<close>

inductive balloc_step :: "fs \<times> (u8 \<times> u64) list \<Rightarrow> fs \<times> (u8 \<times> u64) list \<Rightarrow> bool" where
  step_new: "pmfs_new_block bt zero s = Some (Inr b, s') \<Longrightarrow>
    balloc_step (s, live) (s', (bt, b) # live)"
| step_enospc: "pmfs_new_block bt zero s = Some (Inl e, s') \<Longrightarrow> balloc_step (s, live) (s', live)"
| step_free: "(bt, b) \<in> set live \<Longrightarrow> hint_valid hint s \<Longrightarrow>
    raw_pmfs_free_block b bt hint s = Some (hint', s') \<Longrightarrow>
    balloc_step (s, live) (s', remove1 (bt, b) live)"

definition live_inv :: "fs \<times> (u8 \<times> u64) list \<Rightarrow> bool" where
  "live_inv c \<longleftrightarrow>
     balloc_inv (fst c) \<and> live_ok (used_blocks (fst c)) (\<lambda>(bt, b). block_run bt b) (snd c)"

lemma balloc_step_live_inv: "balloc_step c c' \<Longrightarrow> live_inv c \<Longrightarrow> live_inv c'"
proof (induction rule: balloc_step.induct)
  case (step_new bt zero s b s' live)
  then show ?case using ba.live_alloc[of s live bt zero b s'] by (simp only: live_inv_def fst_conv snd_conv)
next
  case (step_enospc bt zero s e s' live)
  then show ?case using ba.live_alloc_err[of s live bt zero e s'] by (simp only: live_inv_def fst_conv snd_conv)
next
  case (step_free bt b live hint s hint' s')
  then have inv: "balloc_inv s" by (simp add: live_inv_def)
  have "pmfs_free_block b bt s = Some s'"
    using raw_pmfs_free_block_hint[OF inv step_free(2), of b bt] step_free(3) by simp
  then show ?case
    using ba.live_free[OF inv _ step_free(1)] step_free(4) by (simp add: live_inv_def)
qed

lemma balloc_steps_live_inv: "balloc_step\<^sup>*\<^sup>* c c' \<Longrightarrow> live_inv c \<Longrightarrow> live_inv c'"
  by (induction rule: rtranclp_induct) (auto intro: balloc_step_live_inv)

lemma live_inv_nth_disjoint:
  "live_ok U run xs \<Longrightarrow> i < j \<Longrightarrow> j < length xs \<Longrightarrow> run (xs ! i) \<inter> run (xs ! j) = {}"
proof (induction xs arbitrary: i j)
  case (Cons x xs)
  then show ?case by (cases i; cases j) auto
qed simp

lemma free_count_alloc:
  assumes inv: "balloc_inv s" and r: "pmfs_new_block bt zero s = Some (r, s')"
  shows "num_free_blocks (sbi s') + of_nat (card (used_blocks s'))
    = num_free_blocks (sbi s) + of_nat (card (used_blocks s))"
proof (cases r)
  case (Inl e)
  then show ?thesis
    using pmfs_new_block_Inl(2,4)[OF inv r[unfolded Inl]] by (simp add: used_blocks_def)
next
  case (Inr b)
  note n = pmfs_new_block_Inr[OF inv r[unfolded Inr]]
  have "card (used_blocks s') = card (used_blocks s) + unat (pmfs_get_numblocks bt)"
    using fits_free[OF n(3)] n(2) card_Un_disjoint[of "used_blocks s" "block_run bt b"]
    by (simp add: card_block_run used_blocks_def block_run_def Int_commute)
  then show ?thesis using n(5) by simp
qed

lemma free_count_free:
  assumes inv: "balloc_inv s" and sub: "block_run bt b \<subseteq> used_blocks s"
    and r: "pmfs_free_block b bt s = Some s'"
  shows "num_free_blocks (sbi s') + of_nat (card (used_blocks s'))
    = num_free_blocks (sbi s) + of_nat (card (used_blocks s))"
proof -
  have "used_blocks s' = used_blocks s - block_run bt b
        \<and> num_free_blocks (sbi s') = num_free_blocks (sbi s) + pmfs_get_numblocks bt
      \<or> used_blocks s' = used_blocks s \<and> num_free_blocks (sbi s') = num_free_blocks (sbi s)"
    using raw_pmfs_free_block_used[OF inv sub] r by (metis option.sel used_blocks_def)
  moreover have "card (used_blocks s - block_run bt b) + unat (pmfs_get_numblocks bt) = card (used_blocks s)"
    using card_Diff_subset[OF _ sub] card_mono[OF _ sub] finite_subset[OF sub] by (simp add: card_block_run)
  then have "of_nat (card (used_blocks s)) =
      (of_nat (card (used_blocks s - block_run bt b) + unat (pmfs_get_numblocks bt)) :: u64)"
    by simp
  then have "of_nat (card (used_blocks s)) =
      of_nat (card (used_blocks s - block_run bt b)) + pmfs_get_numblocks bt"
    by simp
  ultimately show ?thesis by auto
qed

lemma balloc_step_count:
  assumes "balloc_step c c'" "live_inv c"
  shows "num_free_blocks (sbi (fst c')) + of_nat (card (used_blocks (fst c')))
    = num_free_blocks (sbi (fst c)) + of_nat (card (used_blocks (fst c)))"
  using assms
proof (induction rule: balloc_step.induct)
  case (step_free bt b live hint s hint' s')
  then have inv: "balloc_inv s" by (simp add: live_inv_def)
  have "pmfs_free_block b bt s = Some s'"
    using raw_pmfs_free_block_hint[OF inv step_free(2), of b bt] step_free(3) by simp
  moreover have "block_run bt b \<subseteq> used_blocks s"
    using step_free(1,4) live_ok_sub[of "used_blocks s" "\<lambda>(bt, b). block_run bt b" live "(bt, b)"]
    by (simp add: live_inv_def)
  ultimately show ?case using free_count_free[OF inv] by simp
qed (use free_count_alloc in \<open>simp_all only: live_inv_def fst_conv\<close>)

lemma balloc_steps_count:
  assumes "balloc_step\<^sup>*\<^sup>* c c'" "live_inv c"
  shows "num_free_blocks (sbi (fst c')) + of_nat (card (used_blocks (fst c')))
    = num_free_blocks (sbi (fst c)) + of_nat (card (used_blocks (fst c)))"
  using assms
proof (induction rule: rtranclp_induct)
  case (step c' c'')
  then show ?case using balloc_step_count balloc_steps_live_inv by simp
qed simp

section \<open>Examples\<close>

text \<open>A device of 2048 blocks with two runs in use.\<close>

definition ex_balloc :: fs where
  "ex_balloc = blank_fs\<lparr>sbi := blank_sbi\<lparr>
     block_inuse_head := [\<lparr>block_low = 0, block_high = 3\<rparr>, \<lparr>block_low = 600, block_high = 700\<rparr>],
     block_end := 2048, num_free_blocks := 1943, num_blocknode_allocated := 2\<rparr>\<rparr>"

lemmas ex_balloc_simps = ex_balloc_def blank_fs_def blank_sbi_def

lemma balloc_inv_ex: "balloc_inv ex_balloc"
  by (simp add: balloc_inv_def ex_balloc_simps)

lemma kmem_fails_ex: "\<not> kmem_fails ex_balloc"
  by (simp add: kmem_fails_def ex_balloc_simps)

lemma new_block_ex_2M:
  "pmfs_new_block PMFS_BLOCK_TYPE_2M False ex_balloc = Some (Inr 1024, ex_balloc\<lparr>sbi := (sbi ex_balloc)\<lparr>
     block_inuse_head := [\<lparr>block_low = 0, block_high = 3\<rparr>, \<lparr>block_low = 600, block_high = 700\<rparr>,
       \<lparr>block_low = 1024, block_high = 1535\<rparr>],
     num_free_blocks := 1431, num_blocknode_allocated := 3\<rparr>\<rparr>)"
  by (simp add: pmfs_new_block_def ex_balloc_simps pmfs_get_numblocks_def pmfs_alloc_blocknode_def kmem_cache_alloc_def)

lemma new_block_ex_4K:
  "pmfs_new_block PMFS_BLOCK_TYPE_4K False ex_balloc = Some (Inr 4, ex_balloc\<lparr>sbi := (sbi ex_balloc)\<lparr>
     block_inuse_head := [\<lparr>block_low = 0, block_high = 4\<rparr>, \<lparr>block_low = 600, block_high = 700\<rparr>],
     num_free_blocks := 1942\<rparr>\<rparr>)"
  by (simp add: pmfs_new_block_def ex_balloc_simps pmfs_get_numblocks_def pmfs_alloc_blocknode_def kmem_cache_alloc_def)

section \<open>Properties\<close>

text \<open>C1. No double allocation: whatever sequence of allocations and frees (with any valid start
  hint) led to a state, the allocator's invariant holds there, every allocation that is still
  live consists of blocks in use, and no two of them share a block.\<close>

theorem live_allocations_disjoint:
  assumes "balloc_inv s" "balloc_step\<^sup>*\<^sup>* (s, []) (s', live)" "i < j" "j < length live"
  shows "balloc_inv s'
    \<and> (\<forall>(bt, b)\<in>set live. block_run bt b \<subseteq> used_blocks s')
    \<and> (case live ! i of (bt, b) \<Rightarrow> block_run bt b) \<inter> (case live ! j of (bt, b) \<Rightarrow> block_run bt b) = {}"
proof -
  have "live_inv (s', live)"
    using balloc_steps_live_inv[OF assms(2)] assms(1) by (simp add: live_inv_def)
  then have inv: "balloc_inv s'" and ok: "live_ok (used_blocks s') (\<lambda>(bt, b). block_run bt b) live"
    by (simp_all add: live_inv_def)
  show ?thesis
    using inv live_inv_nth_disjoint[OF ok assms(3,4)] live_ok_sub[OF ok] by fastforce
qed

theorem live_allocations_disjoint_witness:
  "\<exists>s'. balloc_step\<^sup>*\<^sup>* (ex_balloc, []) (s', [(0, 4), (1, 1024)])
     \<and> balloc_inv s' \<and> block_run 0 4 \<inter> block_run 1 1024 = {}"
proof -
  define s1 where "s1 = snd (the (pmfs_new_block 1 False ex_balloc))"
  define s2 where "s2 = snd (the (pmfs_new_block 0 False s1))"
  have 1: "pmfs_new_block 1 False ex_balloc = Some (Inr 1024, s1)"
    by (simp add: s1_def new_block_ex_2M)
  have 2: "pmfs_new_block 0 False s1 = Some (Inr 4, s2)"
    by (simp add: s2_def s1_def new_block_ex_2M)
      (simp add: pmfs_new_block_def ex_balloc_simps pmfs_get_numblocks_def)
  have st1: "balloc_step\<^sup>*\<^sup>* (ex_balloc, []) (s1, [(1, 1024)])"
    by (rule r_into_rtranclp) (rule step_new[OF 1])
  then have st2: "balloc_step\<^sup>*\<^sup>* (ex_balloc, []) (s2, [(0, 4), (1, 1024)])"
    by (rule rtranclp.rtrancl_into_rtrancl) (rule step_new[OF 2])
  have "balloc_inv s2" "block_run 0 4 \<inter> block_run 1 1024 = {}"
    using live_allocations_disjoint[OF balloc_inv_ex st2, of 0 1] by simp_all
  then show ?thesis using st2 by blast
qed



text \<open>C14. Effect of a successful \<open>pmfs_new_block\<close>: exactly the blocks of the run become used, they
  were free, aligned to their size and inside the device; the free counter drops by their
  number; with \<open>zero\<close> exactly the bytes of the run are cleared, otherwise memory is untouched.\<close>

theorem new_block_effect:
  assumes "balloc_inv s" "pmfs_new_block bt zero s = Some (Inr b, s')"
  shows "balloc_inv s' \<and> used_blocks s' = used_blocks s \<union> block_run bt b
    \<and> block_run bt b \<inter> used_blocks s = {}
    \<and> unat (pmfs_get_numblocks bt) dvd unat b
    \<and> block_run bt b \<subseteq> {unat (block_start (sbi s))..<unat (block_end (sbi s))}
    \<and> num_free_blocks (sbi s') = num_free_blocks (sbi s) - pmfs_get_numblocks bt
    \<and> mem s' = (\<lambda>a. if zero \<and> a \<in> bytes_of (block_run bt b) then 0 else mem s a)"
proof -
  note n = pmfs_new_block_Inr[OF assms]
  have f: "unat (pmfs_get_numblocks bt) dvd unat b" "block_run bt b \<inter> used_blocks s = {}"
    using n(3) by (auto simp: fits_def block_run_def used_blocks_def)
  have "block_run bt b \<subseteq> used_blocks s'" using n(2) by blast
  then have "block_run bt b \<subseteq> {unat (block_start (sbi s'))..<unat (block_end (sbi s'))}"
    using n(1) chain_used unfolding balloc_inv_def used_blocks_def by fastforce
  then show ?thesis using n(1,2,5,6) f alloc_frame_fields(1,2)[OF n(7)] by simp
qed

theorem new_block_effect_witness:
  "\<exists>s'. pmfs_new_block 1 False ex_balloc = Some (Inr 1024, s')
     \<and> used_blocks s' = used_blocks ex_balloc \<union> block_run 1 1024"
  using new_block_effect[OF balloc_inv_ex new_block_ex_2M] new_block_ex_2M by blast

text \<open>C15. Effect of \<open>pmfs_free_block\<close> on a run that is in use: it returns, keeps the invariant and
  memory, and either removes exactly that run from the used blocks and adds its size to the
  free counter, or, when a list node was needed and could not be allocated, changes neither.\<close>

theorem free_block_effect:
  assumes "balloc_inv s" "block_run bt b \<subseteq> used_blocks s"
  shows "\<exists>s'. pmfs_free_block b bt s = Some s' \<and> balloc_inv s' \<and> mem s' = mem s
    \<and> (used_blocks s' = used_blocks s - block_run bt b
         \<and> num_free_blocks (sbi s') = num_free_blocks (sbi s) + pmfs_get_numblocks bt
       \<or> kmem_fails s \<and> used_blocks s' = used_blocks s
         \<and> num_free_blocks (sbi s') = num_free_blocks (sbi s))"
proof -
  obtain s' where "pmfs_free_block b bt s = Some s'" "balloc_inv s'" "mem s' = mem s"
    "used_blocks s' = used_blocks s - block_run bt b
       \<and> num_free_blocks (sbi s') = num_free_blocks (sbi s) + pmfs_get_numblocks bt
     \<or> kmem_fails s \<and> block_inuse_head (sbi s') = block_inuse_head (sbi s)
       \<and> num_free_blocks (sbi s') = num_free_blocks (sbi s)"
    by (rule raw_pmfs_free_block_used[OF assms])
  then show ?thesis by (intro exI[of _ s'] conjI) (auto simp: used_blocks_def)
qed

theorem free_block_effect_witness:
  "\<exists>s'. pmfs_free_block 650 0 ex_balloc = Some s'
     \<and> used_blocks s' = used_blocks ex_balloc - block_run 0 650"
proof -
  have "block_run 0 650 \<subseteq> used_blocks ex_balloc"
    by (auto simp: block_run_def used_blocks_def ex_balloc_simps pmfs_get_numblocks_def)
  from free_block_effect[OF balloc_inv_ex this] show ?thesis using kmem_fails_ex by metis
qed

text \<open>C16. Allocate then free is the identity on the allocator: the list of runs and both counters
  come back to what they were, because a coalesced list is determined by the blocks in use.\<close>

theorem alloc_free_round_trip:
  assumes "balloc_inv s" "pmfs_new_block bt zero s = Some (Inr b, s1)" "\<not> kmem_fails s1"
  shows "\<exists>s2. pmfs_free_block b bt s1 = Some s2
    \<and> block_inuse_head (sbi s2) = block_inuse_head (sbi s)
    \<and> num_free_blocks (sbi s2) = num_free_blocks (sbi s)"
proof -
  note n = pmfs_new_block_Inr[OF assms(1,2)]
  obtain s2 where f: "pmfs_free_block b bt s1 = Some s2" "balloc_inv s2" "alloc_frame s1 s2"
    "used_blocks s2 = used_blocks s1 - block_run bt b
       \<and> num_free_blocks (sbi s2) = num_free_blocks (sbi s1) + pmfs_get_numblocks bt
     \<or> kmem_fails s1 \<and> block_inuse_head (sbi s2) = block_inuse_head (sbi s1)
       \<and> num_free_blocks (sbi s2) = num_free_blocks (sbi s1)"
    by (rule raw_pmfs_free_block_used[OF n(1), of bt b]) (use n(2) in auto)
  have disj: "block_run bt b \<inter> used_blocks s = {}"
    using fits_free[OF n(3)] by (simp add: block_run_def used_blocks_def)
  have u: "used_blocks s2 = used_blocks s" using f(4) assms(3) n(2) disj by auto
  have "block_inuse_head (sbi s2) = block_inuse_head (sbi s)"
    by (rule chain_unique[where l = "unat (block_start (sbi s))" and l' = "unat (block_start (sbi s))"
          and e = "unat (block_end (sbi s))"])
      (use f(2) assms(1) u alloc_frame_fields(1,2)[OF f(3)] alloc_frame_fields(1,2)[OF n(7)] in
        \<open>simp_all add: balloc_inv_def used_blocks_def\<close>)
  then show ?thesis using f n(5) assms(3) by auto
qed

theorem alloc_free_round_trip_witness:
  "\<exists>s1 s2. pmfs_new_block 1 False ex_balloc = Some (Inr 1024, s1) \<and> pmfs_free_block 1024 1 s1 = Some s2
     \<and> block_inuse_head (sbi s2) = block_inuse_head (sbi ex_balloc)"
proof -
  define s1 where "s1 = snd (the (pmfs_new_block 1 False ex_balloc))"
  have 1: "pmfs_new_block 1 False ex_balloc = Some (Inr 1024, s1)"
    by (simp add: s1_def new_block_ex_2M)
  have "\<not> kmem_fails s1"
    by (simp add: s1_def new_block_ex_2M) (simp add: kmem_fails_def ex_balloc_simps)
  then show ?thesis using alloc_free_round_trip[OF balloc_inv_ex 1] 1 by blast
qed

text \<open>C31. The start hint of \<open>__pmfs_free_block\<close> is only an optimisation: with a hint that names any
  node of the list the call has the same effect as the search from the head.\<close>

theorem free_hint_equivalent:
  assumes "balloc_inv s" "hint_valid hint s"
  shows "map_option snd (raw_pmfs_free_block b bt hint s) = pmfs_free_block b bt s"
  by (rule raw_pmfs_free_block_hint[OF assms])

theorem free_hint_equivalent_witness:
  "map_option snd (raw_pmfs_free_block 650 0 (Some 1) ex_balloc) = pmfs_free_block 650 0 ex_balloc"
  by (rule free_hint_equivalent[OF balloc_inv_ex]) (simp add: hint_valid_def ex_balloc_simps)

text \<open>C17. Accounting: along every interleaving of allocations and frees, the free counter plus the
  number of blocks in use never changes (as 64-bit numbers), even on the paths that fail.\<close>

theorem free_count_conserved:
  assumes "balloc_step\<^sup>*\<^sup>* (s, []) (s', live)" "balloc_inv s"
  shows "num_free_blocks (sbi s') + of_nat (card (used_blocks s'))
    = num_free_blocks (sbi s) + of_nat (card (used_blocks s))"
  using balloc_steps_count[OF assms(1)] assms(2) by (simp add: live_inv_def)

theorem free_count_conserved_witness:
  "\<exists>s'. balloc_step\<^sup>*\<^sup>* (ex_balloc, []) (s', [(1, 1024)])
     \<and> num_free_blocks (sbi s') + of_nat (card (used_blocks s')) = 1943 + of_nat (card (used_blocks ex_balloc))"
proof -
  define s1 where "s1 = snd (the (pmfs_new_block 1 False ex_balloc))"
  have 1: "pmfs_new_block 1 False ex_balloc = Some (Inr 1024, s1)"
    by (simp add: s1_def new_block_ex_2M)
  have st1: "balloc_step\<^sup>*\<^sup>* (ex_balloc, []) (s1, [(1, 1024)])"
    by (rule r_into_rtranclp) (rule step_new[OF 1])
  then show ?thesis
    using free_count_conserved[OF st1 balloc_inv_ex] by (intro exI[of _ s1]) (simp add: ex_balloc_def)
qed

end
