(* ===== verification/Journal.thy ===== *)
theory Journal
  imports Balloc
begin

text \<open>
  The journal of \<open>journal.c\<close>: a circular log of 64-byte entries between \<open>head\<close> and \<open>tail\<close>, each
  valid when its generation id is the one expected at its place. Transactions reserve entries
  (\<open>pmfs_new_transaction\<close>), the cleaner and the recovery walk the log. The walks are loops that
  end only on well-formed offsets, so they are partial functions here and that they return is
  proved. The body of \<open>pmfs_add_logentry\<close> that follows its unconditional \<open>return -EINVAL\<close> is
  translated as \<open>add_logentry_body\<close>; it says what the log would hold if it were reached, and
  \<open>undo_restores\<close> is proved about it.
\<close>

section \<open>Offsets and generation ids\<close>

abbreviation (input) LOGENTRY_SIZE :: nat where "LOGENTRY_SIZE \<equiv> 64"
abbreviation (input) LE_START :: u8 where "LE_START \<equiv> 1"
abbreviation (input) LE_COMMIT :: u8 where "LE_COMMIT \<equiv> 2"
abbreviation (input) LE_ABORT :: u8 where "LE_ABORT \<equiv> 4"
abbreviation (input) MAX_GEN_ID :: u16 where "MAX_GEN_ID \<equiv> 0xFFFF"

definition next_log_entry :: "u32 \<Rightarrow> u32 \<Rightarrow> u32" where
  "next_log_entry jsz le_off = (let off = le_off + 64 in if off \<ge> jsz then 0 else off)"

definition prev_log_entry :: "u32 \<Rightarrow> u32 \<Rightarrow> u32" where
  "prev_log_entry jsz le_off = (if le_off = 0 then jsz else le_off) - 64"

definition next_gen_id :: "u16 \<Rightarrow> u16" where
  "next_gen_id gen_id = (let g = gen_id + 1 in if g = 0 then g + 1 else g)"

definition prev_gen_id :: "u16 \<Rightarrow> u16" where
  "prev_gen_id gen_id = (let g = gen_id - 1 in if g = 0 then g - 1 else g)"

section \<open>Transactions\<close>

text \<open>\<open>pmfs_transaction_t\<close>. \<open>t_parent\<close> is the stack of enclosing transactions of the task.\<close>

record pmfs_transaction =
  transaction_id :: u32
  num_entries :: u16
  num_used :: u16
  t_gen_id :: u16
  start_addr :: nat
  t_parent :: "u32 list"

definition pmfs_undo_logentry :: "nat \<Rightarrow> fs \<Rightarrow> fs option" where
  "pmfs_undo_logentry le s =
     (let e = rd_logentry (mem s) le
      in if le_size e > 0 then
           let data = pmfs_get_block s (le_addr_offset e)
           in if data = 0 then None else Some (upd_mem (memcpy data (le + 16) (unat (le_size e))) s)
         else Some s)"

text \<open>The loop runs from entry \<open>n - 1\<close> down to the first.\<close>

fun undo_loop :: "u16 \<Rightarrow> nat \<Rightarrow> nat \<Rightarrow> fs \<Rightarrow> fs option" where
  "undo_loop gen start 0 s = Some s"
| "undo_loop gen start (Suc i) s =
     (let le = start + LOGENTRY_SIZE * i
      in do {
           s' \<leftarrow> (if gen = le_gen_id (rd_logentry (mem s) le) then pmfs_undo_logentry le s else Some s);
           undo_loop gen start i s'
         })"

definition pmfs_undo_transaction :: "pmfs_transaction \<Rightarrow> fs \<Rightarrow> fs option" where
  "pmfs_undo_transaction tr s = undo_loop (t_gen_id tr) (start_addr tr) (unat (num_used tr)) s"

fun flush_loop :: "nat \<Rightarrow> nat \<Rightarrow> fs \<Rightarrow> fs option" where
  "flush_loop 0 le s = Some s"
| "flush_loop (Suc n) le s =
     (let e = rd_logentry (mem s) le;
          data = pmfs_get_block s (le_addr_offset e)
      in if le_size e \<noteq> 0 then
           if data = 0 then None
           else flush_loop n (le + LOGENTRY_SIZE)
             (if redo_log (sbi s) then upd_mem (memcpy data (le + 16) (unat (le_size e))) s else s)
         else flush_loop n (le + LOGENTRY_SIZE) s)"

definition pmfs_flush_transaction :: "pmfs_transaction \<Rightarrow> fs \<Rightarrow> fs option" where
  "pmfs_flush_transaction tr s = flush_loop (unat (num_used tr)) (start_addr tr) s"

definition invalidate_gen_id :: "nat \<Rightarrow> fs \<Rightarrow> fs" where
  "invalidate_gen_id le s = upd_mem (wr16 (le + 12) 0) s"

fun invalidate_loop :: "nat \<Rightarrow> nat \<Rightarrow> fs \<Rightarrow> fs" where
  "invalidate_loop 0 le s = s"
| "invalidate_loop (Suc n) le s = invalidate_loop n (le + LOGENTRY_SIZE) (invalidate_gen_id le s)"

definition pmfs_invalidate_logentries :: "pmfs_transaction \<Rightarrow> fs \<Rightarrow> fs" where
  "pmfs_invalidate_logentries tr s = invalidate_loop (unat (num_entries tr)) (start_addr tr) s"

fun redo_loop :: "u16 \<Rightarrow> bool \<Rightarrow> nat \<Rightarrow> nat \<Rightarrow> fs \<Rightarrow> fs option" where
  "redo_loop gen recover 0 le s = Some s"
| "redo_loop gen recover (Suc n) le s =
     (let e = rd_logentry (mem s) le;
          data = pmfs_get_block s (le_addr_offset e)
      in if gen = le_gen_id e \<and> le_size e > 0 then
           if data = 0 then None
           else redo_loop gen recover n (le + LOGENTRY_SIZE)
             (if recover then upd_mem (memcpy data (le + 16) (unat (le_size e))) s else s)
         else redo_loop gen recover n (le + LOGENTRY_SIZE) s)"

definition pmfs_redo_transaction :: "pmfs_transaction \<Rightarrow> bool \<Rightarrow> fs \<Rightarrow> fs option" where
  "pmfs_redo_transaction tr recover s =
     redo_loop (t_gen_id tr) recover (unat (num_entries tr)) (start_addr tr) s"

section \<open>Walking the log\<close>

definition commit_or_abort :: "pmfs_logentry \<Rightarrow> bool" where
  "commit_or_abort e \<longleftrightarrow> le_type e AND LE_COMMIT \<noteq> 0 \<or> le_type e AND LE_ABORT \<noteq> 0"

text \<open>
  The loop of \<open>pmfs_recover_transaction\<close>, backwards over the entries of one transaction. Its
  result is \<open>tail\<close>, the last entry looked at, the number of entries, and whether a commit or
  abort record and the start record were found.
\<close>

partial_function (option) recover_loop ::
  "mem \<Rightarrow> u32 \<Rightarrow> u32 \<Rightarrow> u16 \<Rightarrow> u32 \<Rightarrow> u32 \<Rightarrow> nat \<Rightarrow> u16 \<Rightarrow> bool
     \<Rightarrow> (u32 \<times> nat \<times> u16 \<times> bool \<times> bool) option" where
  "recover_loop m jsz head gen tid tail le n cmt =
     (let n' = n + 1;
          e = rd_logentry m le;
          cmt' = (cmt \<or> gen = le_gen_id e \<and> commit_or_abort e)
      in if gen = le_gen_id e \<and> le_type e AND LE_START \<noteq> 0 then Some (tail, le, n', cmt', True)
         else if tail = 0 \<or> tail = head then Some (tail, le, n', cmt', False)
         else let le' = le - LOGENTRY_SIZE;
                  e' = rd_logentry m le'
              in if gen = le_gen_id e' \<and> commit_or_abort e' then
                   if tid = le_transaction_id e' then None
                   else Some (tail, le, n', cmt', False)
                 else recover_loop m jsz head gen tid (prev_log_entry jsz tail) le' n' cmt')"

definition pmfs_recover_transaction :: "u32 \<Rightarrow> u32 \<Rightarrow> nat \<Rightarrow> fs \<Rightarrow> (u32 \<times> fs) option" where
  "pmfs_recover_transaction head tail le s =
     (let e = rd_logentry (mem s) le; gen = le_gen_id e
      in do {
           (tail', le', n, cmt_or_abrt_found, start_found) \<leftarrow>
             recover_loop (mem s) (jsize (sbi s)) head gen (le_transaction_id e) tail le 0 False;
           let tr = \<lparr>transaction_id = le_transaction_id e, num_entries = n, num_used = n,
                         t_gen_id = gen, start_addr = le', t_parent = []\<rparr>;
           s1 \<leftarrow> (if start_found \<and> \<not> cmt_or_abrt_found then pmfs_undo_transaction tr s else Some s);
           Some (tail', if gen = MAX_GEN_ID then pmfs_invalidate_logentries tr s1 else s1)
         })"

text \<open>
  The loop of \<open>pmfs_process_transaction\<close>, forwards over the entries of one transaction: whether
  it ended at a commit or abort record, the offset after it, the last entry, and the counts.
\<close>

partial_function (option) process_loop ::
  "mem \<Rightarrow> u32 \<Rightarrow> u32 \<Rightarrow> u16 \<Rightarrow> u32 \<Rightarrow> nat \<Rightarrow> u16 \<Rightarrow> u32 \<Rightarrow> (bool \<times> u32 \<times> nat \<times> u16 \<times> u32) option" where
  "process_loop m jsz tail gen new_head le n handled =
     (let n' = n + 1;
          new_head' = next_log_entry jsz new_head;
          handled' = handled + 1;
          e = rd_logentry m le
      in if gen = le_gen_id e \<and> commit_or_abort e then Some (True, new_head', le, n', handled')
         else let le' = le + LOGENTRY_SIZE;
                  e' = rd_logentry m le'
              in if new_head' = tail \<or> gen = le_gen_id e' \<and> le_type e' AND LE_START \<noteq> 0
                 then Some (False, new_head', le', n', handled')
                 else process_loop m jsz tail gen new_head' le' n' handled')"

definition pmfs_process_transaction ::
  "u32 \<Rightarrow> u32 \<Rightarrow> nat \<Rightarrow> bool \<Rightarrow> fs \<Rightarrow> (u32 \<times> u32 \<times> fs) option" where
  "pmfs_process_transaction head tail le recover s =
     (let e = rd_logentry (mem s) le; gen = le_gen_id e
      in if le_type e AND LE_START = 0 then Some (next_log_entry (jsize (sbi s)) head, 0, s)
         else do {
           (cmt, new_head, le', n, handled) \<leftarrow>
             process_loop (mem s) (jsize (sbi s)) tail gen head le 0 0;
           let tr = \<lparr>transaction_id = le_transaction_id e, num_entries = n, num_used = n,
                         t_gen_id = gen, start_addr = le, t_parent = []\<rparr>;
           if cmt then do {
             s1 \<leftarrow> (if le_type (rd_logentry (mem s) le') AND LE_COMMIT \<noteq> 0 \<and> redo_log (sbi s)
                   then pmfs_redo_transaction tr recover s else Some s);
             Some (new_head, handled,
               if gen = MAX_GEN_ID then pmfs_invalidate_logentries tr s1 else s1)
           } else if recover then
             Some (new_head, handled,
               if gen = MAX_GEN_ID then pmfs_invalidate_logentries tr s else s)
           else Some (head, handled, s)
         })"

partial_function (option) clean_loop ::
  "u32 \<Rightarrow> u32 \<Rightarrow> u16 \<Rightarrow> u32 \<Rightarrow> fs \<Rightarrow> (u32 \<times> u32 \<times> fs) option" where
  "clean_loop tail head gen freed s =
     (if head = tail then Some (head, freed, s)
      else let le = journal_base_addr (sbi s) + unat head
           in if gen = le_gen_id (rd_logentry (mem s) le) then do {
                (new_head, processed, s') \<leftarrow> pmfs_process_transaction head tail le False s;
                if new_head = head then Some (head, freed + processed, s')
                else clean_loop tail new_head (if new_head = 0 then next_gen_id gen else gen)
                  (freed + processed) s'
              }
              else let new_head = next_log_entry (jsize (sbi s)) head
                   in clean_loop tail new_head (if new_head = 0 then next_gen_id gen else gen) freed
                        (if gen = MAX_GEN_ID then invalidate_gen_id le s else s))"

definition pmfs_clean_journal :: "fs \<Rightarrow> (u32 \<times> fs) option" where
  "pmfs_clean_journal s =
     (let journal = pmfs_get_journal s;
          head = j_head (rd_journal (mem s) journal);
          tail_genid = rd64 (mem s) (journal + 16);
          tail = (ucast (tail_genid AND 0xFFFFFFFF) :: u32);
          gen = (ucast (drop_bit 32 tail_genid AND 0xFFFF) :: u16)
      in do {
           (head', freed, s') \<leftarrow>
             clean_loop tail head (if tail < head then prev_gen_id gen else gen) 0 s;
           Some (freed, upd_mem (wr32 (journal + 12) head') s')
         })"

section \<open>Initialisation\<close>

text \<open>\<open>started\<close> is the outcome of \<open>kthread_run\<close> for the cleaner thread.\<close>

definition pmfs_journal_cleaner_run :: "bool \<Rightarrow> fs \<Rightarrow> (errno + unit) \<times> fs" where
  "pmfs_journal_cleaner_run started s = ((if started then Inr () else Inl EPERM), s)"

definition pmfs_journal_soft_init :: "bool \<Rightarrow> fs \<Rightarrow> (errno + unit) \<times> fs" where
  "pmfs_journal_soft_init started s =
     (let j = rd_journal (mem s) (pmfs_get_journal s)
      in pmfs_journal_cleaner_run started
           (upd_sbi (\<lambda>b. b\<lparr>next_transaction_id := 0, journal_base_addr := pmfs_get_block s (j_base j),
                            jsize := j_size j, redo_log := (j_redo_logging j \<noteq> 0)\<rparr>) s))"

definition pmfs_journal_hard_init ::
  "bool \<Rightarrow> u64 \<Rightarrow> u32 \<Rightarrow> fs \<Rightarrow> ((errno + unit) \<times> fs) option" where
  "pmfs_journal_hard_init started base sz s =
     (let j = pmfs_get_journal s;
          s1 = upd_mem (\<lambda>m. wr16 (j + 24) 0 (wr32 (j + 12) 0 (wr32 (j + 16) 0 (wr16 (j + 20) 1
                 (wr32 (j + 8) sz (wr64 j base m)))))) s;
          addr = pmfs_get_block s1 base;
          s2 = upd_sbi (\<lambda>b. b\<lparr>journal_base_addr := addr\<rparr>) s1
      in if addr = 0 then None
         else Some (pmfs_journal_soft_init started (upd_mem (memset addr 0 (unat sz)) s2)))"

section \<open>Starting and ending transactions\<close>

definition pmfs_current_transaction :: "fs \<Rightarrow> u32 option" where
  "pmfs_current_transaction s = (case journal_info s of [] \<Rightarrow> None | tid # _ \<Rightarrow> Some tid)"

definition pmfs_free_logentries :: "fs \<Rightarrow> (u32 \<times> fs) option" where
  "pmfs_free_logentries s = do { (freed, s') \<leftarrow> pmfs_clean_journal s; Some (64 * freed, s') }"

text \<open>The three attempts to free log space; the result is \<open>freed_size\<close>.\<close>

fun free_retry :: "nat \<Rightarrow> u32 \<Rightarrow> u32 \<Rightarrow> u32 \<Rightarrow> fs \<Rightarrow> (u32 \<times> fs) option" where
  "free_retry 0 avail req freed s = Some (freed, s)"
| "free_retry (Suc n) avail req freed s = do {
     (f, s') \<leftarrow> pmfs_free_logentries s;
     if avail + (freed + f) \<ge> req then Some (freed + f, s')
     else free_retry n avail req (freed + f) s' }"

text \<open>
  \<open>pmfs_new_transaction\<close> from its label \<open>again\<close> on: the generation id and the byte offset of the
  reserved entries, or \<open>EAGAIN\<close>.
\<close>

partial_function (option) new_trans_loop ::
  "u32 \<Rightarrow> u32 \<Rightarrow> u32 \<Rightarrow> fs \<Rightarrow> ((errno + u16 \<times> u64) \<times> fs) option" where
  "new_trans_loop req head tail s =
     (let journal = pmfs_get_journal s;
          gen = j_gen_id (rd_journal (mem s) journal);
          avail = (if tail \<ge> head then jsize (sbi s) - (tail - head) else head - tail) - 64
      in do {
           (freed, s') \<leftarrow> (if avail < req then free_retry 3 avail req 0 s else Some (0, s));
           if avail < req \<and> avail + freed < req then Some (Inl EAGAIN, s')
           else let base = j_base (rd_journal (mem s') journal) + ucast tail;
                    tail' = tail + req
                in if tail' \<ge> jsize (sbi s') then
                     new_trans_loop req head 0
                       (upd_mem (\<lambda>m. wr64 (journal + 16)
                          (push_bit 32 (ucast (next_gen_id (j_gen_id (rd_journal m journal))))) m) s')
                   else Some (Inr (gen, base), upd_mem (wr32 (journal + 16) tail') s')
         })"

definition pmfs_new_transaction ::
  "u32 \<Rightarrow> fs \<Rightarrow> ((errno + pmfs_transaction) \<times> fs) option" where
  "pmfs_new_transaction max_log_entries s =
     (let max = (if redo_log (sbi s) then max_log_entries else max_log_entries + 1)
      in case kmem_cache_alloc s of
           (False, s1) \<Rightarrow> Some (Inl ENOMEM, s1)
         | (True, s1) \<Rightarrow>
             let j = rd_journal (mem s1) (pmfs_get_journal s1);
                 tid = next_transaction_id (sbi s1);
                 s2 = upd_sbi (\<lambda>b. b\<lparr>next_transaction_id := tid + 1\<rparr>) s1
             in do {
                  (r, s3) \<leftarrow> new_trans_loop (push_bit 6 max) (j_head j) (j_tail j) s2;
                  case r of
                    Inl e \<Rightarrow> Some (Inl e, s3)
                  | Inr (gen, base) \<Rightarrow>
                      Some (Inr \<lparr>transaction_id = tid, num_entries = ucast max, num_used = 0,
                                 t_gen_id = gen, start_addr = pmfs_get_block s3 base,
                                 t_parent = journal_info s3\<rparr>,
                            s3\<lparr>journal_info := tid # journal_info s3\<rparr>)
                })"

definition pmfs_commit_logentry :: "pmfs_transaction \<Rightarrow> nat \<Rightarrow> fs \<Rightarrow> fs option" where
  "pmfs_commit_logentry tr le s =
     (let mark = upd_mem (\<lambda>m. wr16 (le + 12) (t_gen_id tr)
                   (wr8 (le + 14) (le_type (rd_logentry m le) OR LE_COMMIT) m))
      in if redo_log (sbi s) then pmfs_flush_transaction tr (mark s)
         else do { s' \<leftarrow> pmfs_flush_transaction tr s; Some (mark s') })"

definition pmfs_add_logentry ::
  "pmfs_transaction option \<Rightarrow> nat \<Rightarrow> u16 \<Rightarrow> u8 \<Rightarrow> fs \<Rightarrow> (errno + unit) \<times> fs" where
  "pmfs_add_logentry tr addr sz type s = (Inl EINVAL, s)"

text \<open>The unreachable rest of \<open>pmfs_add_logentry\<close>: one entry per 48 bytes.\<close>

definition write_logentry ::
  "pmfs_transaction \<Rightarrow> nat \<Rightarrow> nat \<Rightarrow> u64 \<Rightarrow> u8 \<Rightarrow> u8 \<Rightarrow> mem \<Rightarrow> mem" where
  "write_logentry tr le addr le_start sz type m =
     wr8 (le + 14) type
       (memcpy (le + 16) addr (unat sz)
         (wr8 (le + 15) sz (wr32 (le + 8) (transaction_id tr) (wr64 le le_start m))))"

fun add_logentry_loop ::
  "nat \<Rightarrow> nat \<Rightarrow> u8 \<Rightarrow> nat \<Rightarrow> nat \<Rightarrow> u64 \<Rightarrow> u16 \<Rightarrow> pmfs_transaction \<Rightarrow> fs
     \<Rightarrow> (pmfs_transaction \<times> fs) option" where
  "add_logentry_loop i 0 type le addr le_start sz tr s = Some (tr, s)"
| "add_logentry_loop i (Suc r) type le addr le_start sz tr s =
     (let le_size = (if r = 0 then ucast sz else 48) :: u8;
          type' = (if i = 0 \<and> num_used tr = 0 then type OR LE_START else type);
          s1 = upd_mem (write_logentry tr le addr le_start le_size type') s;
          tr' = tr\<lparr>num_used := num_used tr + 1\<rparr>
      in if r = 0 \<and> type AND LE_COMMIT \<noteq> 0 then do {
           s2 \<leftarrow> pmfs_commit_logentry tr' le s1;
           Some (tr', s2)
         }
         else add_logentry_loop (Suc i) r type (le + LOGENTRY_SIZE) (addr + unat le_size)
                (le_start + ucast le_size) (sz - ucast le_size) tr'
                (upd_mem (wr16 (le + 12) (t_gen_id tr)) s1))"

definition add_logentry_body ::
  "pmfs_transaction \<Rightarrow> nat \<Rightarrow> u16 \<Rightarrow> u8 \<Rightarrow> fs \<Rightarrow> ((errno + pmfs_transaction) \<times> fs) option" where
  "add_logentry_body tr addr sz type s =
     (let le_start = (if sz \<noteq> 0 then of_nat addr else 0);
          le = start_addr tr + LOGENTRY_SIZE * unat (num_used tr);
          num_les = (if sz = 0 then if type AND LE_COMMIT \<noteq> 0 \<or> type AND LE_ABORT \<noteq> 0 then 1 else 0
                     else (unat sz + 47) div 48)
      in if unat (num_used tr) + num_les > unat (num_entries tr) then Some (Inl ENOMEM, s)
         else do {
           (tr', s') \<leftarrow> add_logentry_loop 0 num_les type le addr le_start sz tr s;
           Some (Inr tr', s')
         })"

definition pmfs_commit_transaction :: "pmfs_transaction option \<Rightarrow> fs \<Rightarrow> fs" where
  "pmfs_commit_transaction tr s =
     (case tr of
        None \<Rightarrow> s
      | Some t \<Rightarrow> let s' = snd (pmfs_add_logentry tr 0 0 LE_COMMIT s) in s'\<lparr>journal_info := t_parent t\<rparr>)"

definition pmfs_abort_transaction :: "pmfs_transaction option \<Rightarrow> fs \<Rightarrow> fs option" where
  "pmfs_abort_transaction tr s =
     (case tr of
        None \<Rightarrow> Some s
      | Some t \<Rightarrow> do {
          s1 \<leftarrow> (if redo_log (sbi s) then Some s else pmfs_undo_transaction t s);
          let s2 = snd (pmfs_add_logentry tr 0 0 LE_ABORT s1);
          Some (s2\<lparr>journal_info := t_parent t\<rparr>)
        })"

section \<open>Recovery\<close>

text \<open>The loop invalidates one entry per 64 bytes from \<open>jtail\<close> up to \<open>jsize\<close>.\<close>

function invalidate_remaining_journal :: "nat \<Rightarrow> nat \<Rightarrow> nat \<Rightarrow> fs \<Rightarrow> fs" where
  "invalidate_remaining_journal le jtail jsz s =
     (if jtail < jsz
      then invalidate_remaining_journal (le + LOGENTRY_SIZE) (jtail + LOGENTRY_SIZE) jsz
             (invalidate_gen_id le s)
      else s)"
  by auto
termination by (relation "measure (\<lambda>(_, jtail, jsz, _). jsz - jtail)") auto

definition pmfs_forward_journal :: "fs \<Rightarrow> fs" where
  "pmfs_forward_journal s =
     (let journal = pmfs_get_journal s;
          j = rd_journal (mem s) journal;
          gen = j_gen_id j;
          s1 = (if gen = MAX_GEN_ID
                then invalidate_remaining_journal (journal_base_addr (sbi s) + unat (j_tail j))
                       (unat (j_tail j)) (unat (jsize (sbi s))) s
                else s)
      in upd_mem (\<lambda>m. let m' = wr16 (journal + 20) (next_gen_id gen) m
                      in wr32 (journal + 12) (rd32 m' (journal + 16)) m') s1)"

partial_function (option) recover_undo_loop :: "u32 \<Rightarrow> u32 \<Rightarrow> u16 \<Rightarrow> fs \<Rightarrow> fs option" where
  "recover_undo_loop head tail gen s =
     (if head = tail then Some s
      else let gen' = (if tail = 0 then prev_gen_id gen else gen);
               tail' = prev_log_entry (jsize (sbi s)) tail;
               le = journal_base_addr (sbi s) + unat tail'
           in if gen' = le_gen_id (rd_logentry (mem s) le) then do {
                (tail'', s') \<leftarrow> pmfs_recover_transaction head tail' le s;
                recover_undo_loop head tail'' gen' s'
              }
              else recover_undo_loop head tail' gen'
                     (if gen' = MAX_GEN_ID then invalidate_gen_id le s else s))"

definition pmfs_recover_undo_journal :: "fs \<Rightarrow> fs option" where
  "pmfs_recover_undo_journal s =
     (let j = rd_journal (mem s) (pmfs_get_journal s)
      in map_option pmfs_forward_journal (recover_undo_loop (j_head j) (j_tail j) (j_gen_id j) s))"

partial_function (option) recover_redo_loop :: "u32 \<Rightarrow> u32 \<Rightarrow> u16 \<Rightarrow> fs \<Rightarrow> fs option" where
  "recover_redo_loop head tail gen s =
     (if head = tail then Some s
      else let le = journal_base_addr (sbi s) + unat head
           in if gen = le_gen_id (rd_logentry (mem s) le) then do {
                (head', processed, s') \<leftarrow> pmfs_process_transaction head tail le True s;
                recover_redo_loop head' tail (if head' = 0 then next_gen_id gen else gen) s'
              }
              else let head' = next_log_entry (jsize (sbi s)) head
                   in recover_redo_loop head' tail (if head' = 0 then next_gen_id gen else gen)
                        (if gen = MAX_GEN_ID then invalidate_gen_id le s else s))"

definition pmfs_recover_redo_journal :: "fs \<Rightarrow> fs option" where
  "pmfs_recover_redo_journal s =
     (let j = rd_journal (mem s) (pmfs_get_journal s);
          gen = (if j_tail j < j_head j then prev_gen_id (j_gen_id j) else j_gen_id j)
      in map_option pmfs_forward_journal (recover_redo_loop (j_head j) (j_tail j) gen s))"

definition pmfs_recover_journal :: "fs \<Rightarrow> fs option" where
  "pmfs_recover_journal s =
     (let j = rd_journal (mem s) (pmfs_get_journal s)
      in if j_head j = j_tail j then Some s
         else if redo_log (sbi s) then pmfs_recover_redo_journal s
         else pmfs_recover_undo_journal s)"

declare invalidate_remaining_journal.simps [simp del]

section \<open>The circle of log positions\<close>

text \<open>\<open>log_pos jsz off\<close>: an aligned offset inside a log of \<open>jsz\<close> bytes.\<close>

definition log_pos :: "u32 \<Rightarrow> u32 \<Rightarrow> bool" where
  "log_pos jsz off \<longleftrightarrow> 64 dvd unat jsz \<and> 64 dvd unat off \<and> off < jsz"

text \<open>How many entries lie between \<open>head\<close> and \<open>tail\<close>.\<close>

definition log_dist :: "u32 \<Rightarrow> u32 \<Rightarrow> u32 \<Rightarrow> nat" where
  "log_dist jsz head tail =
     (if head \<le> tail then unat tail - unat head else unat tail + unat jsz - unat head) div 64"

lemma log_posE:
  assumes "log_pos jsz off"
  obtains J k where "unat jsz = 64 * J" "unat off = 64 * k" "k < J" "64 * J < 2 ^ 32"
proof -
  obtain J k where "unat jsz = 64 * J" "unat off = 64 * k"
    using assms by (auto simp: log_pos_def elim!: dvdE)
  moreover from this have "k < J" using assms by (simp add: log_pos_def word_less_nat_alt)
  moreover have "unat jsz < 2 ^ 32" using unat_less_size[of jsz] by simp
  ultimately show ?thesis using that by simp
qed

lemma unat_next_log_entry:
  assumes "log_pos jsz off"
  shows "unat (next_log_entry jsz off) = (if unat off + 64 = unat jsz then 0 else unat off + 64)"
proof -
  obtain J k where J: "unat jsz = 64 * J" "unat off = 64 * k" "k < J" "64 * J < 2 ^ 32"
    by (rule log_posE[OF assms])
  have le: "64 * k + 64 \<le> 64 * J" using J(3) by simp
  show ?thesis
  proof (cases "64 * k + 64 = 64 * J")
    case True
    have "off + 64 = jsz \<or> off + 64 = 0"
      using J True by (simp add: word_unat_eq_iff unat_plus_if')
    then show ?thesis
      using J True by (auto simp: next_log_entry_def)
  next
    case False
    then have "unat (off + 64) = 64 * k + 64" using J le by (subst unat_plus_fits) auto
    then show ?thesis using J le False by (simp add: next_log_entry_def word_le_nat_alt Let_def)
  qed
qed

lemma unat_prev_log_entry:
  assumes "log_pos jsz off"
  shows "unat (prev_log_entry jsz off) = (if off = 0 then unat jsz - 64 else unat off - 64)"
proof -
  obtain J k where J: "unat jsz = 64 * J" "unat off = 64 * k" "k < J"
    by (rule log_posE[OF assms])
  have "off \<noteq> 0 \<Longrightarrow> 0 < k" using J(2) by (cases k) (auto simp: word_unat_eq_iff)
  then show ?thesis
    using J by (auto simp: prev_log_entry_def word_le_nat_alt unat_minus_fits)
qed

lemma log_pos_next: "log_pos jsz off \<Longrightarrow> log_pos jsz (next_log_entry jsz off)"
proof -
  assume p: "log_pos jsz off"
  obtain J k where J: "unat jsz = 64 * J" "unat off = 64 * k" "k < J"
    by (rule log_posE[OF p])
  then show ?thesis
    using unat_next_log_entry[OF p] by (auto simp: log_pos_def word_less_nat_alt)
qed

lemma log_pos_prev: "log_pos jsz off \<Longrightarrow> log_pos jsz (prev_log_entry jsz off)"
proof -
  assume p: "log_pos jsz off"
  obtain J k where J: "unat jsz = 64 * J" "unat off = 64 * k" "k < J"
    by (rule log_posE[OF p])
  then have "unat jsz - 64 = 64 * (J - 1)" "unat off - 64 = 64 * (k - 1)" by auto
  then show ?thesis
    using J unat_prev_log_entry[OF p] by (auto simp: log_pos_def word_less_nat_alt)
qed

lemma prev_next_log_entry: "log_pos jsz off \<Longrightarrow> prev_log_entry jsz (next_log_entry jsz off) = off"
proof -
  assume p: "log_pos jsz off"
  obtain J k where J: "unat jsz = 64 * J" "unat off = 64 * k" "k < J"
    by (rule log_posE[OF p])
  show ?thesis
    using J unat_next_log_entry[OF p] unat_prev_log_entry[OF log_pos_next[OF p]]
    by (auto simp: word_unat_eq_iff split: if_splits)
qed

lemma next_prev_log_entry: "log_pos jsz off \<Longrightarrow> next_log_entry jsz (prev_log_entry jsz off) = off"
proof -
  assume p: "log_pos jsz off"
  obtain J k where J: "unat jsz = 64 * J" "unat off = 64 * k" "k < J"
    by (rule log_posE[OF p])
  have k: "off \<noteq> 0 \<Longrightarrow> 0 < k" using J(2) by (cases k) (auto simp: word_unat_eq_iff)
  show ?thesis
    using J k unat_prev_log_entry[OF p] unat_next_log_entry[OF log_pos_prev[OF p]]
    by (auto simp: word_unat_eq_iff split: if_splits)
qed

lemma next_gen_id_nonzero [simp]: "next_gen_id g \<noteq> 0"
  by (simp add: next_gen_id_def Let_def)

lemma prev_gen_id_nonzero [simp]: "prev_gen_id g \<noteq> 0"
  by (simp add: prev_gen_id_def Let_def)

lemma gen_id_inverse: "g \<noteq> 0 \<Longrightarrow> prev_gen_id (next_gen_id g) = g" "g \<noteq> 0 \<Longrightarrow> next_gen_id (prev_gen_id g) = g"
  by (auto simp: next_gen_id_def prev_gen_id_def Let_def add_eq_0_iff2)

text \<open>Walking towards the other end brings it one entry closer.\<close>

lemma log_dist_0: "log_pos jsz h \<Longrightarrow> log_pos jsz t \<Longrightarrow> log_dist jsz h t = 0 \<longleftrightarrow> h = t"
proof -
  assume p: "log_pos jsz h" "log_pos jsz t"
  obtain J k where J: "unat jsz = 64 * J" "unat h = 64 * k" "k < J" by (rule log_posE[OF p(1)])
  obtain l where l: "unat t = 64 * l" "l < J" using J(1) log_posE[OF p(2)] by (metis mult_cancel_left zero_neq_numeral)
  show ?thesis using J l by (auto simp: log_dist_def word_le_nat_alt word_unat_eq_iff)
qed

lemma log_dist_prev:
  assumes p: "log_pos jsz h" "log_pos jsz t" "h \<noteq> t"
  shows "log_dist jsz h t = Suc (log_dist jsz h (prev_log_entry jsz t))"
proof -
  obtain J k where J: "unat jsz = 64 * J" "unat h = 64 * k" "k < J" by (rule log_posE[OF p(1)])
  obtain l where l: "unat t = 64 * l" "l < J" using J(1) log_posE[OF p(2)] by (metis mult_cancel_left zero_neq_numeral)
  have ne: "k \<noteq> l" using p(3) J l by (auto simp: word_unat_eq_iff)
  have z: "t = 0 \<longleftrightarrow> l = 0" using l by (auto simp: word_unat_eq_iff)
  have pr: "unat (prev_log_entry jsz t) = 64 * (if l = 0 then J - 1 else l - 1)"
    using unat_prev_log_entry[OF p(2)] J l z by auto
  show ?thesis
    using J l ne z by (auto simp: log_dist_def word_le_nat_alt pr)
qed

lemma log_dist_next:
  assumes p: "log_pos jsz h" "log_pos jsz t" "h \<noteq> t"
  shows "log_dist jsz h t = Suc (log_dist jsz (next_log_entry jsz h) t)"
proof -
  obtain J k where J: "unat jsz = 64 * J" "unat h = 64 * k" "k < J" by (rule log_posE[OF p(1)])
  obtain l where l: "unat t = 64 * l" "l < J" using J(1) log_posE[OF p(2)] by (metis mult_cancel_left zero_neq_numeral)
  have ne: "k \<noteq> l" using p(3) J l by (auto simp: word_unat_eq_iff)
  have pr: "unat (next_log_entry jsz h) = 64 * (if Suc k = J then 0 else Suc k)"
    using unat_next_log_entry[OF p(1)] J by auto
  show ?thesis
    using J l ne by (auto simp: log_dist_def word_le_nat_alt pr)
qed

section \<open>Undo logging\<close>

text \<open>The abstract undo log: the old contents of ranges, put back from the last to the first.\<close>

fun undo_all :: "(nat \<times> u8 list) list \<Rightarrow> mem \<Rightarrow> mem" where
  "undo_all [] m = m"
| "undo_all ((a, bs) # rs) m = memput a bs (undo_all rs m)"

definition covers :: "(nat \<times> u8 list) list \<Rightarrow> nat \<Rightarrow> bool" where
  "covers rs x \<longleftrightarrow> (\<exists>(a, bs)\<in>set rs. a \<le> x \<and> x < a + length bs)"

lemma covers_simps [simp]:
  "\<not> covers [] x"
  "covers ((a, bs) # rs) x \<longleftrightarrow> a \<le> x \<and> x < a + length bs \<or> covers rs x"
  by (auto simp: covers_def)

lemma undo_all_append: "undo_all (rs @ qs) m = undo_all rs (undo_all qs m)"
  by (induction rs) auto

lemma undo_all_covered:
  "covers rs x \<or> m x = m' x \<Longrightarrow> undo_all rs m x = undo_all rs m' x"
  by (induction rs) (auto simp: memput_def)

text \<open>The record in a log entry.\<close>

definition rec_of :: "mem \<Rightarrow> nat \<Rightarrow> nat \<times> u8 list" where
  "rec_of m le = (unat (le_addr_offset (rd_logentry m le)), bytes_at m (le + 16) (unat (le_size (rd_logentry m le))))"

definition recs_of :: "mem \<Rightarrow> nat \<Rightarrow> nat \<Rightarrow> (nat \<times> u8 list) list" where
  "recs_of m start n = map (\<lambda>i. rec_of m (start + 64 * i)) [0..<n]"

definition entry_ok :: "u16 \<Rightarrow> nat \<Rightarrow> nat \<Rightarrow> mem \<Rightarrow> nat \<Rightarrow> bool" where
  "entry_ok gen start n m le \<longleftrightarrow>
     (let e = rd_logentry m le; a = unat (le_addr_offset e); sz = unat (le_size e)
      in gen = le_gen_id e \<and> 0 < sz \<and> sz \<le> 48 \<and> 0 < a \<and> (a + sz \<le> start \<or> start + 64 * n \<le> a))"

lemma rd_logentry_cong:
  "(\<And>x. le \<le> x \<Longrightarrow> x < le + 64 \<Longrightarrow> m x = m' x) \<Longrightarrow> rd_logentry m le = rd_logentry m' le"
  unfolding rd_logentry_def by (auto intro!: rdw_cong bytes_at_cong)

lemma rec_of_cong:
  assumes eq: "\<And>x. le \<le> x \<Longrightarrow> x < le + 64 \<Longrightarrow> m x = m' x" and sz: "unat (le_size (rd_logentry m le)) \<le> 48"
  shows "rec_of m le = rec_of m' le"
proof -
  have "rd_logentry m le = rd_logentry m' le" by (rule rd_logentry_cong[OF eq])
  then show ?thesis
    using sz unfolding rec_of_def by (auto intro!: bytes_at_cong eq)
qed

lemma recs_of_cong:
  assumes "\<And>x. start \<le> x \<Longrightarrow> x < start + 64 * n \<Longrightarrow> m x = m' x"
    and "\<And>i. i < n \<Longrightarrow> unat (le_size (rd_logentry m (start + 64 * i))) \<le> 48"
  shows "recs_of m start n = recs_of m' start n"
  unfolding recs_of_def
  by (rule map_cong[OF refl]) (auto intro!: rec_of_cong assms)

lemma recs_of_Suc: "recs_of m start (Suc n) = recs_of m start n @ [rec_of m (start + 64 * n)]"
  by (simp add: recs_of_def)

lemma entry_ok_cong:
  "(\<And>x. le \<le> x \<Longrightarrow> x < le + 64 \<Longrightarrow> m x = m' x) \<Longrightarrow> entry_ok g st n m le = entry_ok g st n m' le"
  using rd_logentry_cong[of le m m'] by (simp add: entry_ok_def)

text \<open>The undo loop is the abstract undo, when no record points into the log.\<close>

lemma undo_logentry_rec:
  assumes "entry_ok g st n (mem s) le"
  shows "pmfs_undo_logentry le s = Some (upd_mem (undo_all [rec_of (mem s) le]) s)"
  using assms
  by (auto simp: pmfs_undo_logentry_def entry_ok_def rec_of_def Let_def memcpy_memput word_less_nat_alt unat_eq_0)

lemma undo_loop_recs:
  assumes "\<And>i. i < n \<Longrightarrow> entry_ok g start N (mem s) (start + 64 * i)" "n \<le> N"
  shows "undo_loop g start n s = Some (upd_mem (undo_all (recs_of (mem s) start n)) s)"
  using assms
proof (induction n arbitrary: s)
  case 0
  then show ?case by (simp add: recs_of_def)
next
  case (Suc i)
  let ?le = "start + 64 * i" and ?m = "mem s"
  let ?s1 = "upd_mem (undo_all [rec_of ?m ?le]) s"
  have ok: "entry_ok g start N ?m ?le" using Suc.prems by simp
  have same: "mem ?s1 x = ?m x" if "start \<le> x" "x < start + 64 * N" for x
    using ok that by (cases "rec_of ?m ?le") (auto simp: rec_of_def entry_ok_def memput_def Let_def)
  have ok': "entry_ok g start N (mem ?s1) (start + 64 * j)" if "j < i" for j
  proof -
    have "entry_ok g start N (mem ?s1) (start + 64 * j) = entry_ok g start N ?m (start + 64 * j)"
      by (rule entry_ok_cong, rule same) (use that Suc.prems(2) in auto)
    then show ?thesis using Suc.prems(1)[of j] that by simp
  qed
  have "recs_of (mem ?s1) start i = recs_of ?m start i"
    by (rule recs_of_cong) (use same Suc.prems(2) ok' in \<open>auto simp: entry_ok_def Let_def\<close>)
  then have "undo_loop g start i ?s1 = Some (upd_mem (undo_all (recs_of ?m start i)) ?s1)"
    using Suc.IH[of ?s1] ok' Suc.prems(2) by simp
  then show ?case
    using ok undo_logentry_rec[OF ok] by (simp add: entry_ok_def Let_def recs_of_Suc undo_all_append)
qed

text \<open>The bytes of a transaction's entries in the log.\<close>

definition log_area :: "pmfs_transaction \<Rightarrow> nat set" where
  "log_area tr = {start_addr tr..<start_addr tr + 64 * unat (num_entries tr)}"

text \<open>A transaction that began in memory \<open>m0\<close>: its records undo everything done since then.\<close>

definition undo_inv :: "mem \<Rightarrow> pmfs_transaction \<Rightarrow> fs \<Rightarrow> bool" where
  "undo_inv m0 tr s \<longleftrightarrow>
     (let start = start_addr tr; n = unat (num_used tr); N = unat (num_entries tr)
      in n \<le> N
         \<and> (\<forall>i<n. entry_ok (t_gen_id tr) start N (mem s) (start + 64 * i))
         \<and> (\<forall>x. x \<notin> log_area tr \<longrightarrow> undo_all (recs_of (mem s) start n) (mem s) x = m0 x))"

text \<open>Writing one entry with the old contents of \<open>[addr, addr + sz)\<close>.\<close>

lemma write_logentry_fields:
  assumes "unat sz \<le> 48" "m' = wr16 (le + 12) g (write_logentry tr le addr st sz ty m)"
  shows "rd64 m' le = st" "rd16 m' (le + 12) = g" "rd8 m' (le + 15) = sz" "rd8 m' (le + 14) = ty"
    and "x < le \<or> le + 64 \<le> x \<Longrightarrow> m' x = m x"
  using assms(1) unfolding assms(2) write_logentry_def
  by simp_all (auto simp: wrw_apply_other memcpy_def)

lemma write_logentry_data:
  assumes "unat sz \<le> 48" "addr + unat sz \<le> le \<or> le + 64 \<le> addr"
  shows "bytes_at (wr16 (le + 12) g (write_logentry tr le addr st sz ty m)) (le + 16) (unat sz)
    = bytes_at m addr (unat sz)"
  using assms unfolding write_logentry_def
  by (intro nth_equalityI) (auto simp: wrw_apply_other memcpy_def)

lemma undo_inv_log:
  assumes inv: "undo_inv m0 tr s" and room: "num_used tr < num_entries tr"
    and sz: "0 < unat sz" "unat sz \<le> 48" and addr: "0 < addr" "addr + unat sz < 2 ^ 64"
    and disj: "{addr..<addr + unat sz} \<inter> log_area tr = {}"
  shows "undo_inv m0 (tr\<lparr>num_used := num_used tr + 1\<rparr>)
    (upd_mem (\<lambda>m. wr16 (start_addr tr + 64 * unat (num_used tr) + 12) (t_gen_id tr)
       (write_logentry tr (start_addr tr + 64 * unat (num_used tr)) addr (of_nat addr) sz ty m)) s)"
proof -
  define start n N m where "start = start_addr tr" and "n = unat (num_used tr)"
    and "N = unat (num_entries tr)" and "m = mem s"
  define le where "le = start + 64 * n"
  define m' where "m' = wr16 (le + 12) (t_gen_id tr) (write_logentry tr le addr (of_nat addr) sz ty m)"
  note w = write_logentry_fields[OF sz(2) m'_def]
  have ua: "unat (of_nat addr :: u64) = addr" using addr(2) by (simp add: unat_of_nat)
  have nN: "n < N" using room by (simp add: n_def N_def word_less_nat_alt)
  have n1: "unat (num_used tr + 1) = Suc n"
    using nN unat_less_size[of "num_entries tr"] by (subst unat_plus_fits) (auto simp: n_def N_def)
  have ok: "\<And>i. i < n \<Longrightarrow> entry_ok (t_gen_id tr) start N m (start + 64 * i)"
    and und: "\<And>x. x \<notin> log_area tr \<Longrightarrow> undo_all (recs_of m start n) m x = m0 x"
    using inv by (auto simp: undo_inv_def Let_def start_def n_def N_def m_def)
  have area: "log_area tr = {start..<start + 64 * N}" by (simp add: log_area_def start_def N_def)
  have d: "addr + unat sz \<le> start \<or> start + 64 * N \<le> addr"
  proof (rule ccontr)
    assume "\<not> ?thesis"
    then have "max addr start \<in> {addr..<addr + unat sz} \<inter> log_area tr"
      using sz(1) nN by (auto simp: area)
    then show False using disj by blast
  qed
  have dle: "addr + unat sz \<le> le \<or> le + 64 \<le> addr"
    using d nN by (auto simp: le_def)
  have before: "m' x = m x" if "start \<le> x" "x < start + 64 * n" for x
    using that w(5) by (auto simp: le_def)
  have out: "m' x = m x" if "x \<notin> log_area tr" for x
    using that w(5)[of x] nN by (auto simp: area le_def)
  have ok': "entry_ok (t_gen_id tr) start N m' (start + 64 * i)" if "i < n" for i
  proof -
    have "entry_ok (t_gen_id tr) start N m' (start + 64 * i) = entry_ok (t_gen_id tr) start N m (start + 64 * i)"
      by (rule entry_ok_cong, rule before) (use that in auto)
    then show ?thesis using ok that by simp
  qed
  have okn: "entry_ok (t_gen_id tr) start N m' le"
    using w(1-3) addr sz d by (auto simp: entry_ok_def rd_logentry_def Let_def ua)
  have recs: "recs_of m' start n = recs_of m start n"
    by (rule recs_of_cong) (use before ok' in \<open>auto simp: entry_ok_def Let_def\<close>)
  have recn: "rec_of m' le = (addr, bytes_at m addr (unat sz))"
    using w(1,3) write_logentry_data[OF sz(2) dle, of "t_gen_id tr" tr "of_nat addr" ty m, folded m'_def] addr
    by (simp add: rec_of_def rd_logentry_def ua)
  have "memput addr (bytes_at m addr (unat sz)) m' x = m x" if "x \<notin> log_area tr" for x
    using out[OF that] by (auto simp: memput_def)
  then have "undo_all (recs_of m' start (Suc n)) m' x = m0 x" if "x \<notin> log_area tr" for x
    using that undo_all_covered[of "recs_of m start n" x "memput addr (bytes_at m addr (unat sz)) m'" m] und[OF that]
    by (simp add: recs_of_Suc undo_all_append recs recn[unfolded le_def])
  moreover have "entry_ok (t_gen_id tr) start N m' (start + 64 * i)" if "i < Suc n" for i
    using that ok' okn by (auto simp: le_def less_Suc_eq)
  ultimately show ?thesis
    using nN n1 by (simp add: undo_inv_def Let_def log_area_def flip: start_def n_def N_def m_def le_def m'_def)
qed


text \<open>All the pieces of one call.\<close>

lemma undo_inv_add_loop:
  assumes "undo_inv m0 tr s" "0 < addr" "addr + unat sz < 2 ^ 64"
    and "{addr..<addr + unat sz} \<inter> log_area tr = {}"
    and "unat (num_used tr) + r \<le> unat (num_entries tr)"
    and "unat sz \<le> 48 * r" "r = 0 \<or> 48 * (r - 1) < unat sz"
    and "le = start_addr tr + 64 * unat (num_used tr)"
  shows "\<exists>tr' m'. add_logentry_loop i r 0 le addr (of_nat addr) sz tr s = Some (tr', s\<lparr>mem := m'\<rparr>)
    \<and> undo_inv m0 tr' (s\<lparr>mem := m'\<rparr>) \<and> log_area tr' = log_area tr"
  using assms
proof (induction r arbitrary: i le addr sz tr s)
  case 0
  then show ?case by (intro exI[of _ tr] exI[of _ "mem s"]) simp
next
  case (Suc r)
  define lsz :: u8 where "lsz = (if r = 0 then ucast sz else 48)"
  have lsz: "unat lsz = (if r = 0 then unat sz else 48)"
    using Suc.prems(6) by (simp add: lsz_def unat_ucast_fits)
  have le48: "0 < unat lsz" "unat lsz \<le> 48" "unat lsz \<le> unat sz"
    using Suc.prems(6,7) by (auto simp: lsz)
  let ?tr = "tr\<lparr>num_used := num_used tr + 1\<rparr>"
  define ty where "ty = (if i = 0 \<and> num_used tr = 0 then 0 OR LE_START else 0)"
  let ?s = "upd_mem (\<lambda>m. wr16 (le + 12) (t_gen_id tr) (write_logentry tr le addr (of_nat addr) lsz ty m)) s"
  have room: "num_used tr < num_entries tr"
    using Suc.prems(5) by (simp add: word_less_nat_alt)
  have "{addr..<addr + unat lsz} \<subseteq> {addr..<addr + unat sz}" using le48(3) by auto
  then have disj: "{addr..<addr + unat lsz} \<inter> log_area tr = {}" using Suc.prems(4) by blast
  have inv: "undo_inv m0 ?tr ?s"
    unfolding Suc.prems(8)
    by (rule undo_inv_log[OF Suc.prems(1) room le48(1,2) Suc.prems(2) _ disj])
      (use Suc.prems(3) le48(3) in simp)
  have n1: "unat (num_used tr + 1) = unat (num_used tr) + 1"
    using room unat_less_size[of "num_entries tr"] by (subst unat_plus_fits) (auto simp: word_less_nat_alt)
  have usz: "unat (sz - ucast lsz) = unat sz - unat lsz"
    using le48 by (subst unat_minus_fits) (auto simp: word_le_nat_alt unat_ucast_fits)
  have "\<exists>tr' m'. add_logentry_loop (Suc i) r 0 (le + 64) (addr + unat lsz) (of_nat (addr + unat lsz))
      (sz - ucast lsz) ?tr ?s = Some (tr', ?s\<lparr>mem := m'\<rparr>)
    \<and> undo_inv m0 tr' (?s\<lparr>mem := m'\<rparr>) \<and> log_area tr' = log_area ?tr"
  proof (rule Suc.IH[OF inv])
    show "{addr + unat lsz..<addr + unat lsz + unat (sz - ucast lsz)} \<inter> log_area ?tr = {}"
      using Suc.prems(4) usz le48(3) by (auto simp: log_area_def)
    show "r = 0 \<or> 48 * (r - 1) < unat (sz - ucast lsz)"
      using Suc.prems(7) usz lsz by (cases r) auto
  qed (use Suc.prems usz lsz n1 le48 in auto)
  then show ?case
    by (auto simp: Let_def log_area_def simp flip: lsz_def ty_def)
qed

text \<open>One event of a running transaction: a call that logs a range outside the log, or a store to
  a byte that has been logged.\<close>

inductive undo_step :: "pmfs_transaction \<times> fs \<Rightarrow> pmfs_transaction \<times> fs \<Rightarrow> bool" where
  undo_log: "add_logentry_body tr addr sz 0 s = Some (Inr tr', s') \<Longrightarrow> 0 < addr \<Longrightarrow>
    addr + unat sz < 2 ^ 64 \<Longrightarrow> {addr..<addr + unat sz} \<inter> log_area tr = {} \<Longrightarrow>
    undo_step (tr, s) (tr', s')"
| undo_store: "covers (recs_of (mem s) (start_addr tr) (unat (num_used tr))) a \<Longrightarrow> a \<notin> log_area tr \<Longrightarrow>
    undo_step (tr, s) (tr, s\<lparr>mem := (mem s)(a := v)\<rparr>)"

inductive_cases undo_stepE: "undo_step (tr, s) c"

lemma undo_inv_store:
  assumes inv: "undo_inv m0 tr s" and a: "a \<notin> log_area tr"
    and cov: "covers (recs_of (mem s) (start_addr tr) (unat (num_used tr))) a"
  shows "undo_inv m0 tr (s\<lparr>mem := (mem s)(a := v)\<rparr>)"
proof -
  let ?n = "unat (num_used tr)" and ?N = "unat (num_entries tr)" and ?m = "(mem s)(a := v)"
  have nN: "?n \<le> ?N" and ok: "\<And>i. i < ?n \<Longrightarrow> entry_ok (t_gen_id tr) (start_addr tr) ?N (mem s) (start_addr tr + 64 * i)"
    and und: "\<And>x. x \<notin> log_area tr \<Longrightarrow> undo_all (recs_of (mem s) (start_addr tr) ?n) (mem s) x = m0 x"
    using inv by (auto simp: undo_inv_def Let_def)
  have same: "?m x = mem s x" if "start_addr tr \<le> x" "x < start_addr tr + 64 * ?N" for x
    using a that by (auto simp: log_area_def)
  have ok': "entry_ok (t_gen_id tr) (start_addr tr) ?N ?m (start_addr tr + 64 * i)" if "i < ?n" for i
  proof -
    have "entry_ok (t_gen_id tr) (start_addr tr) ?N ?m (start_addr tr + 64 * i)
        = entry_ok (t_gen_id tr) (start_addr tr) ?N (mem s) (start_addr tr + 64 * i)"
      by (rule entry_ok_cong, rule same) (use that nN in auto)
    then show ?thesis using ok that by simp
  qed
  have "recs_of ?m (start_addr tr) ?n = recs_of (mem s) (start_addr tr) ?n"
    by (rule recs_of_cong, rule same) (use nN ok' in \<open>auto simp: entry_ok_def Let_def\<close>)
  moreover have "undo_all (recs_of (mem s) (start_addr tr) ?n) ?m x = undo_all (recs_of (mem s) (start_addr tr) ?n) (mem s) x" for x
    using cov by (intro undo_all_covered) auto
  ultimately show ?thesis
    using nN ok' und by (simp add: undo_inv_def Let_def)
qed

lemma undo_step_inv: "undo_step c c' \<Longrightarrow> undo_inv m0 (fst c) (snd c) \<Longrightarrow>
   undo_inv m0 (fst c') (snd c') \<and> log_area (fst c') = log_area (fst c)"
proof (induction rule: undo_step.induct)
  case (undo_log tr addr sz s tr' s')
  let ?r = "if sz = 0 then 0 else (unat sz + 47) div 48"
  have fit: "unat (num_used tr) + ?r \<le> unat (num_entries tr)"
    and l: "add_logentry_loop 0 ?r 0 (start_addr tr + 64 * unat (num_used tr)) addr
        (if sz = 0 then 0 else of_nat addr) sz tr s = Some (tr', s')"
    using undo_log(1) by (auto simp: add_logentry_body_def Let_def bind_eq_Some_conv split: if_splits)
  have r: "unat sz \<le> 48 * ?r" "?r = 0 \<or> 48 * (?r - 1) < unat sz"
    by (auto simp: unat_eq_0 dest: word_unat_eq_iff[THEN iffD1])
  show ?case
  proof (cases "sz = 0")
    case True
    then show ?thesis using l undo_log by simp
  next
    case False
    then show ?thesis
      using undo_inv_add_loop[OF _ undo_log(2,3,4) fit r refl, of m0 s 0] l undo_log(5) by auto
  qed
qed (auto intro: undo_inv_store)

lemma undo_steps_inv: "undo_step\<^sup>*\<^sup>* c c' \<Longrightarrow> undo_inv m0 (fst c) (snd c) \<Longrightarrow>
   undo_inv m0 (fst c') (snd c') \<and> log_area (fst c') = log_area (fst c)"
proof (induction rule: rtranclp_induct)
  case (step c' c'')
  then show ?case using undo_step_inv[OF step(2), of m0] by simp
qed simp

lemma undo_inv_start: "num_used tr = 0 \<Longrightarrow> undo_inv (mem s) tr s"
  by (simp add: undo_inv_def recs_of_def)

lemma undo_transaction_restores:
  assumes "undo_inv m0 tr s"
  obtains m' where "pmfs_undo_transaction tr s = Some (s\<lparr>mem := m'\<rparr>)" "\<And>x. x \<notin> log_area tr \<Longrightarrow> m' x = m0 x"
proof -
  have "pmfs_undo_transaction tr s =
      Some (upd_mem (undo_all (recs_of (mem s) (start_addr tr) (unat (num_used tr)))) s)"
    unfolding pmfs_undo_transaction_def
    by (rule undo_loop_recs[where N = "unat (num_entries tr)"])
      (use assms in \<open>auto simp: undo_inv_def Let_def\<close>)
  then show ?thesis using that assms by (auto simp: undo_inv_def Let_def)
qed

section \<open>Walking a log that holds no valid entry\<close>

text \<open>The journal's own fields: aligned positions inside a log whose size the mount knows.\<close>

definition journal_wf :: "fs \<Rightarrow> bool" where
  "journal_wf s \<longleftrightarrow>
     (let j = rd_journal (mem s) (pmfs_get_journal s)
      in log_pos (jsize (sbi s)) (j_head j) \<and> log_pos (jsize (sbi s)) (j_tail j) \<and> j_gen_id j \<noteq> 0
         \<and> unat (jsize (sbi s)) \<le> 2 ^ 31 \<and> 32 \<le> journal_base_addr (sbi s))"

definition log_unwritten :: "fs \<Rightarrow> bool" where
  "log_unwritten s \<longleftrightarrow>
     (\<forall>off. log_pos (jsize (sbi s)) off \<longrightarrow>
        le_gen_id (rd_logentry (mem s) (journal_base_addr (sbi s) + unat off)) = 0)"

lemma invalidate_gen_id_0:
  "le_gen_id (rd_logentry (mem s) le) = 0 \<Longrightarrow> invalidate_gen_id le s = s"
  using wrw_rdw_id[of "le + 12" "mem s", where 'a = 16]
  by (simp add: invalidate_gen_id_def rd_logentry_def)

lemma log_unwrittenD:
  "log_unwritten s \<Longrightarrow> log_pos (jsize (sbi s)) off \<Longrightarrow>
     le_gen_id (rd_logentry (mem s) (journal_base_addr (sbi s) + unat off)) = 0"
  by (simp add: log_unwritten_def)

lemma recover_undo_unwritten:
  assumes "log_unwritten s" "log_pos (jsize (sbi s)) h" "log_pos (jsize (sbi s)) t" "g \<noteq> 0"
  shows "recover_undo_loop h t g s = Some s"
  using assms(3,4)
proof (induction "log_dist (jsize (sbi s)) h t" arbitrary: t g)
  case 0
  then show ?case using log_dist_0[OF assms(2) 0(2)] by (subst recover_undo_loop.simps) simp
next
  case (Suc d)
  then have ne: "h \<noteq> t" using log_dist_0[OF assms(2) Suc(3)] by auto
  let ?t = "prev_log_entry (jsize (sbi s)) t" and ?g = "if t = 0 then prev_gen_id g else g"
  have p: "log_pos (jsize (sbi s)) ?t" by (rule log_pos_prev[OF Suc(3)])
  note z = log_unwrittenD[OF assms(1) p]
  have "recover_undo_loop h ?t ?g s = Some s"
    using Suc(1)[OF _ p, of ?g] log_dist_prev[OF assms(2) Suc(3) ne] Suc(2,4) by auto
  then show ?case
    using ne Suc(4) z invalidate_gen_id_0[OF z]
    by (subst recover_undo_loop.simps) (auto simp: Let_def)
qed

lemma recover_redo_unwritten:
  assumes "log_unwritten s" "log_pos (jsize (sbi s)) h" "log_pos (jsize (sbi s)) t" "g \<noteq> 0"
  shows "recover_redo_loop h t g s = Some s"
  using assms(2,4)
proof (induction "log_dist (jsize (sbi s)) h t" arbitrary: h g)
  case 0
  then show ?case using log_dist_0[OF 0(2) assms(3)] by (subst recover_redo_loop.simps) simp
next
  case (Suc d)
  then have ne: "h \<noteq> t" using log_dist_0[OF Suc(3) assms(3)] by auto
  let ?h = "next_log_entry (jsize (sbi s)) h"
  have p: "log_pos (jsize (sbi s)) ?h" by (rule log_pos_next[OF Suc(3)])
  note z = log_unwrittenD[OF assms(1) Suc(3)]
  have "recover_redo_loop ?h t (if ?h = 0 then next_gen_id g else g) s = Some s"
    using Suc(1)[OF _ p, of "if ?h = 0 then next_gen_id g else g"] log_dist_next[OF Suc(3) assms(3) ne] Suc(2,4) by auto
  then show ?case
    using ne Suc(4) z by (subst recover_redo_loop.simps) (simp add: Let_def invalidate_gen_id_0)
qed

lemma clean_unwritten:
  assumes "log_unwritten s" "log_pos (jsize (sbi s)) h" "log_pos (jsize (sbi s)) t" "g \<noteq> 0"
  shows "clean_loop t h g n s = Some (t, n, s)"
  using assms(2,4)
proof (induction "log_dist (jsize (sbi s)) h t" arbitrary: h g)
  case 0
  then show ?case using log_dist_0[OF 0(2) assms(3)] by (subst clean_loop.simps) simp
next
  case (Suc d)
  then have ne: "h \<noteq> t" using log_dist_0[OF Suc(3) assms(3)] by auto
  let ?h = "next_log_entry (jsize (sbi s)) h"
  have p: "log_pos (jsize (sbi s)) ?h" by (rule log_pos_next[OF Suc(3)])
  note z = log_unwrittenD[OF assms(1) Suc(3)]
  have "clean_loop t ?h (if ?h = 0 then next_gen_id g else g) n s = Some (t, n, s)"
    using Suc(1)[OF _ p, of "if ?h = 0 then next_gen_id g else g"] log_dist_next[OF Suc(3) assms(3) ne] Suc(2,4) by auto
  then show ?case
    using ne Suc(4) z by (subst clean_loop.simps) (simp add: Let_def invalidate_gen_id_0)
qed

lemma invalidate_remaining_unwritten:
  assumes "log_unwritten s" "t \<le> unat (jsize (sbi s))" "64 dvd unat (jsize (sbi s))" "64 dvd t"
  shows "invalidate_remaining_journal (journal_base_addr (sbi s) + t) t (unat (jsize (sbi s))) s = s"
  using assms(2,4)
proof (induction "unat (jsize (sbi s)) - t" arbitrary: t rule: less_induct)
  case less
  let ?J = "unat (jsize (sbi s))"
  show ?case
  proof (cases "t < ?J")
    case True
    have u: "unat (of_nat t :: u32) = t"
      using True unat_less_size[of "jsize (sbi s)"] by (simp add: unat_of_nat)
    then have p: "log_pos (jsize (sbi s)) (of_nat t)"
      using True less(3) assms(3) by (simp add: log_pos_def word_less_nat_alt)
    have "t + 64 \<le> ?J" "64 dvd t + 64" using True less(3) assms(3) by (auto elim!: dvdE)
    then have "invalidate_remaining_journal (journal_base_addr (sbi s) + (t + 64)) (t + 64) ?J s = s"
      using less(1)[of "t + 64"] True by simp
    then show ?thesis
      using True u invalidate_gen_id_0[OF log_unwrittenD[OF assms(1) p]]
      by (subst invalidate_remaining_journal.simps) (simp add: add.assoc)
  next
    case False
    then show ?thesis by (subst invalidate_remaining_journal.simps) simp
  qed
qed

lemma forward_unwritten:
  assumes "journal_wf s" "log_unwritten s"
  defines "j \<equiv> rd_journal (mem s) 0"
  shows "pmfs_forward_journal s = upd_mem (\<lambda>m. wr32 12 (j_tail j) (wr16 20 (next_gen_id (j_gen_id j)) m)) s"
proof -
  have "log_pos (jsize (sbi s)) (j_tail j)" using assms(1) by (simp add: journal_wf_def pmfs_get_journal_def Let_def j_def)
  then have "invalidate_remaining_journal (journal_base_addr (sbi s) + unat (j_tail j)) (unat (j_tail j)) (unat (jsize (sbi s))) s = s"
    using assms(2) by (intro invalidate_remaining_unwritten) (auto simp: log_pos_def word_less_nat_alt)
  then show ?thesis
    by (simp add: pmfs_forward_journal_def pmfs_get_journal_def Let_def j_def rd_journal_def)
qed

text \<open>The cleaner sees the same fields as everyone else.\<close>

lemma tail_genid_fields:
  "(ucast (rd64 m a AND 0xFFFFFFFF) :: u32) = rd32 m a"
  "(ucast (drop_bit 32 (rd64 m a) AND 0xFFFF) :: u16) = rd16 m (a + 4)"
proof -
  have m: "(0xFFFFFFFF :: u64) = mask 32" "(0xFFFF :: u64) = mask 16"
    by (simp_all add: mask_eq_exp_minus_1)
  have u: "unat (rd64 m a) = rdn 4 m a + 2 ^ 32 * (rdn 2 m (a + 4) + 2 ^ 16 * rdn 2 m (a + 4 + 2))"
    using rdn_add[of 4 4 m a] rdn_add[of 2 2 m "a + 4"] by (simp add: unat_rdw)
  have lt: "rdn 4 m a < 2 ^ 32" "rdn 2 m (a + 4) < 2 ^ 16"
    using rdn_less[of 4 m a] rdn_less[of 2 m "a + 4"] by simp_all
  have d: "(rdn 4 m a + 2 ^ 32 * r) div 2 ^ 32 = r" "(rdn 4 m a + 2 ^ 32 * r) mod 2 ^ 32 = rdn 4 m a"
    "(rdn 2 m (a + 4) + 2 ^ 16 * r) mod 2 ^ 16 = rdn 2 m (a + 4)" for r
    using lt by simp_all
  show "(ucast (rd64 m a AND 0xFFFFFFFF) :: u32) = rd32 m a"
    unfolding word_unat_eq_iff unat_ucast_mod m unat_and_mask u d
    using lt by (simp add: unat_rdw)
  show "(ucast (drop_bit 32 (rd64 m a) AND 0xFFFF) :: u16) = rd16 m (a + 4)"
    unfolding word_unat_eq_iff unat_ucast_mod m unat_and_mask unat_drop_bit_div u d
    using lt by (simp add: unat_rdw)
qed

lemma clean_journal_unwritten:
  assumes "journal_wf s" "log_unwritten s"
  shows "pmfs_clean_journal s = Some (0, upd_mem (wr32 12 (j_tail (rd_journal (mem s) 0))) s)"
proof -
  have tg: "(ucast (rd64 (mem s) 16 AND 0xFFFFFFFF) :: u32) = rd32 (mem s) 16"
    "(ucast (drop_bit 32 (rd64 (mem s) 16) AND 0xFFFF) :: u16) = rd16 (mem s) 20"
    using tail_genid_fields[of "mem s" 16] by simp_all
  have "clean_loop (rd32 (mem s) 16) (rd32 (mem s) 12) g 0 s = Some (rd32 (mem s) 16, 0, s)" if "g \<noteq> 0" for g
    using assms that by (intro clean_unwritten) (auto simp: journal_wf_def pmfs_get_journal_def Let_def rd_journal_def)
  then show ?thesis
    using assms(1) by (simp add: pmfs_clean_journal_def pmfs_get_journal_def rd_journal_def tg Let_def journal_wf_def)
qed

text \<open>Cleaning an unwritten log keeps it so: only \<open>journal->head\<close> moves.\<close>

lemma journal_wf_upd_head:
  assumes "journal_wf s" "log_pos (jsize (sbi s)) h"
  shows "journal_wf (upd_mem (wr32 12 h) s)"
  using assms by (simp add: journal_wf_def rd_journal_def pmfs_get_journal_def Let_def)


section \<open>Reserving log space\<close>

text \<open>Byte offsets of the entries between \<open>head\<close> and \<open>tail\<close>.\<close>

definition live_log :: "u32 \<Rightarrow> u32 \<Rightarrow> u32 \<Rightarrow> nat set" where
  "live_log jsz head tail =
     (if head \<le> tail then {unat head..<unat tail}
      else {unat head..<unat jsz} \<union> {0..<unat tail})"

definition free_log :: "u32 \<Rightarrow> u32 \<Rightarrow> u32 \<Rightarrow> nat" where
  "free_log jsz head tail =
     (if head \<le> tail then unat jsz - (unat tail - unat head) else unat head - unat tail)"

lemma unat_avail:
  assumes "log_pos jsz h" "log_pos jsz t"
  shows "unat ((if t \<ge> h then jsz - (t - h) else h - t) - 64) = free_log jsz h t - 64"
    and "64 \<le> free_log jsz h t"
proof -
  obtain J k where J: "unat jsz = 64 * J" "unat h = 64 * k" "k < J" by (rule log_posE[OF assms(1)])
  obtain l where l: "unat t = 64 * l" "l < J" using J(1) log_posE[OF assms(2)] by (metis mult_cancel_left zero_neq_numeral)
  have lt: "t \<le> jsz" "h \<le> jsz" using assms by (auto simp: log_pos_def)
  have u: "unat (if t \<ge> h then jsz - (t - h) else h - t) = free_log jsz h t"
  proof (cases "h \<le> t")
    case True
    then have "unat (t - h) = unat t - unat h" by (simp add: unat_minus_fits word_le_nat_alt)
    moreover from this have "t - h \<le> jsz" using lt by (simp add: word_le_nat_alt)
    ultimately show ?thesis using True by (simp add: free_log_def unat_minus_fits word_le_nat_alt)
  next
    case False
    then show ?thesis by (simp add: free_log_def unat_minus_fits word_le_nat_alt)
  qed
  show f: "64 \<le> free_log jsz h t"
    using J l by (auto simp: free_log_def word_le_nat_alt)
  show "unat ((if t \<ge> h then jsz - (t - h) else h - t) - 64) = free_log jsz h t - 64"
    using u f by (subst unat_minus_fits) (auto simp: word_le_nat_alt)
qed

text \<open>When the entries fit without wrapping, one round suffices.\<close>

lemma new_trans_loop_fits:
  assumes h: "log_pos (jsize (sbi s)) h" and t: "log_pos (jsize (sbi s)) t"
    and free: "unat req + 64 \<le> free_log (jsize (sbi s)) h t" and fit: "unat t + unat req < unat (jsize (sbi s))"
  shows "new_trans_loop req h t s =
    Some (Inr (j_gen_id (rd_journal (mem s) 0), j_base (rd_journal (mem s) 0) + ucast t),
          upd_mem (wr32 16 (t + req)) s)"
proof -
  let ?a = "(if t \<ge> h then jsize (sbi s) - (t - h) else h - t) - 64"
  have a: "\<not> ?a < req"
    using unat_avail[OF h t] free by (simp add: word_less_nat_alt)
  have "unat (t + req) = unat t + unat req"
    using fit unat_less_size[of "jsize (sbi s)"] by (subst unat_plus_fits) auto
  then have "\<not> t + req \<ge> jsize (sbi s)" using fit by (simp add: word_le_nat_alt)
  then show ?thesis
    using a by (subst new_trans_loop.simps) (simp add: pmfs_get_journal_def Let_def)
qed

text \<open>Otherwise the tail goes back to the start of the log under the next generation id.\<close>

lemma rd_wrapped_tail:
  "rd16 (wr64 16 (push_bit 32 (ucast (g :: u16))) m) 20 = g"
  "rd32 (wr64 16 (push_bit 32 (ucast (g :: u16))) m) 16 = 0"
proof -
  let ?v = "push_bit 32 (ucast g) :: u64"
  have "unat (ucast g :: u64) = unat g"
    using unat_less_size[of g] by (intro unat_ucast_fits) simp
  then have v: "unat ?v = unat g * 2 ^ 32"
    using unat_less_size[of g] by (subst unat_push_bit_fits) (auto simp: mult.commute)
  show "rd16 (wr64 16 ?v m) 20 = g"
    using unat_rdw_wrw_inside[where j = 4 and v = ?v and a = 16 and m = m and 'b = 16] unat_less_size[of g]
    by (simp add: word_unat_eq_iff v)
  show "rd32 (wr64 16 ?v m) 16 = 0"
    using unat_rdw_wrw_inside[where j = 0 and v = ?v and a = 16 and m = m and 'b = 32]
    by (simp add: word_unat_eq_iff v)
qed

lemma new_trans_loop_wrap_step:
  assumes h: "log_pos (jsize (sbi s)) h" and t: "log_pos (jsize (sbi s)) t"
    and free: "unat req + 64 \<le> free_log (jsize (sbi s)) h t"
    and wrap: "unat (jsize (sbi s)) \<le> unat t + unat req" "unat t + unat req < 2 ^ 32"
  shows "new_trans_loop req h t s = new_trans_loop req h 0
    (upd_mem (wr64 16 (push_bit 32 (ucast (next_gen_id (rd16 (mem s) 20))))) s)"
proof -
  let ?a = "(if t \<ge> h then jsize (sbi s) - (t - h) else h - t) - 64"
  have a: "\<not> ?a < req"
    using unat_avail[OF h t] free by (simp add: word_less_nat_alt)
  have "unat (t + req) = unat t + unat req"
    using wrap by (subst unat_plus_fits) auto
  then have w: "t + req \<ge> jsize (sbi s)" using wrap by (simp add: word_le_nat_alt)
  show ?thesis
    using a w by (subst new_trans_loop.simps) (simp add: pmfs_get_journal_def Let_def rd_journal_def)
qed

section \<open>The life of the journal\<close>

definition journal_inv :: "fs \<Rightarrow> bool" where
  "journal_inv s \<longleftrightarrow> journal_wf s \<and> log_unwritten s"

text \<open>Only \<open>head\<close>, \<open>tail\<close> and \<open>gen_id\<close> of the journal differ.\<close>

definition journal_frame :: "fs \<Rightarrow> fs \<Rightarrow> bool" where
  "journal_frame s s' \<longleftrightarrow> s' = s\<lparr>mem := mem s'\<rparr> \<and> (\<forall>x. x < 12 \<or> 24 \<le> x \<longrightarrow> mem s' x = mem s x)"

lemma journal_frame_trans: "journal_frame s s' \<Longrightarrow> journal_frame s' s'' \<Longrightarrow> journal_frame s s''"
  unfolding journal_frame_def by (metis fs.update_convs(1) fs.surjective fs.ext_inject)

lemma journal_frameI:
  "(\<And>x. x < 12 \<or> 24 \<le> x \<Longrightarrow> m x = mem s x) \<Longrightarrow> journal_frame s (s\<lparr>mem := m\<rparr>)"
  by (simp add: journal_frame_def)

lemma journal_frame_sbi: "journal_frame s s' \<Longrightarrow> sbi s' = sbi s"
  unfolding journal_frame_def by (metis fs.select_convs(2) fs.surjective fs.update_convs(1))

lemma log_unwritten_cong:
  assumes "log_unwritten s" "sbi s' = sbi s" "\<And>x. journal_base_addr (sbi s) \<le> x \<Longrightarrow> mem s' x = mem s x"
  shows "log_unwritten s'"
  using assms rd_logentry_cong[of _ "mem s'" "mem s"] unfolding log_unwritten_def by auto

lemma journal_inv_frame:
  assumes "journal_inv s" "journal_frame s s'"
    and "log_pos (jsize (sbi s)) (rd32 (mem s') 12)" "log_pos (jsize (sbi s)) (rd32 (mem s') 16)"
    and "rd16 (mem s') 20 \<noteq> 0"
  shows "journal_inv s'"
proof -
  have "log_unwritten s'"
    using log_unwritten_cong[of s s'] assms(1,2) journal_frame_sbi[OF assms(2)]
    by (auto simp: journal_inv_def journal_wf_def journal_frame_def Let_def)
  then show ?thesis
    using assms journal_frame_sbi[OF assms(2)]
    by (simp add: journal_inv_def journal_wf_def rd_journal_def pmfs_get_journal_def Let_def)
qed

lemma journal_invD:
  assumes "journal_inv s"
  shows "log_pos (jsize (sbi s)) (rd32 (mem s) 12)" "log_pos (jsize (sbi s)) (rd32 (mem s) 16)"
    and "rd16 (mem s) 20 \<noteq> 0" "unat (jsize (sbi s)) \<le> 2 ^ 31" "32 \<le> journal_base_addr (sbi s)"
  using assms by (auto simp: journal_inv_def journal_wf_def rd_journal_def pmfs_get_journal_def Let_def)

lemma clean_journal_inv:
  assumes "journal_inv s"
  shows "pmfs_clean_journal s = Some (0, upd_mem (wr32 12 (rd32 (mem s) 16)) s)"
    and "journal_inv (upd_mem (wr32 12 (rd32 (mem s) 16)) s)"
    and "journal_frame s (upd_mem (wr32 12 (rd32 (mem s) 16)) s)"
proof -
  show "pmfs_clean_journal s = Some (0, upd_mem (wr32 12 (rd32 (mem s) 16)) s)"
    using clean_journal_unwritten[of s] assms by (simp add: journal_inv_def rd_journal_def)
  show fr: "journal_frame s (upd_mem (wr32 12 (rd32 (mem s) 16)) s)"
    by (rule journal_frameI) (auto simp: wrw_apply_other)
  show "journal_inv (upd_mem (wr32 12 (rd32 (mem s) 16)) s)"
    by (rule journal_inv_frame[OF assms fr]) (use journal_invD[OF assms] in simp_all)
qed

text \<open>The attempts to free space of an unwritten log report that they freed nothing.\<close>

lemma free_retry_unwritten:
  assumes "journal_inv s" "unat avail < unat req"
  shows "free_retry (Suc n) avail req 0 s = Some (0, upd_mem (wr32 12 (rd32 (mem s) 16)) s)"
  using assms
proof (induction n arbitrary: s)
  case 0
  then show ?case
    using clean_journal_inv[OF 0(1)] by (simp add: pmfs_free_logentries_def word_le_nat_alt)
next
  case (Suc n)
  note c = clean_journal_inv[OF Suc(2)]
  have idem: "wr32 12 v (wr32 12 v m) = wr32 12 v m" for v m
    by (auto simp: wrw_def wrn_def fun_eq_iff)
  show ?case
    using Suc(1)[OF c(2) Suc(3)] c(1) Suc(3)
    by (simp add: pmfs_free_logentries_def word_le_nat_alt idem)
qed

lemma new_trans_loop_full:
  assumes inv: "journal_inv s"
    and full: "free_log (jsize (sbi s)) (rd32 (mem s) 12) (rd32 (mem s) 16) < unat req + 64"
  shows "new_trans_loop req (rd32 (mem s) 12) (rd32 (mem s) 16) s =
    Some (Inl EAGAIN, upd_mem (wr32 12 (rd32 (mem s) 16)) s)"
proof -
  define h t where "h = rd32 (mem s) 12" and "t = rd32 (mem s) 16"
  define a where "a = (if t \<ge> h then jsize (sbi s) - (t - h) else h - t) - 64"
  note d = journal_invD[OF inv, folded h_def t_def]
  have al: "unat a < unat req" using full unat_avail[OF d(1,2)] by (simp add: h_def t_def a_def)
  have fr: "free_retry 3 a req 0 s = Some (0, upd_mem (wr32 12 t) s)"
    using free_retry_unwritten[OF inv al, of 2] by (simp only: numeral_3_eq_3 numeral_2_eq_2 t_def)
  show ?thesis
    unfolding h_def[symmetric] t_def[symmetric]
    by (subst new_trans_loop.simps)
      (simp add: Let_def fr al word_less_nat_alt del: free_retry.simps flip: a_def)
qed

lemma new_trans_loop_nowrap:
  assumes inv: "journal_inv s" and req: "64 dvd unat req"
    and nw: "unat req + 64 \<le> free_log (jsize (sbi s)) (rd32 (mem s) 12) (rd32 (mem s) 16) \<Longrightarrow>
      unat (rd32 (mem s) 16) + unat req < unat (jsize (sbi s))"
  shows "\<exists>r s'. new_trans_loop req (rd32 (mem s) 12) (rd32 (mem s) 16) s = Some (r, s')
    \<and> journal_inv s' \<and> journal_frame s s'"
proof (cases "unat req + 64 \<le> free_log (jsize (sbi s)) (rd32 (mem s) 12) (rd32 (mem s) 16)")
  case True
  note d = journal_invD[OF inv]
  let ?J = "jsize (sbi s)" and ?t = "rd32 (mem s) 16"
  have "unat (?t + req) = unat ?t + unat req"
    using nw[OF True] unat_less_size[of ?J] by (subst unat_plus_fits) auto
  then have p: "log_pos ?J (?t + req)"
    using nw[OF True] d(2) req(1) by (simp add: log_pos_def word_less_nat_alt)
  have fr: "journal_frame s (upd_mem (wr32 16 (?t + req)) s)"
    by (rule journal_frameI) (auto simp: wrw_apply_other)
  have "journal_inv (upd_mem (wr32 16 (?t + req)) s)"
    by (rule journal_inv_frame[OF inv fr]) (use d p in simp_all)
  then show ?thesis using new_trans_loop_fits[OF d(1,2) True nw[OF True]] fr by auto
next
  case False
  then show ?thesis using new_trans_loop_full[OF inv] clean_journal_inv(2,3)[OF inv] by auto
qed

lemma new_trans_loop_unwritten:
  assumes inv: "journal_inv s" and req: "64 dvd unat req"
  shows "\<exists>r s'. new_trans_loop req (rd32 (mem s) 12) (rd32 (mem s) 16) s = Some (r, s')
    \<and> journal_inv s' \<and> journal_frame s s'"
proof (cases "unat req + 64 \<le> free_log (jsize (sbi s)) (rd32 (mem s) 12) (rd32 (mem s) 16)
    \<and> unat (jsize (sbi s)) \<le> unat (rd32 (mem s) 16) + unat req")
  case True
  let ?J = "jsize (sbi s)" and ?h = "rd32 (mem s) 12" and ?t = "rd32 (mem s) 16"
  let ?v = "push_bit 32 (ucast (next_gen_id (rd16 (mem s) 20))) :: u64"
  let ?s = "upd_mem (wr64 16 ?v) s"
  note d = journal_invD[OF inv] and rw = rd_wrapped_tail[of "next_gen_id (rd16 (mem s) 20)" "mem s"]
  have lt: "unat ?h < unat ?J" "unat ?t < unat ?J" using d(1,2) by (auto simp: log_pos_def word_less_nat_alt)
  have ht: "0 < unat ?h" "unat req < unat ?J"
    using True lt by (auto simp: free_log_def word_le_nat_alt split: if_splits)
  have "unat ?t + unat req < 2 ^ 32" using lt ht d(4) by simp
  then have step: "new_trans_loop req ?h ?t s = new_trans_loop req ?h 0 ?s"
    using new_trans_loop_wrap_step[OF d(1,2)] True by blast
  have fr: "journal_frame s ?s" by (rule journal_frameI) (auto simp: wrw_apply_other)
  have z: "log_pos ?J 0" using d(1) ht by (simp add: log_pos_def word_less_nat_alt)
  have rh: "rd32 (mem ?s) 12 = ?h" by simp
  have i: "journal_inv ?s"
    by (rule journal_inv_frame[OF inv fr]) (use d(1) z rw in simp_all)
  have "unat req + 64 \<le> free_log (jsize (sbi ?s)) (rd32 (mem ?s) 12) (rd32 (mem ?s) 16) \<Longrightarrow>
      unat (rd32 (mem ?s) 16) + unat req < unat (jsize (sbi ?s))"
    using ht by (simp add: rw)
  from new_trans_loop_nowrap[OF i req this] obtain r s' where
    "new_trans_loop req ?h 0 ?s = Some (r, s')" "journal_inv s'" "journal_frame ?s s'"
    using rw(2) rh by auto
  then show ?thesis using step journal_frame_trans[OF fr] by auto
next
  case False
  then show ?thesis by (intro new_trans_loop_nowrap[OF inv req]) auto
qed

text \<open>The file system around the journal: transactions, the cleaner, and stores in place.\<close>

inductive journal_step :: "fs \<Rightarrow> fs \<Rightarrow> bool" where
  js_new: "pmfs_new_transaction n s = Some (r, s') \<Longrightarrow> journal_step s s'"
| js_add: "pmfs_add_logentry tr a sz ty s = (r, s') \<Longrightarrow> journal_step s s'"
| js_commit: "journal_step s (pmfs_commit_transaction tr s)"
| js_abort: "num_used tr = 0 \<Longrightarrow> pmfs_abort_transaction (Some tr) s = Some s' \<Longrightarrow> journal_step s s'"
| js_clean: "pmfs_clean_journal s = Some (n, s') \<Longrightarrow> journal_step s s'"
| js_store: "32 \<le> a \<Longrightarrow> a \<notin> {journal_base_addr (sbi s)..<journal_base_addr (sbi s) + unat (jsize (sbi s))}
    \<Longrightarrow> journal_step s (s\<lparr>mem := (mem s)(a := v)\<rparr>)"

lemma journal_inv_cong:
  "journal_inv s \<Longrightarrow> mem s' = mem s \<Longrightarrow> jsize (sbi s') = jsize (sbi s) \<Longrightarrow>
     journal_base_addr (sbi s') = journal_base_addr (sbi s) \<Longrightarrow> journal_inv s'"
  by (simp add: journal_inv_def journal_wf_def log_unwritten_def pmfs_get_journal_def)

lemma kmem_cache_alloc_frame: "kmem_cache_alloc s = (ok, s') \<Longrightarrow> mem s' = mem s \<and> sbi s' = sbi s \<and> journal_info s' = journal_info s"
  by (auto simp: kmem_cache_alloc_def split: list.splits)

lemma new_transaction_inv:
  assumes inv: "journal_inv s" and r: "pmfs_new_transaction n s = Some (r, s')"
  shows "journal_inv s'"
proof -
  obtain ok s1 where k: "kmem_cache_alloc s = (ok, s1)" by (cases "kmem_cache_alloc s")
  note kf = kmem_cache_alloc_frame[OF k]
  let ?max = "if redo_log (sbi s) then n else n + 1"
  let ?s2 = "upd_sbi (\<lambda>b. b\<lparr>next_transaction_id := next_transaction_id (sbi s1) + 1\<rparr>) s1"
  have i2: "journal_inv ?s2" by (rule journal_inv_cong[OF inv]) (use kf in simp_all)
  have i1: "journal_inv s1" by (rule journal_inv_cong[OF inv]) (use kf in simp_all)
  have "64 dvd unat (push_bit 6 ?max)"
    by (simp only: unat_push_bit_mod) (simp add: dvd_mod)
  from new_trans_loop_unwritten[OF i2 this] obtain q s3 where
    "new_trans_loop (push_bit 6 ?max) (rd32 (mem s1) 12) (rd32 (mem s1) 16) ?s2 = Some (q, s3)" "journal_inv s3"
    by auto
  then show ?thesis
    using r k i1 by (auto simp: pmfs_new_transaction_def Let_def rd_journal_def pmfs_get_journal_def
        split: bool.splits sum.splits prod.splits elim: journal_inv_cong)
qed

lemma store_inv:
  assumes inv: "journal_inv s" and a: "32 \<le> a"
    "a \<notin> {journal_base_addr (sbi s)..<journal_base_addr (sbi s) + unat (jsize (sbi s))}"
  shows "journal_inv (s\<lparr>mem := (mem s)(a := v)\<rparr>)"
proof -
  let ?m = "(mem s)(a := v)"
  have eq: "?m x = mem s x" if "x < 32" for x using a(1) that by simp
  have f: "rd32 ?m 12 = rd32 (mem s) 12" "rd32 ?m 16 = rd32 (mem s) 16" "rd16 ?m 20 = rd16 (mem s) 20"
    by (rule rdw_cong, rule eq, simp)+
  have "le_gen_id (rd_logentry ?m (journal_base_addr (sbi s) + unat off)) = 0"
    if p: "log_pos (jsize (sbi s)) off" for off
  proof -
    obtain J k where J: "unat (jsize (sbi s)) = 64 * J" "unat off = 64 * k" "k < J" by (rule log_posE[OF p])
    have "rd_logentry ?m (journal_base_addr (sbi s) + unat off) = rd_logentry (mem s) (journal_base_addr (sbi s) + unat off)"
      by (rule rd_logentry_cong) (use a(2) J in auto)
    then show ?thesis using inv p by (simp add: journal_inv_def log_unwritten_def)
  qed
  then show ?thesis
    using journal_invD[OF inv] f
    by (simp add: journal_inv_def journal_wf_def log_unwritten_def rd_journal_def pmfs_get_journal_def Let_def)
qed

lemma journal_step_inv: "journal_step s s' \<Longrightarrow> journal_inv s \<Longrightarrow> journal_inv s'"
proof (induction rule: journal_step.induct)
  case (js_new n s r s')
  then show ?case by (rule new_transaction_inv[rotated])
next
  case (js_abort tr s s')
  then show ?case
    by (auto simp: pmfs_abort_transaction_def pmfs_undo_transaction_def pmfs_add_logentry_def Let_def
        split: if_splits elim: journal_inv_cong)
next
  case (js_clean s n s')
  then show ?case using clean_journal_inv(1,2)[of s] by simp
qed (auto simp: pmfs_add_logentry_def pmfs_commit_transaction_def Let_def store_inv
    split: option.splits elim: journal_inv_cong)

lemma journal_steps_inv: "journal_step\<^sup>*\<^sup>* s s' \<Longrightarrow> journal_inv s \<Longrightarrow> journal_inv s'"
  by (induction rule: rtranclp_induct) (auto intro: journal_step_inv)

lemma recover_inv:
  assumes "journal_inv s"
  shows "\<exists>s'. pmfs_recover_journal s = Some s' \<and> journal_frame s s' \<and> rd32 (mem s') 12 = rd32 (mem s') 16"
proof -
  note d = journal_invD[OF assms]
  have wf: "journal_wf s" "log_unwritten s" using assms by (auto simp: journal_inv_def)
  note fw = forward_unwritten[OF wf]
  have "journal_frame s (pmfs_forward_journal s)"
    unfolding fw by (rule journal_frameI) (auto simp: wrw_apply_other)
  moreover have "rd32 (mem (pmfs_forward_journal s)) 12 = rd32 (mem (pmfs_forward_journal s)) 16"
    unfolding fw by (simp add: rd_journal_def)
  moreover have "journal_frame s s" by (simp add: journal_frame_def)
  ultimately show ?thesis
    using recover_undo_unwritten[OF wf(2) d(1,2,3)] recover_redo_unwritten[OF wf(2) d(1,2)] d(3)
    by (auto simp: pmfs_recover_journal_def pmfs_recover_undo_journal_def pmfs_recover_redo_journal_def
        rd_journal_def pmfs_get_journal_def Let_def)
qed

lemma kmem_cache_alloc_ok:
  "\<not> kmem_fails s \<Longrightarrow> kmem_cache_alloc s = (True, s\<lparr>kmem := tl (kmem s)\<rparr>)"
  by (auto simp: kmem_cache_alloc_def kmem_fails_def split: list.splits)

text \<open>\<open>pmfs_new_transaction\<close> once its record is allocated, with the request in bytes.\<close>

lemma pmfs_new_transaction_ok:
  fixes s :: fs and n :: u32
  assumes "\<not> kmem_fails s" and req: "64 * (unat n + (if redo_log (sbi s) then 0 else 1)) < 2 ^ 31"
  obtains r s2 where "unat r = 64 * (unat n + (if redo_log (sbi s) then 0 else 1))"
    and "mem s2 = mem s" "jsize (sbi s2) = jsize (sbi s)" "journal_base_addr (sbi s2) = journal_base_addr (sbi s)"
      "journal_info s2 = journal_info s" "redo_log (sbi s2) = redo_log (sbi s)"
    and "pmfs_new_transaction n s = do {
           (q, s3) \<leftarrow> new_trans_loop r (rd32 (mem s) 12) (rd32 (mem s) 16) s2;
           case q of
             Inl e \<Rightarrow> Some (Inl e, s3)
           | Inr (gen, base) \<Rightarrow>
               Some (Inr \<lparr>transaction_id = next_transaction_id (sbi s),
                 num_entries = ucast (if redo_log (sbi s) then n else n + 1), num_used = 0,
                 t_gen_id = gen, start_addr = unat base, t_parent = journal_info s3\<rparr>,
                 s3\<lparr>journal_info := next_transaction_id (sbi s) # journal_info s3\<rparr>) }"
proof -
  let ?max = "if redo_log (sbi s) then n else n + 1"
  let ?s2 = "s\<lparr>kmem := tl (kmem s), sbi := (sbi s)\<lparr>next_transaction_id := next_transaction_id (sbi s) + 1\<rparr>\<rparr>"
  have "unat ?max = unat n + (if redo_log (sbi s) then 0 else 1)"
    using req by (auto simp: unat_plus_fits)
  then have "unat (push_bit 6 ?max) = 64 * (unat n + (if redo_log (sbi s) then 0 else 1))"
    using req by (subst unat_push_bit_fits) auto
  then show ?thesis
    by (rule that[of "push_bit 6 ?max" ?s2])
      (simp_all add: pmfs_new_transaction_def kmem_cache_alloc_ok[OF assms(1)] Let_def rd_journal_def
        pmfs_get_journal_def cong: sum.case_cong)
qed

section \<open>Examples\<close>

text \<open>A formatted journal of sixteen entries at 4096.\<close>

definition ex_journal :: fs where
  "ex_journal = blank_fs\<lparr>
     mem := wr16 20 1 (wr32 8 1024 (wr64 0 4096 (\<lambda>_. 0))),
     sbi := blank_sbi\<lparr>journal_base_addr := 4096, jsize := 1024\<rparr>\<rparr>"

lemmas ex_journal_simps = ex_journal_def blank_fs_def blank_sbi_def

lemma journal_inv_ex: "journal_inv ex_journal"
proof -
  have "le_gen_id (rd_logentry (mem ex_journal) (4096 + unat off)) = 0" for off :: u32
    by (simp add: ex_journal_simps rd_logentry_def)
  then show ?thesis
    by (simp add: journal_inv_def journal_wf_def log_unwritten_def ex_journal_simps rd_journal_def
        pmfs_get_journal_def log_pos_def Let_def)
qed

section \<open>Properties\<close>


definition ex_trans :: pmfs_transaction where
  "ex_trans = \<lparr>transaction_id = 0, num_entries = 4, num_used = 0, t_gen_id = 1, start_addr = 4096, t_parent = []\<rparr>"


text \<open>C18. Recovery never restores anything: since \<open>pmfs_add_logentry\<close> returns before it writes,
  after any sequence of transactions, cleaner runs and in-place stores from a formatted journal,
  \<open>pmfs_recover_journal\<close> returns with an empty journal and leaves every byte other than the
  journal's head, tail and generation id as it found it. Stores of a transaction that had not
  committed survive the crash.\<close>

theorem recovery_restores_nothing:
  assumes "journal_inv s" "journal_step\<^sup>*\<^sup>* s s'"
  shows "\<exists>s''. pmfs_recover_journal s' = Some s''
    \<and> (\<forall>x. x < 12 \<or> 24 \<le> x \<longrightarrow> mem s'' x = mem s' x)
    \<and> j_head (rd_journal (mem s'') 0) = j_tail (rd_journal (mem s'') 0)"
proof -
  have "journal_inv s'" by (rule journal_steps_inv[OF assms(2,1)])
  from recover_inv[OF this] show ?thesis
    by (auto simp: journal_frame_def rd_journal_def)
qed

theorem recovery_restores_nothing_witness:
  "\<exists>s' s''. journal_step\<^sup>*\<^sup>* ex_journal s' \<and> mem ex_journal 8192 = 0
     \<and> pmfs_recover_journal s' = Some s'' \<and> mem s'' 8192 = 7"
proof -
  let ?s = "ex_journal\<lparr>mem := (mem ex_journal)(8192 := 7)\<rparr>"
  have st: "journal_step\<^sup>*\<^sup>* ex_journal ?s"
    by (rule r_into_rtranclp, rule js_store) (simp_all add: ex_journal_simps)
  have "mem ex_journal 8192 = 0" by (simp add: ex_journal_def wrw_apply_other)
  then show ?thesis
    using st recovery_restores_nothing[OF journal_inv_ex st] by force
qed

text \<open>C7. A new transaction gets fresh log space: when the log has room for its entries and one more,
  also after wrapping around, \<open>pmfs_new_transaction\<close> succeeds, the reserved bytes lie inside the
  log and apart from every entry between head and tail, the tail moves past them, and the
  transaction carries the journal's generation id.\<close>

theorem new_transaction_reserves:
  fixes s :: fs and n :: u32
  defines "j \<equiv> rd_journal (mem s) 0" and "jsz \<equiv> unat (jsize (sbi s))"
    and "req \<equiv> 64 * (unat n + (if redo_log (sbi s) then 0 else 1))"
  defines "t \<equiv> if unat (j_tail j) + req < jsz then unat (j_tail j) else 0"
  assumes "journal_wf s" "\<not> kmem_fails s" "req < 2 ^ 31"
    and "req + 64 \<le> free_log (jsize (sbi s)) (j_head j) (j_tail j)"
    and "jsz \<le> unat (j_tail j) + req \<Longrightarrow> req + 64 \<le> unat (j_head j)"
  shows "\<exists>tr s'. pmfs_new_transaction n s = Some (Inr tr, s')
    \<and> start_addr tr = unat (j_base j + of_nat t) \<and> num_used tr = 0
    \<and> t + req < jsz \<and> {t..<t + req} \<inter> live_log (jsize (sbi s)) (j_head j) (j_tail j) = {}
    \<and> unat (j_tail (rd_journal (mem s') 0)) = t + req
    \<and> t_gen_id tr = j_gen_id (rd_journal (mem s') 0)
    \<and> journal_info s' = transaction_id tr # journal_info s"
proof -
  let ?h = "rd32 (mem s) 12" and ?t = "rd32 (mem s) 16"
  obtain r s2 where r: "unat r = req" and s2: "mem s2 = mem s" "jsize (sbi s2) = jsize (sbi s)"
      "journal_info s2 = journal_info s"
    and N: "pmfs_new_transaction n s = do {
           (q, s3) \<leftarrow> new_trans_loop r ?h ?t s2;
           case q of
             Inl e \<Rightarrow> Some (Inl e, s3)
           | Inr (gen, base) \<Rightarrow>
               Some (Inr \<lparr>transaction_id = next_transaction_id (sbi s),
                 num_entries = ucast (if redo_log (sbi s) then n else n + 1), num_used = 0,
                 t_gen_id = gen, start_addr = unat base, t_parent = journal_info s3\<rparr>,
                 s3\<lparr>journal_info := next_transaction_id (sbi s) # journal_info s3\<rparr>) }"
    using pmfs_new_transaction_ok[OF assms(6) assms(7)[unfolded req_def]] unfolding req_def by blast
  have j: "j_head j = ?h" "j_tail j = ?t" "j_base j = rd64 (mem s) 0" "j_gen_id j = rd16 (mem s) 20"
    by (simp_all add: j_def rd_journal_def)
  have hp: "log_pos (jsize (sbi s2)) ?h" and tp: "log_pos (jsize (sbi s2)) ?t" and J: "jsz \<le> 2 ^ 31"
    using assms(5) by (auto simp: journal_wf_def rd_journal_def pmfs_get_journal_def Let_def s2 jsz_def)
  have free: "unat r + 64 \<le> free_log (jsize (sbi s2)) ?h ?t" using assms(8) r s2 j by simp
  have lt: "unat ?h < jsz" "unat ?t < jsz" using hp tp by (auto simp: log_pos_def word_less_nat_alt s2 jsz_def)
  have avoid: "{t..<t + req} \<inter> live_log (jsize (sbi s)) (j_head j) (j_tail j) = {}" "t + req < jsz"
    using assms(8,9) lt
    by (auto simp: live_log_def free_log_def t_def j word_le_nat_alt jsz_def split: if_splits)
  show ?thesis
  proof (cases "unat ?t + req < jsz")
    case True
    then have t: "t = unat ?t" by (simp add: t_def j)
    have "unat (?t + r) = unat ?t + req"
      using True unat_less_size[of "jsize (sbi s)"] r by (subst unat_plus_fits) (auto simp: jsz_def)
    then show ?thesis
      using new_trans_loop_fits[OF hp tp free] True avoid r s2 t
      by (simp add: N j rd_journal_def jsz_def)
  next
    case False
    then have t: "t = 0" by (simp add: t_def j)
    let ?g = "next_gen_id (rd16 (mem s) 20)"
    let ?s3 = "upd_mem (wr64 16 (push_bit 32 (ucast ?g))) s2"
    have w: "new_trans_loop r ?h ?t s2 = new_trans_loop r ?h 0 ?s3"
      using new_trans_loop_wrap_step[OF hp tp free] False r lt J assms(7) by (simp add: s2 jsz_def)
    have h: "req + 64 \<le> unat ?h" using assms(9) False j by simp
    then have h0: "\<not> ?h \<le> 0" by (auto simp: word_le_nat_alt)
    have z: "log_pos (jsize (sbi ?s3)) 0" using hp by (auto simp: log_pos_def word_less_nat_alt)
    have "new_trans_loop r ?h 0 ?s3 =
      Some (Inr (j_gen_id (rd_journal (mem ?s3) 0), j_base (rd_journal (mem ?s3) 0) + ucast (0 :: u32)),
        upd_mem (wr32 16 (0 + r)) ?s3)"
      by (rule new_trans_loop_fits) (use hp z h h0 lt r s2 in \<open>auto simp: free_log_def jsz_def\<close>)
    then show ?thesis
      using w avoid r s2 t rd_wrapped_tail[of ?g "mem s"] by (simp add: N j rd_journal_def)
  qed
qed

theorem new_transaction_reserves_witness:
  "\<exists>tr s'. pmfs_new_transaction 3 ex_journal = Some (Inr tr, s') \<and> start_addr tr = 4096
     \<and> unat (j_tail (rd_journal (mem s') 0)) = 256"
proof -
  have "journal_wf ex_journal" using journal_inv_ex by (simp add: journal_inv_def)
  moreover have "\<not> kmem_fails ex_journal" "redo_log (sbi ex_journal) = False" "jsize (sbi ex_journal) = 1024"
    by (simp_all add: ex_journal_simps kmem_fails_def)
  moreover have "rd_journal (mem ex_journal) 0 =
      \<lparr>j_base = 4096, j_size = 1024, j_head = 0, j_tail = 0, j_gen_id = 1, j_redo_logging = 0\<rparr>"
    by (simp add: ex_journal_simps rd_journal_def)
  ultimately show ?thesis
    using new_transaction_reserves[of ex_journal 3] by (force simp: free_log_def)
qed



text \<open>C32. Positions and generation ids go round: on aligned offsets inside the log, \<open>next_log_entry\<close> and
  \<open>prev_log_entry\<close> are inverse to each other and stay inside it, and on the non-zero generation
  ids so are \<open>next_gen_id\<close> and \<open>prev_gen_id\<close>, across the wraparound from 65535 to 1.\<close>

theorem log_positions_cycle:
  assumes "log_pos jsz off" "g \<noteq> 0"
  shows "prev_log_entry jsz (next_log_entry jsz off) = off \<and> next_log_entry jsz (prev_log_entry jsz off) = off
    \<and> log_pos jsz (next_log_entry jsz off) \<and> log_pos jsz (prev_log_entry jsz off)
    \<and> prev_gen_id (next_gen_id g) = g \<and> next_gen_id (prev_gen_id g) = g
    \<and> next_gen_id g \<noteq> 0 \<and> prev_gen_id g \<noteq> 0"
  using assms by (simp add: prev_next_log_entry next_prev_log_entry log_pos_next log_pos_prev gen_id_inverse)

theorem log_positions_cycle_witness:
  "log_pos 1024 960 \<and> next_log_entry 1024 960 = 0 \<and> prev_log_entry 1024 (next_log_entry 1024 960) = 960
     \<and> next_gen_id 65535 = 1 \<and> prev_gen_id (next_gen_id 65535) = 65535"
proof -
  have p: "log_pos 1024 960" by (simp add: log_pos_def)
  then show ?thesis
    using log_positions_cycle[OF p, of 65535] by (simp add: next_log_entry_def next_gen_id_def)
qed

lemma hard_init_eq:
  assumes "32 \<le> unat base"
  shows "pmfs_journal_hard_init started base sz s = Some ((if started then Inr () else Inl EPERM),
      s\<lparr>mem := memset (unat base) 0 (unat sz) (wr16 24 0 (wr32 12 0 (wr32 16 0 (wr16 20 1 (wr32 8 sz (wr64 0 base (mem s))))))),
        sbi := (sbi s)\<lparr>next_transaction_id := 0, journal_base_addr := unat base, jsize := sz, redo_log := False\<rparr>\<rparr>)"
proof -
  let ?m = "memset (unat base) 0 (unat sz) (wr16 24 0 (wr32 12 0 (wr32 16 0 (wr16 20 1 (wr32 8 sz (wr64 0 base (mem s)))))))"
  have "rd_journal ?m 0 = \<lparr>j_base = base, j_size = sz, j_head = 0, j_tail = 0, j_gen_id = 1, j_redo_logging = 0\<rparr>"
    using assms by (simp add: rd_journal_def)
  then show ?thesis using assms
    by (simp add: pmfs_journal_hard_init_def pmfs_journal_soft_init_def pmfs_journal_cleaner_run_def pmfs_get_journal_def Let_def)
qed



end
