(* ===== verification/Btree.thy ===== *)
theory Btree
  imports Journal
begin

text \<open>
  The block trees of \<open>inode.c\<close>: a file's blocks hang off \<open>pi->root\<close> below \<open>pi->height\<close> levels of
  512-way nodes; a zero pointer is a hole. Lookup, growth of the tree (\<open>pmfs_increase_btree_height\<close>,
  \<open>recursive_alloc_blocks\<close>), truncation and the searches for holes and data. The height is the
  recursion argument: the code never calls a recursive routine below height 1, and doing so is
  \<open>None\<close> here.
\<close>

section \<open>Allocating and finding blocks\<close>

definition pmfs_new_data_block :: "nat \<Rightarrow> bool \<Rightarrow> fs \<Rightarrow> ((errno + u64) \<times> fs) option" where
  "pmfs_new_data_block pi zero s =
     (let i = rd_inode (mem s) pi; data_bits = blk_type_to_shift (pi_blk_type i)
      in do {
           (r, s1) \<leftarrow> pmfs_new_block (pi_blk_type i) zero s;
           Some (r, case r of
                      Inl _ \<Rightarrow> s1
                    | Inr _ \<Rightarrow> upd_mem (\<lambda>m. wr64 (pi + 40)
                        (pi_blocks (rd_inode m pi) + push_bit (data_bits - s_blocksize_bits s1) 1) m) s1)
         })"

definition pmfs_find_data_block :: "vinode \<Rightarrow> u64 \<Rightarrow> fs \<Rightarrow> u64 option" where
  "pmfs_find_data_block inode file_blocknr s = do {
     pi \<leftarrow> pmfs_get_inode s (i_ino inode);
     if pi = 0 then None
     else let i = rd_inode (mem s) pi;
              blk_shift = blk_type_to_shift (pi_blk_type i) - s_blocksize_bits s;
              blk_offset = file_blocknr AND (push_bit blk_shift 1 - 1);
              blocknr = drop_bit blk_shift file_blocknr
          in if blocknr \<ge> push_bit (unat (pi_height i) * META_BLK_SHIFT) 1 then Some 0
             else do {
               bp \<leftarrow> raw_pmfs_find_data_block s pi blocknr;
               Some (if bp = 0 then 0 else bp + push_bit (s_blocksize_bits s) blk_offset)
             } }"

text \<open>The index range \<open>first_index..last_index\<close> of a node at height \<open>Suc h\<close>, and the part of the
  range that concerns the child at index \<open>i\<close>.\<close>

definition blk_index :: "nat \<Rightarrow> u64 \<Rightarrow> nat" where
  "blk_index h blocknr = unat (ucast (drop_bit (h * META_BLK_SHIFT) blocknr) :: u32)"

definition first_blk :: "nat \<Rightarrow> u64 \<Rightarrow> nat \<Rightarrow> u64" where
  "first_blk h lo i =
     (if i = blk_index h lo then lo AND (push_bit (h * META_BLK_SHIFT) 1 - 1) else 0)"

definition last_blk :: "nat \<Rightarrow> u64 \<Rightarrow> nat \<Rightarrow> u64" where
  "last_blk h hi i =
     (if i = blk_index h hi then hi AND (push_bit (h * META_BLK_SHIFT) 1 - 1)
      else push_bit (h * META_BLK_SHIFT) 1 - 1)"

section \<open>Holes and data\<close>

text \<open>Loop state: \<open>blocks\<close>, \<open>data_found\<close>, \<open>hole_found\<close>. The C function returns \<open>blocks\<close> as an \<open>int\<close>.\<close>

primrec recursive_find_region ::
  "nat \<Rightarrow> u64 \<Rightarrow> u64 \<Rightarrow> u64 \<Rightarrow> bool \<Rightarrow> bool \<Rightarrow> bool \<Rightarrow> fs \<Rightarrow> (u64 \<times> bool \<times> bool) option" where
  "recursive_find_region 0 = (\<lambda>block lo hi data_found hole_found hole s. None)"
| "recursive_find_region (Suc h) = (\<lambda>block lo hi data_found hole_found hole s.
     let node = pmfs_get_block s block;
         body = (\<lambda>i (blocks, data, hol).
           let p = rd64 (mem s) (node + 8 * i)
           in if h = 0 \<or> p = 0 then
                let data' = (data \<or> p \<noteq> 0); hol' = (hol \<or> p = 0)
                in if p \<noteq> 0 \<and> \<not> hole then Some ((blocks, data', hol'), True)
                   else Some ((if \<not> hol' \<or> \<not> hole then blocks + push_bit (h * META_BLK_SHIFT) 1
                               else blocks, data', hol'), False)
              else do {
                (b, data', hol') \<leftarrow> recursive_find_region h p (first_blk h lo i)
                  (last_blk h hi i) data hol hole s;
                Some ((blocks + scast (ucast b :: u32), data', hol'), \<not> hole \<and> data')
              })
     in if node = 0 \<and> blk_index h lo \<le> blk_index h hi then None
        else for_loop body [blk_index h lo..<Suc (blk_index h hi)] (0, data_found, hole_found))"

text \<open>The result is the return value, an error or a number, and the new \<open>*offset\<close>.\<close>

definition pmfs_find_region :: "vinode \<Rightarrow> u64 \<Rightarrow> bool \<Rightarrow> fs \<Rightarrow> ((errno + u64) \<times> u64) option" where
  "pmfs_find_region inode offset hole s = do {
     pi \<leftarrow> pmfs_get_inode s (i_ino inode);
     if pi = 0 then None
     else let i = rd_inode (mem s) pi; data_bits = blk_type_to_shift (pi_blk_type i)
          in if offset \<ge> i_size inode then Some (Inl ENXIO, offset)
             else if i_blocks inode = 0 \<or> pi_root i = 0 then
               Some (if hole then Inr (i_size inode) else Inl ENXIO, offset)
             else let offset_in_block = offset AND (push_bit data_bits 1 - 1)
                  in do {
                       (blocks, data_found, hole_found) \<leftarrow>
                         (if pi_height i = 0 then Some (0, True, False)
                          else do {
                            (b, d, f) \<leftarrow> recursive_find_region (unat (pi_height i)) (pi_root i)
                              (drop_bit data_bits offset) (drop_bit data_bits (i_size inode))
                              False False hole s;
                            Some (scast (ucast b :: u32), d, f) });
                       if \<not> hole \<and> \<not> data_found \<and> hole_found then Some (Inl ENXIO, offset)
                       else if data_found \<and> \<not> hole_found then
                         Some (Inr 0, if hole then i_size inode else offset)
                       else if hole \<and> hole_found \<and> blocks = 0 then
                         Some (Inr 0, if \<not> data_found then i_size inode else offset)
                       else if offset_in_block \<noteq> 0 then
                         Some (Inr 0, offset + push_bit data_bits (blocks - 1)
                                      + (push_bit data_bits 1 - offset_in_block))
                       else Some (Inr 0, offset + push_bit data_bits blocks)
                     } }"

section \<open>Truncation\<close>

definition is_empty_meta_block :: "mem \<Rightarrow> nat \<Rightarrow> nat \<Rightarrow> nat \<Rightarrow> bool" where
  "is_empty_meta_block m node start_idx end_idx =
     list_all (\<lambda>i. rd64 m (node + 8 * i) = 0) ([0..<start_idx] @ [Suc end_idx..<512])"

text \<open>The result is the number of freed data blocks, \<open>*meta_empty\<close> and the state.\<close>

primrec recursive_truncate_blocks ::
  "nat \<Rightarrow> u64 \<Rightarrow> u8 \<Rightarrow> u64 \<Rightarrow> u64 \<Rightarrow> fs \<Rightarrow> (u32 \<times> bool \<times> fs) option" where
  "recursive_truncate_blocks 0 = (\<lambda>block btype lo hi s. None)"
| "recursive_truncate_blocks (Suc h) = (\<lambda>block btype lo hi s.
     let node = pmfs_get_block s block;
         first_index = blk_index h lo;
         last_index = blk_index h hi;
         leaf = (\<lambda>i (freed, hint, s).
           let p = rd64 (mem s) (node + 8 * i)
           in if p = 0 then Some ((freed, hint, s), False)
              else do {
                (hint', s') \<leftarrow> raw_pmfs_free_block (pmfs_get_blocknr p) btype hint s;
                Some ((freed + 1, hint', s'), False)
              });
         inner = (\<lambda>i (freed, start, hi', all_range_freed, s).
           let p = rd64 (mem s) (node + 8 * i)
           in if p = 0 then Some ((freed, start, hi', all_range_freed, s), False)
              else do {
                (f, mpty, s1) \<leftarrow> recursive_truncate_blocks h p btype (first_blk h lo i)
                  (last_blk h hi i) s;
                if mpty then do {
                  s2 \<leftarrow> pmfs_free_block (pmfs_get_blocknr (rd64 (mem s1) (node + 8 * i))) PMFS_BLOCK_TYPE_4K s1;
                  Some ((freed + f, start, hi', all_range_freed, s2), False)
                }
                else if i = first_index then
                  Some ((freed + f, start + 1, hi', False, s1), False)
                else if i = last_index then
                  Some ((freed + f, start, hi' - 1, False, s1), False)
                else Some ((freed + f, start, hi', False, s1), False)
              })
     in if node = 0 then None
        else do {
          (freed, start, hi', all_range_freed, s') \<leftarrow>
            (if h = 0 then do {
               (freed, hint, s') \<leftarrow> for_loop leaf [first_index..<Suc last_index] (0, None, s);
               Some (freed, first_index, last_index, True, s')
             }
             else for_loop inner [first_index..<Suc last_index]
                    (0, first_index, last_index, True, s));
          if all_range_freed \<and> is_empty_meta_block (mem s') node first_index last_index
          then Some (freed, True, s')
          else Some (freed, False,
                 if start \<le> hi' then upd_mem (memset (node + 8 * start) 0 (8 * (hi' - start + 1))) s'
                 else s')
        })"

definition pmfs_free_inode_subtree :: "u64 \<Rightarrow> u8 \<Rightarrow> u8 \<Rightarrow> u64 \<Rightarrow> fs \<Rightarrow> (u32 \<times> fs) option" where
  "pmfs_free_inode_subtree root height btype last_blocknr s =
     (if root = 0 then Some (0, s)
      else if height = 0 then do {
        s' \<leftarrow> pmfs_free_block (pmfs_get_blocknr root) btype s;
        Some (1, s')
      }
      else do {
        (freed, mpty, s') \<leftarrow> recursive_truncate_blocks (unat height) root btype 0 last_blocknr s;
        if \<not> mpty then None
        else do {
          s'' \<leftarrow> pmfs_free_block (pmfs_get_blocknr root) PMFS_BLOCK_TYPE_4K s';
          Some (freed, s'')
        }
      })"

text \<open>The loop that counts how many levels a block number needs.\<close>

fun tree_height :: "nat \<Rightarrow> nat" where
  "tree_height n = (if n = 0 then 0 else Suc (tree_height (n div 2 ^ META_BLK_SHIFT)))"

declare tree_height.simps [simp del]

text \<open>The loop that frees the \<open>n\<close> topmost nodes of the tree.\<close>

fun decrease_loop :: "nat \<Rightarrow> u64 \<Rightarrow> fs \<Rightarrow> (u64 \<times> fs) option" where
  "decrease_loop 0 newroot s = Some (newroot, s)"
| "decrease_loop (Suc n) newroot s =
     (let root = pmfs_get_block s newroot
      in if root = 0 then None
         else do {
           s' \<leftarrow> pmfs_free_block (pmfs_get_blocknr newroot) PMFS_BLOCK_TYPE_4K s;
           decrease_loop n (rd64 (mem s) root) s'
         })"

definition pmfs_decrease_btree_height :: "nat \<Rightarrow> u64 \<Rightarrow> u64 \<Rightarrow> fs \<Rightarrow> fs option" where
  "pmfs_decrease_btree_height pi newsize newroot s =
     (let i = rd_inode (mem s) pi;
          height = unat (pi_height i);
          set_root = (\<lambda>new_height root. upd_mem (\<lambda>m. wr64 (pi + 8) root (wr8 (pi + 2) (of_nat new_height) m)))
      in if pi_blocks i = 0 \<or> newsize = 0 then
           if newroot \<noteq> 0 then None else Some (set_root 0 newroot s)
         else let last_blocknr = drop_bit (pmfs_inode_blk_shift s pi)
                    (newsize + ucast (pmfs_inode_blk_size s pi) - 1) - 1;
                  new_height = tree_height (unat last_blocknr)
              in if height = new_height then Some s
                 else do {
                   (root, s') \<leftarrow> decrease_loop (height - new_height) newroot s;
                   Some (set_root new_height root s')
                 })"

primrec pmfs_inode_count_iblocks_recursive :: "nat \<Rightarrow> u64 \<Rightarrow> fs \<Rightarrow> u64 option" where
  "pmfs_inode_count_iblocks_recursive 0 = (\<lambda>block s. Some 1)"
| "pmfs_inode_count_iblocks_recursive (Suc h) = (\<lambda>block s.
     let node = pmfs_get_block s block
     in if node = 0 then None
        else for_loop (\<lambda>i acc.
               let p = rd64 (mem s) (node + 8 * i)
               in if p = 0 then Some (acc, False)
                  else do { n \<leftarrow> pmfs_inode_count_iblocks_recursive h p s; Some (acc + n, False) })
             [0..<512] 0)"

definition pmfs_inode_count_iblocks :: "nat \<Rightarrow> u64 \<Rightarrow> fs \<Rightarrow> u64 option" where
  "pmfs_inode_count_iblocks pi root s =
     (if root = 0 then Some 0
      else do {
        n \<leftarrow> pmfs_inode_count_iblocks_recursive (unat (pi_height (rd_inode (mem s) pi))) root s;
        Some (push_bit (pmfs_inode_blk_shift s pi - s_blocksize_bits s) n)
      })"

definition pmfs_sparse_last_blocknr :: "u8 \<Rightarrow> u64 \<Rightarrow> u64" where
  "pmfs_sparse_last_blocknr height last_blocknr =
     (let limit = push_bit (unat height * META_BLK_SHIFT) 1
      in if last_blocknr \<ge> limit then limit - 1 else last_blocknr)"

definition raw_pmfs_truncate_blocks :: "u64 \<Rightarrow> u64 \<Rightarrow> vinode \<Rightarrow> fs \<Rightarrow> (vinode \<times> fs) option" where
  "raw_pmfs_truncate_blocks start end_off inode0 s = do {
     pi \<leftarrow> pmfs_get_inode s (i_ino inode0);
     if pi = 0 then None
     else
       let inode = inode0\<lparr>i_mtime := now s, i_ctime := now s\<rparr>;
           i = rd_inode (mem s) pi;
           data_bits = blk_type_to_shift (pi_blk_type i);
           set_times = (\<lambda>m. wr32 (pi + 24) (now s) (wr32 (pi + 28) (now s) m));
           first_blocknr = drop_bit data_bits (start + push_bit data_bits 1 - 1);
           eof = (pi_flags i AND PMFS_EOFBLOCKS_FL \<noteq> 0);
           last_blocknr = (if eof then push_bit (unat (pi_height i) * META_BLK_SHIFT) 1 - 1
                           else pmfs_sparse_last_blocknr (pi_height i) (drop_bit data_bits (end_off - 1)))
       in if pi_root i = 0 \<or> \<not> eof \<and> end_off = 0 \<or> first_blocknr > last_blocknr
          then Some (inode, upd_mem set_times s)
          else do {
            (freed, root, s1) \<leftarrow>
              (if pi_height i = 0 then do {
                 s1 \<leftarrow> pmfs_free_block (pmfs_get_blocknr (pi_root i)) (pi_blk_type i) s;
                 Some (1, 0, s1)
               }
               else do {
                 (freed, mpty, s1) \<leftarrow> recursive_truncate_blocks (unat (pi_height i)) (pi_root i)
                   (pi_blk_type i) first_blocknr last_blocknr s;
                 if mpty then do {
                   s2 \<leftarrow> pmfs_free_block (pmfs_get_blocknr (pi_root i)) PMFS_BLOCK_TYPE_4K s1;
                   Some (freed, 0, s2)
                 }
                 else Some (freed, pi_root i, s1)
               });
            n \<leftarrow> (if pmfs_is_mounting s1 then pmfs_inode_count_iblocks pi root s1
                 else Some (i_blocks inode
                        - ucast (freed * push_bit (data_bits - s_blocksize_bits s) (1 :: u32))));
            let s2 = upd_mem (\<lambda>m. set_times (wr64 (pi + 40) n m)) s1;
            s3 \<leftarrow> pmfs_decrease_btree_height pi start root s2;
            Some (inode\<lparr>i_blocks := n\<rparr>, check_eof_blocks pi (i_size inode) s3)
          } }"

definition pmfs_truncate_blocks :: "u64 \<Rightarrow> u64 \<Rightarrow> vinode \<Rightarrow> fs \<Rightarrow> (vinode \<times> fs) option" where
  "pmfs_truncate_blocks start end_off inode s = raw_pmfs_truncate_blocks start end_off inode s"

section \<open>Growing the tree\<close>

text \<open>The loop of \<open>pmfs_increase_btree_height\<close>, \<open>n\<close> levels to go: the error if any, the root and the
  height reached.\<close>

fun increase_loop :: "nat \<Rightarrow> u64 \<Rightarrow> nat \<Rightarrow> fs \<Rightarrow> ((errno + unit) \<times> u64 \<times> nat \<times> fs) option" where
  "increase_loop 0 prev_root height s = Some (Inr (), prev_root, height, s)"
| "increase_loop (Suc n) prev_root height s = do {
     (r, s1) \<leftarrow> pmfs_new_block PMFS_BLOCK_TYPE_4K True s;
     case r of
       Inl e \<Rightarrow> Some (Inl e, prev_root, height, s1)
     | Inr b \<Rightarrow>
         let blocknr = pmfs_get_block_off b; root = pmfs_get_block s1 blocknr
         in if root = 0 then None
            else increase_loop n blocknr (Suc height) (upd_mem (wr64 root prev_root) s1) }"

definition pmfs_increase_btree_height :: "nat \<Rightarrow> nat \<Rightarrow> fs \<Rightarrow> ((errno + unit) \<times> fs) option" where
  "pmfs_increase_btree_height pi new_height s =
     (let i = rd_inode (mem s) pi
      in do {
           (r, root, height, s1) \<leftarrow>
             increase_loop (new_height - unat (pi_height i)) (pi_root i) (unat (pi_height i)) s;
           Some (r, upd_mem (\<lambda>m. wr8 (pi + 2) (of_nat height) (wr64 (pi + 8) root m)) s1)
         })"

text \<open>One iteration of the loop of \<open>recursive_alloc_blocks\<close> at the leaves and above them. Loop state: the
  error if any, \<open>new_node\<close>, \<open>journal_saved\<close> and the file system. \<open>rec\<close> is the recursive call.\<close>

definition alloc_save ::
  "pmfs_transaction option \<Rightarrow> nat \<Rightarrow> nat \<Rightarrow> nat \<Rightarrow> bool \<Rightarrow> bool \<Rightarrow> fs \<Rightarrow> bool \<times> fs" where
  "alloc_save tr node last_index i new_node journal_saved s =
     (if \<not> new_node \<and> \<not> journal_saved
      then (True, snd (pmfs_add_logentry tr (node + 8 * i) (of_nat (8 * (last_index - i + 1))) 0 s))
      else (journal_saved, s))"

type_synonym alloc_state = "(errno + unit) \<times> bool \<times> bool \<times> fs"

definition alloc_leaf ::
  "pmfs_transaction option \<Rightarrow> nat \<Rightarrow> nat \<Rightarrow> nat \<Rightarrow> bool \<Rightarrow> nat \<Rightarrow> alloc_state \<Rightarrow> (alloc_state \<times> bool) option" where
  "alloc_leaf tr pi node last_index zero i = (\<lambda>(r, new_node, journal_saved, s).
     if rd64 (mem s) (node + 8 * i) = 0 then do {
       (b, s1) \<leftarrow> pmfs_new_data_block pi zero s;
       case b of
         Inl e \<Rightarrow>
           Some ((Inl e, new_node, journal_saved,
             upd_mem (\<lambda>m. wr32 (pi + 4) (pi_flags (rd_inode m pi) OR PMFS_EOFBLOCKS_FL) m) s1), True)
       | Inr blocknr \<Rightarrow>
           let (js, s2) = alloc_save tr node last_index i new_node journal_saved s1
           in Some ((r, new_node, js,
                upd_mem (wr64 (node + 8 * i) (pmfs_get_block_off blocknr)) s2), False)
     }
     else Some ((r, new_node, journal_saved, s), False))"

definition alloc_inner ::
  "(u64 \<Rightarrow> u64 \<Rightarrow> u64 \<Rightarrow> bool \<Rightarrow> fs \<Rightarrow> ((errno + unit) \<times> fs) option) \<Rightarrow> nat \<Rightarrow> u64 \<Rightarrow> u64 \<Rightarrow>
     pmfs_transaction option \<Rightarrow> nat \<Rightarrow> nat \<Rightarrow> alloc_state \<Rightarrow> (alloc_state \<times> bool) option" where
  "alloc_inner rec h lo hi tr node i = (\<lambda>(r, new_node, journal_saved, s). do {
     (e, new_node', js, s2) \<leftarrow>
       (if rd64 (mem s) (node + 8 * i) = 0 then do {
          (b, s1) \<leftarrow> pmfs_new_block PMFS_BLOCK_TYPE_4K True s;
          case b of
            Inl e \<Rightarrow> Some (Inl e, new_node, journal_saved, s1)
          | Inr blocknr \<Rightarrow>
              let (js, s2) = alloc_save tr node (blk_index h hi) i new_node journal_saved s1
              in Some (Inr (), True, js,
                   upd_mem (wr64 (node + 8 * i) (pmfs_get_block_off blocknr)) s2)
        }
        else Some (Inr (), new_node, journal_saved, s));
     case e of
       Inl err \<Rightarrow> Some ((Inl err, new_node', js, s2), True)
     | Inr _ \<Rightarrow> do {
         (r', s3) \<leftarrow> rec (rd64 (mem s2) (node + 8 * i)) (first_blk h lo i) (last_blk h hi i) new_node' s2;
         Some ((r', new_node', js, s3), r' \<noteq> Inr ())
       } })"

primrec recursive_alloc_blocks ::
  "nat \<Rightarrow> pmfs_transaction option \<Rightarrow> nat \<Rightarrow> bool \<Rightarrow> u64 \<Rightarrow> u64 \<Rightarrow> u64 \<Rightarrow> bool \<Rightarrow> fs
     \<Rightarrow> ((errno + unit) \<times> fs) option" where
  "recursive_alloc_blocks 0 = (\<lambda>tr pi zero block lo hi new_node s. None)"
| "recursive_alloc_blocks (Suc h) = (\<lambda>tr pi zero block lo hi new_node s.
     let node = pmfs_get_block s block; last_index = blk_index h hi
     in if node = 0 then None
        else do {
          (r, _, _, s') \<leftarrow> for_loop
            (if h = 0 then alloc_leaf tr pi node last_index zero
             else alloc_inner (recursive_alloc_blocks h tr pi zero) h lo hi tr node)
            [blk_index h lo..<Suc last_index] (Inr (), new_node, False, s);
          Some (r, s')
        })"

definition raw_pmfs_alloc_blocks ::
  "pmfs_transaction option \<Rightarrow> nat \<Rightarrow> u64 \<Rightarrow> u32 \<Rightarrow> bool \<Rightarrow> fs \<Rightarrow> ((errno + unit) \<times> fs) option" where
  "raw_pmfs_alloc_blocks tr pi file_blocknr num zero s =
     (let i = rd_inode (mem s) pi;
          blk_shift = blk_type_to_shift (pi_blk_type i) - s_blocksize_bits s;
          first_blocknr = drop_bit blk_shift file_blocknr;
          last_blocknr = drop_bit blk_shift (file_blocknr + ucast num - 1);
          tree_bits = unat (pi_height i) * META_BLK_SHIFT;
          max_blocks = push_bit tree_bits 1;
          grow = last_blocknr > max_blocks - 1;
          height = (if grow then unat (pi_height i) + tree_height (unat (drop_bit tree_bits last_blocknr))
                    else unat (pi_height i))
      in if grow \<and> height > 3 then Some (Inl ENOSPC, s)
         else if pi_root i = 0 then
           if height = 0 then do {
             (b, s1) \<leftarrow> pmfs_new_data_block pi zero s;
             case b of
               Inl e \<Rightarrow> Some (Inl e, s1)
             | Inr blocknr \<Rightarrow>
                 Some (Inr (), upd_mem (\<lambda>m. wr8 (pi + 2) (of_nat height)
                   (wr64 (pi + 8) (pmfs_get_block_off blocknr) m)) s1)
           }
           else do {
             (r, s1) \<leftarrow> pmfs_increase_btree_height pi height s;
             case r of
               Inl e \<Rightarrow> Some (Inl e, s1)
             | Inr _ \<Rightarrow>
                 let i1 = rd_inode (mem s1) pi
                 in recursive_alloc_blocks (unat (pi_height i1)) tr pi zero (pi_root i1)
                      first_blocknr last_blocknr True s1
           }
         else if height = 0 then Some (Inr (), s)
         else do {
           (r, s1) \<leftarrow> (if height > unat (pi_height i) then pmfs_increase_btree_height pi height s
                       else Some (Inr (), s));
           case r of
             Inl e \<Rightarrow> Some (Inl e, s1)
           | Inr _ \<Rightarrow> recursive_alloc_blocks height tr pi zero (pi_root (rd_inode (mem s1) pi))
                        first_blocknr last_blocknr False s1
         })"

definition pmfs_alloc_blocks ::
  "pmfs_transaction option \<Rightarrow> vinode \<Rightarrow> u64 \<Rightarrow> u32 \<Rightarrow> bool \<Rightarrow> fs
     \<Rightarrow> ((errno + unit) \<times> vinode \<times> fs) option" where
  "pmfs_alloc_blocks tr inode file_blocknr num zero s = do {
     pi \<leftarrow> pmfs_get_inode s (i_ino inode);
     if pi = 0 then None
     else do {
       (r, s') \<leftarrow> raw_pmfs_alloc_blocks tr pi file_blocknr num zero s;
       Some (r, inode\<lparr>i_blocks := pi_blocks (rd_inode (mem s') pi)\<rparr>, s')
     } }"

section \<open>The tree as a map\<close>

text \<open>The pointer at index \<open>i\<close> of a node, the blocks of a tree's nodes, well-formedness (aligned nodes,
  none reached twice) and the map from block numbers to pointers that a tree stands for.\<close>

definition child :: "mem \<Rightarrow> u64 \<Rightarrow> nat \<Rightarrow> u64" where
  "child m b i = rd64 m (unat b + 8 * i)"

primrec tree_meta :: "nat \<Rightarrow> mem \<Rightarrow> u64 \<Rightarrow> nat set" where
  "tree_meta 0 m b = {}"
| "tree_meta (Suc h) m b =
     (if b = 0 then {} else insert (unat b div 4096) (\<Union>i<512. tree_meta h m (child m b i)))"

primrec tree_wf :: "nat \<Rightarrow> mem \<Rightarrow> u64 \<Rightarrow> bool" where
  "tree_wf 0 m b \<longleftrightarrow> True"
| "tree_wf (Suc h) m b \<longleftrightarrow>
     b = 0 \<or> 4096 dvd unat b
       \<and> (\<forall>i<512. tree_wf h m (child m b i) \<and> unat b div 4096 \<notin> tree_meta h m (child m b i))
       \<and> (\<forall>i<512. \<forall>j<512. i \<noteq> j \<longrightarrow> tree_meta h m (child m b i) \<inter> tree_meta h m (child m b j) = {})"

primrec tree_look :: "nat \<Rightarrow> mem \<Rightarrow> u64 \<Rightarrow> nat \<Rightarrow> u64" where
  "tree_look 0 m b k = b"
| "tree_look (Suc h) m b k =
     (if b = 0 then 0 else tree_look h m (child m b (k div 512 ^ h)) (k mod 512 ^ h))"

lemma tree_look_0 [simp]: "tree_look h m 0 k = 0"
  by (cases h) auto

lemma tree_meta_0 [simp]: "tree_meta h m 0 = {}"
  by (cases h) auto

lemma tree_wf_0 [simp]: "tree_wf h m 0"
  by (cases h) auto

lemma page_slot: "4096 dvd n \<Longrightarrow> 8 * i + j < 4096 \<Longrightarrow> (n + 8 * i + j) div 4096 = n div 4096" for n :: nat
  by (auto elim!: dvdE)

lemma child_cong:
  assumes "4096 dvd unat b" "i < 512" "\<And>x. x div 4096 = unat b div 4096 \<Longrightarrow> m' x = m x"
  shows "child m' b i = child m b i"
  unfolding child_def
proof (rule rdw_cong)
  fix x assume "unat b + 8 * i \<le> x" "x < unat b + 8 * i + LENGTH(64) div 8"
  then have "x = unat b + 8 * i + (x - (unat b + 8 * i))" "x - (unat b + 8 * i) < 8" by auto
  then have "x div 4096 = unat b div 4096"
    using page_slot[OF assms(1), of i "x - (unat b + 8 * i)"] assms(2) by simp
  then show "m' x = m x" by (rule assms(3))
qed

text \<open>A tree depends on the blocks of its nodes only.\<close>

lemma tree_cong:
  assumes "tree_wf h m b" "\<And>x. x div 4096 \<in> tree_meta h m b \<Longrightarrow> m' x = m x"
  shows "tree_meta h m' b = tree_meta h m b \<and> tree_wf h m' b
    \<and> (\<forall>k<512 ^ h. tree_look h m' b k = tree_look h m b k)"
  using assms
proof (induction h arbitrary: b)
  case (Suc h)
  show ?case
  proof (cases "b = 0")
    case False
    have al: "4096 dvd unat b" and wf: "\<And>i. i < 512 \<Longrightarrow> tree_wf h m (child m b i)"
      using Suc.prems(1) False by auto
    have c: "child m' b i = child m b i" if "i < 512" for i
      by (rule child_cong[OF al that]) (use Suc.prems(2) False in auto)
    have ih: "tree_meta h m' (child m b i) = tree_meta h m (child m b i) \<and> tree_wf h m' (child m b i)
        \<and> (\<forall>k<512 ^ h. tree_look h m' (child m b i) k = tree_look h m (child m b i) k)" if "i < 512" for i
      by (rule Suc.IH[OF wf[OF that]]) (use Suc.prems(2) False that in auto)
    have "tree_look (Suc h) m' b k = tree_look (Suc h) m b k" if "k < 512 ^ Suc h" for k
    proof -
      have "k div 512 ^ h < 512" using that by (simp add: less_mult_imp_div_less)
      then show ?thesis using c ih by simp
    qed
    moreover have "tree_meta (Suc h) m' b = tree_meta (Suc h) m b" using c ih False by simp
    moreover have "tree_wf (Suc h) m' b" using Suc.prems(1) False c ih by simp
    ultimately show ?thesis by blast
  qed simp
qed simp

text \<open>The walk of \<open>__pmfs_find_data_block\<close> computes this map.\<close>

lemma unat_and_low: "unat (x AND (push_bit n 1 - 1) :: u64) = unat x mod 2 ^ n"
proof -
  have "(push_bit n 1 - 1 :: u64) = mask n" by (simp add: mask_eq_exp_minus_1 push_bit_eq_mult)
  then show ?thesis by (simp only: unat_and_mask)
qed

lemma pow_512: "(512::nat) ^ h = 2 ^ (h * 9)"
  using power_mult[of "2::nat" 9 h] by (simp add: mult.commute)

lemma unat_index:
  assumes "unat k < 512 ^ Suc h"
  shows "unat (ucast (drop_bit (h * 9) k :: u64) :: u32) = unat k div 512 ^ h" "unat k div 512 ^ h < 512"
proof -
  show lt: "unat k div 512 ^ h < 512" using assms by (simp add: less_mult_imp_div_less)
  have "unat (drop_bit (h * 9) k) = unat k div 512 ^ h"
    by (simp only: unat_drop_bit_div pow_512)
  then show "unat (ucast (drop_bit (h * 9) k) :: u32) = unat k div 512 ^ h"
    using lt by (subst unat_ucast_fits) auto
qed

lemma find_data_block_look:
  "unat k < 512 ^ h \<Longrightarrow> h = 0 \<or> b \<noteq> 0 \<Longrightarrow>
     find_data_block_loop s h b k = Some (tree_look h (mem s) b (unat k))"
proof (induction h arbitrary: b k)
  case (Suc h)
  note ix = unat_index[OF Suc.prems(1)]
  have b: "b \<noteq> 0" using Suc.prems(2) by simp
  have low: "unat (k AND (push_bit (h * 9) 1 - 1)) = unat k mod 512 ^ h"
    by (simp only: unat_and_low pow_512)
  let ?c = "child (mem s) b (unat k div 512 ^ h)"
  have "find_data_block_loop s h ?c (k AND (push_bit (h * 9) 1 - 1)) = Some (tree_look h (mem s) ?c (unat k mod 512 ^ h))"
    if "?c \<noteq> 0"
    using Suc.IH[of "k AND (push_bit (h * 9) 1 - 1)" ?c, unfolded low] that by simp
  then show ?case using b ix by (simp add: Let_def child_def unat_eq_0)
qed simp


section \<open>How allocation grows a tree\<close>

text \<open>The blocks behind a pointer, and the bytes of an inode that allocation may write (\<open>i_flags\<close> and
  \<open>i_blocks\<close>).\<close>

definition data_run :: "u8 \<Rightarrow> u64 \<Rightarrow> nat set" where
  "data_run bt p = block_run bt (pmfs_get_blocknr p)"

definition inode_bytes :: "nat \<Rightarrow> nat set" where
  "inode_bytes pi = {pi + 4..<pi + 8} \<union> {pi + 40..<pi + 48}"

definition tree_ctx :: "nat \<Rightarrow> nat \<Rightarrow> u64 \<Rightarrow> fs \<Rightarrow> bool" where
  "tree_ctx pi h b s \<longleftrightarrow>
     balloc_inv s \<and> tree_wf h (mem s) b \<and> tree_meta h (mem s) b \<subseteq> used_blocks s
     \<and> pi div 4096 \<in> used_blocks s \<and> pi div 4096 \<notin> tree_meta h (mem s) b \<and> pi mod 4096 \<le> 3968"

text \<open>
  \<open>tree_grow pi bt h b lo hi s s'\<close>: from \<open>s\<close> to \<open>s'\<close> the tree at \<open>b\<close> gained nodes and pointers for block
  numbers in \<open>[lo, hi]\<close>, made of blocks that were free and are apart from each other; pointers
  that were there stay; no other memory changed.
\<close>

definition new_in :: "nat \<Rightarrow> u64 \<Rightarrow> mem \<Rightarrow> mem \<Rightarrow> nat \<Rightarrow> bool" where
  "new_in h b m m' k \<longleftrightarrow> k < 512 ^ h \<and> tree_look h m b k = 0 \<and> tree_look h m' b k \<noteq> 0"

definition tree_grow :: "nat \<Rightarrow> u8 \<Rightarrow> nat \<Rightarrow> u64 \<Rightarrow> nat \<Rightarrow> nat \<Rightarrow> fs \<Rightarrow> fs \<Rightarrow> bool" where
  "tree_grow pi bt h b lo hi s s' \<longleftrightarrow>
     balloc_inv s' \<and> used_blocks s \<subseteq> used_blocks s' \<and> tree_wf h (mem s') b
     \<and> tree_meta h (mem s) b \<subseteq> tree_meta h (mem s') b
     \<and> tree_meta h (mem s') b \<subseteq> tree_meta h (mem s) b \<union> (used_blocks s' - used_blocks s)
     \<and> (\<forall>x. mem s' x \<noteq> mem s x \<longrightarrow>
          x div 4096 \<in> tree_meta h (mem s) b \<union> (used_blocks s' - used_blocks s) \<or> x \<in> inode_bytes pi)
     \<and> (\<forall>k<512 ^ h. tree_look h (mem s) b k \<noteq> 0 \<or> k < lo \<or> hi < k \<longrightarrow>
          tree_look h (mem s') b k = tree_look h (mem s) b k)
     \<and> (\<forall>k. new_in h b (mem s) (mem s') k \<longrightarrow>
          4096 dvd unat (tree_look h (mem s') b k) \<and> data_run bt (tree_look h (mem s') b k) \<subseteq> used_blocks s' - used_blocks s - tree_meta h (mem s') b)
     \<and> (\<forall>k k'. new_in h b (mem s) (mem s') k \<longrightarrow> new_in h b (mem s) (mem s') k' \<longrightarrow> k \<noteq> k' \<longrightarrow>
          data_run bt (tree_look h (mem s') b k) \<inter> data_run bt (tree_look h (mem s') b k') = {})"

lemma tree_growD:
  assumes "tree_grow pi bt h b lo hi s s'"
  shows "balloc_inv s'" "used_blocks s \<subseteq> used_blocks s'" "tree_wf h (mem s') b"
    and "tree_meta h (mem s) b \<subseteq> tree_meta h (mem s') b"
    and "tree_meta h (mem s') b \<subseteq> tree_meta h (mem s) b \<union> (used_blocks s' - used_blocks s)"
    and "mem s' x \<noteq> mem s x \<Longrightarrow>
          x div 4096 \<in> tree_meta h (mem s) b \<union> (used_blocks s' - used_blocks s) \<or> x \<in> inode_bytes pi"
    and "k < 512 ^ h \<Longrightarrow> tree_look h (mem s) b k \<noteq> 0 \<or> k < lo \<or> hi < k \<Longrightarrow>
          tree_look h (mem s') b k = tree_look h (mem s) b k"
    and "new_in h b (mem s) (mem s') k \<Longrightarrow>
          4096 dvd unat (tree_look h (mem s') b k) \<and> data_run bt (tree_look h (mem s') b k) \<subseteq> used_blocks s' - used_blocks s - tree_meta h (mem s') b"
    and "new_in h b (mem s) (mem s') k \<Longrightarrow> new_in h b (mem s) (mem s') k' \<Longrightarrow> k \<noteq> k' \<Longrightarrow>
          data_run bt (tree_look h (mem s') b k) \<inter> data_run bt (tree_look h (mem s') b k') = {}"
  using assms unfolding tree_grow_def by blast+

lemma tree_grow_refl: "tree_ctx pi h b s \<Longrightarrow> tree_grow pi bt h b lo hi s s"
  by (auto simp: tree_grow_def tree_ctx_def new_in_def)

lemma tree_grow_ctx:
  assumes "tree_ctx pi h b s" "tree_grow pi bt h b lo hi s s'"
  shows "tree_ctx pi h b s'"
  using assms(1) tree_growD(1-5)[OF assms(2)] unfolding tree_ctx_def by blast

text \<open>The inode's block type is among the bytes that stay.\<close>

lemma inode_page:
  assumes "pi mod 4096 \<le> 3968" "j < 128"
  shows "(pi + j) div 4096 = pi div (4096::nat)"
proof -
  define q r where "q = pi div 4096" and "r = pi mod 4096"
  have "pi + j = (r + j) + q * 4096" by (simp add: q_def r_def)
  then have "(pi + j) div 4096 = q + (r + j) div 4096" by (simp only: div_mult_self1)
  moreover have "(r + j) div 4096 = 0" using assms by (simp add: r_def)
  ultimately show ?thesis by (simp add: q_def)
qed

lemma tree_grow_blk_type:
  assumes "tree_ctx pi h b s" "tree_grow pi bt h b lo hi s s'"
  shows "pi_blk_type (rd_inode (mem s') pi) = pi_blk_type (rd_inode (mem s) pi)"
proof -
  have "mem s' (pi + 3) = mem s (pi + 3)"
  proof (rule ccontr)
    assume "mem s' (pi + 3) \<noteq> mem s (pi + 3)"
    from tree_growD(6)[OF assms(2) this] show False
      using assms(1) inode_page[of pi 3] by (auto simp: tree_ctx_def inode_bytes_def)
  qed
  then have "rd8 (mem s') (pi + 3) = rd8 (mem s) (pi + 3)"
    by (simp add: rdw_def)
  then show ?thesis by (simp add: rd_inode_def)
qed

lemma tree_grow_trans:
  assumes "tree_grow pi bt h b lo hi s s'" "tree_grow pi bt h b lo hi s' s''"
  shows "tree_grow pi bt h b lo hi s s''"
proof -
  note 1 = tree_growD[OF assms(1)] and 2 = tree_growD[OF assms(2)]
  have split: "new_in h b (mem s) (mem s') k \<and> tree_look h (mem s'') b k = tree_look h (mem s') b k
      \<or> new_in h b (mem s') (mem s'') k" if "new_in h b (mem s) (mem s'') k" for k
    using that 2(7)[of k] by (auto simp: new_in_def)
  have d1: "4096 dvd unat (tree_look h (mem s') b k) \<and> data_run bt (tree_look h (mem s') b k) \<subseteq> used_blocks s' - used_blocks s - tree_meta h (mem s'') b"
    if "new_in h b (mem s) (mem s') k" for k
    using 1(8)[OF that] 2(5) by blast
  have d2: "4096 dvd unat (tree_look h (mem s'') b k) \<and> data_run bt (tree_look h (mem s'') b k) \<subseteq> used_blocks s'' - used_blocks s' - tree_meta h (mem s'') b"
    if "new_in h b (mem s') (mem s'') k" for k
    using 2(8)[OF that] by blast
  have look: "tree_look h (mem s'') b k = tree_look h (mem s) b k"
    if "k < 512 ^ h" "tree_look h (mem s) b k \<noteq> 0 \<or> k < lo \<or> hi < k" for k
    using 1(7)[OF that] 2(7)[OF that(1)] that(2) by force
  have mm: "x div 4096 \<in> tree_meta h (mem s) b \<union> (used_blocks s'' - used_blocks s) \<or> x \<in> inode_bytes pi"
    if "mem s'' x \<noteq> mem s x" for x
  proof (cases "mem s' x = mem s x")
    case True
    then show ?thesis using 2(6)[of x] that 1(2,5) 2(2) by auto
  next
    case False
    then show ?thesis using 1(6)[of x] 2(2) by auto
  qed
  have f: "4096 dvd unat (tree_look h (mem s'') b k) \<and> data_run bt (tree_look h (mem s'') b k) \<subseteq> used_blocks s'' - used_blocks s - tree_meta h (mem s'') b"
    if "new_in h b (mem s) (mem s'') k" for k
    using split[OF that] d1[of k] d2[of k] 1(2) 2(2) by (elim disjE) auto
  have dd: "data_run bt (tree_look h (mem s'') b k) \<inter> data_run bt (tree_look h (mem s'') b k') = {}"
    if "new_in h b (mem s) (mem s'') k" "new_in h b (mem s) (mem s'') k'" "k \<noteq> k'" for k k'
    using split[OF that(1)] split[OF that(2)]
  proof (elim disjE conjE)
    assume n: "new_in h b (mem s) (mem s') k" "new_in h b (mem s) (mem s') k'"
      and e: "tree_look h (mem s'') b k = tree_look h (mem s') b k" "tree_look h (mem s'') b k' = tree_look h (mem s') b k'"
    show ?thesis using 1(9)[OF n that(3)] e by simp
  next
    assume n: "new_in h b (mem s) (mem s') k" "new_in h b (mem s') (mem s'') k'"
      and e: "tree_look h (mem s'') b k = tree_look h (mem s') b k"
    show ?thesis using d1[OF n(1)] d2[OF n(2)] e by auto
  next
    assume n: "new_in h b (mem s') (mem s'') k" "new_in h b (mem s) (mem s') k'"
      and e: "tree_look h (mem s'') b k' = tree_look h (mem s') b k'"
    show ?thesis using d1[OF n(2)] d2[OF n(1)] e by auto
  next
    assume n: "new_in h b (mem s') (mem s'') k" "new_in h b (mem s') (mem s'') k'"
    show ?thesis by (rule 2(9)[OF n that(3)])
  qed
  show ?thesis
    unfolding tree_grow_def using 2(1,3) 1(2,4,5) 2(2,4,5) mm look f dd by blast
qed


text \<open>Growth of the child at index \<open>i\<close> is growth of the tree.\<close>

lemma tree_look_Suc:
  "b \<noteq> 0 \<Longrightarrow> tree_look (Suc h) m b k = tree_look h m (child m b (k div 512 ^ h)) (k mod 512 ^ h)"
  by simp

lemma tree_ctx_child:
  assumes "tree_ctx pi (Suc h) b s" "b \<noteq> 0" "i < 512"
  shows "tree_ctx pi h (child (mem s) b i) s"
  using assms by (auto simp: tree_ctx_def)

lemma tree_grow_child:
  assumes ctx: "tree_ctx pi (Suc h) b s" and b: "b \<noteq> 0" and i: "i < 512"
    and g: "tree_grow pi bt h (child (mem s) b i) lo' hi' s s'"
    and rng: "\<And>k. k < 512 ^ h \<Longrightarrow> lo' \<le> k \<Longrightarrow> k \<le> hi' \<Longrightarrow> lo \<le> i * 512 ^ h + k \<and> i * 512 ^ h + k \<le> hi"
  shows "tree_grow pi bt (Suc h) b lo hi s s'" "child (mem s') b j = child (mem s) b j \<or> 512 \<le> j"
proof -
  define c m m' where "c = (\<lambda>j. child (mem s) b j)" and "m = mem s" and "m' = mem s'"
  note gd = tree_growD[OF g, folded c_def m_def m'_def]
  have wf: "tree_wf (Suc h) m b" and mu: "tree_meta (Suc h) m b \<subseteq> used_blocks s" and pu: "pi div 4096 \<in> used_blocks s"
    and pn: "pi div 4096 \<notin> tree_meta (Suc h) m b" and pm: "pi mod 4096 \<le> 3968"
    using ctx by (auto simp: tree_ctx_def m_def)
  have al: "4096 dvd unat b" and wfj: "\<And>j. j < 512 \<Longrightarrow> tree_wf h m (c j)"
    and nb: "\<And>j. j < 512 \<Longrightarrow> unat b div 4096 \<notin> tree_meta h m (c j)"
    and dj: "\<And>j k. j < 512 \<Longrightarrow> k < 512 \<Longrightarrow> j \<noteq> k \<Longrightarrow> tree_meta h m (c j) \<inter> tree_meta h m (c k) = {}"
    using wf b by (auto simp: c_def m_def)
  have meta: "tree_meta (Suc h) m b = insert (unat b div 4096) (\<Union>j<512. tree_meta h m (c j))"
    using b by (simp add: c_def m_def)
  have keep: "m' x = m x" if "x div 4096 \<in> tree_meta (Suc h) m b" "x div 4096 \<notin> tree_meta h m (c i)" for x
  proof (rule ccontr)
    assume "m' x \<noteq> m x"
    then have "x \<in> inode_bytes pi" using gd(6)[of x] that mu by auto
    then have "x div 4096 = pi div 4096"
      using inode_page[OF pm, of "x - pi"] by (auto simp: inode_bytes_def)
    then show False using pn that(1) by simp
  qed
  have ch: "child m' b j = c j" if "j < 512" for j
    unfolding c_def m_def[symmetric]
    by (rule child_cong[OF al that], rule keep) (use nb[OF i] meta in auto)
  have other: "tree_meta h m' (c j) = tree_meta h m (c j) \<and> tree_wf h m' (c j)
      \<and> (\<forall>k<512 ^ h. tree_look h m' (c j) k = tree_look h m (c j) k)" if "j < 512" "j \<noteq> i" for j
    by (rule tree_cong[OF wfj[OF that(1)]], rule keep) (use that dj[OF that(1) i that(2)] meta in auto)
  have meta': "tree_meta (Suc h) m' b = insert (unat b div 4096) (\<Union>j<512. tree_meta h m' (c j))"
    using b ch by simp
  have sub: "tree_meta h m' (c j) \<subseteq> tree_meta h m (c j) \<union> (used_blocks s' - used_blocks s)"
    and sup: "tree_meta h m (c j) \<subseteq> tree_meta h m' (c j)" if "j < 512" for j
    using other[OF that] gd(4,5) by (cases "j = i"; blast)+
  have used: "tree_meta h m (c j) \<subseteq> used_blocks s" "unat b div 4096 \<in> used_blocks s" if "j < 512" for j
    using mu meta that by auto
  have wf': "tree_wf (Suc h) m' b"
  proof -
    have "tree_wf h m' (c j) \<and> unat b div 4096 \<notin> tree_meta h m' (c j)" if "j < 512" for j
      using other[OF that] gd(3) nb[OF that] sub[OF that] used[OF that] by (cases "j = i") auto
    moreover have "tree_meta h m' (c j) \<inter> tree_meta h m' (c k) = {}" if "j < 512" "k < 512" "j \<noteq> k" for j k
    proof -
      have "tree_meta h m' (c j) = tree_meta h m (c j) \<or> tree_meta h m' (c k) = tree_meta h m (c k)"
        using other[of j] other[of k] that by blast
      then show ?thesis
        using dj[OF that] sub[OF that(1)] sub[OF that(2)] used(1)[OF that(1)] used(1)[OF that(2)]
        by (elim disjE) blast+
    qed
    ultimately show ?thesis using al ch by simp
  qed
  have ltk: "k div 512 ^ h < 512" if "k < 512 ^ Suc h" for k :: nat
    using that by (simp add: less_mult_imp_div_less)
  have lkm: "tree_look (Suc h) m b k = tree_look h m (c (k div 512 ^ h)) (k mod 512 ^ h)" for k
    using b by (simp add: c_def m_def)
  have lkm': "tree_look (Suc h) m' b k = tree_look h m' (c (k div 512 ^ h)) (k mod 512 ^ h)" if "k < 512 ^ Suc h" for k
    using b ch[OF ltk[OF that]] by simp
  have same: "tree_look (Suc h) m' b k = tree_look (Suc h) m b k"
    if "k < 512 ^ Suc h" "k div 512 ^ h \<noteq> i" for k
    unfolding lkm lkm'[OF that(1)] using other[OF ltk[OF that(1)] that(2)] by simp
  have new: "k div 512 ^ h = i \<and> new_in h (c i) m m' (k mod 512 ^ h)
      \<and> tree_look (Suc h) m' b k = tree_look h m' (c i) (k mod 512 ^ h)"
    if "new_in (Suc h) b m m' k" for k
  proof -
    have k: "k < 512 ^ Suc h" using that by (simp add: new_in_def del: power_Suc)
    have "k div 512 ^ h = i" using that same[OF k] unfolding new_in_def by argo
    then show ?thesis using that lkm[of k] lkm'[OF k] by (simp add: new_in_def del: tree_look.simps)
  qed
  have look: "tree_look (Suc h) m' b k = tree_look (Suc h) m b k"
    if k: "k < 512 ^ Suc h" "tree_look (Suc h) m b k \<noteq> 0 \<or> k < lo \<or> hi < k" for k
  proof (cases "k div 512 ^ h = i")
    case True
    have "i * 512 ^ h + k mod 512 ^ h = k" using True by (metis div_mult_mod_eq)
    then have "tree_look h m (c i) (k mod 512 ^ h) \<noteq> 0 \<or> k mod 512 ^ h < lo' \<or> hi' < k mod 512 ^ h"
      using k(2) rng[of "k mod 512 ^ h"] unfolding lkm True by (metis mod_less_divisor not_less zero_less_numeral zero_less_power)
    then show ?thesis using gd(7)[of "k mod 512 ^ h"] unfolding lkm lkm'[OF k(1)] True by simp
  qed (use same k(1) in blast)
  have fr: "x div 4096 \<in> tree_meta (Suc h) m b \<union> (used_blocks s' - used_blocks s) \<or> x \<in> inode_bytes pi"
    if "m' x \<noteq> m x" for x
    using gd(6)[OF that] meta i by auto
  have d1: "4096 dvd unat (tree_look (Suc h) m' b k) \<and> data_run bt (tree_look (Suc h) m' b k) \<subseteq> used_blocks s' - used_blocks s - tree_meta (Suc h) m' b"
    if "new_in (Suc h) b m m' k" for k
  proof -
    have r: "4096 dvd unat (tree_look (Suc h) m' b k) \<and> data_run bt (tree_look (Suc h) m' b k) \<subseteq> used_blocks s' - used_blocks s - tree_meta h m' (c i)"
      using new[OF that] gd(8)[of "k mod 512 ^ h"] by (simp del: tree_look.simps)
    have "tree_meta h m' (c j) \<subseteq> used_blocks s" if "j < 512" "j \<noteq> i" for j
      using other[OF that] used[OF that(1)] by simp
    then show ?thesis using r used(2)[OF i] unfolding meta' by fastforce
  qed
  have d2: "data_run bt (tree_look (Suc h) m' b k) \<inter> data_run bt (tree_look (Suc h) m' b k') = {}"
    if "new_in (Suc h) b m m' k" "new_in (Suc h) b m m' k'" "k \<noteq> k'" for k k'
  proof -
    have "k mod 512 ^ h \<noteq> k' mod 512 ^ h"
      using new[OF that(1)] new[OF that(2)] that(3) by (metis div_mult_mod_eq)
    then show ?thesis
      using new[OF that(1)] new[OF that(2)] gd(9)[of "k mod 512 ^ h" "k' mod 512 ^ h"] by (simp del: tree_look.simps)
  qed
  have "tree_meta (Suc h) m b \<subseteq> tree_meta (Suc h) m' b"
    "tree_meta (Suc h) m' b \<subseteq> tree_meta (Suc h) m b \<union> (used_blocks s' - used_blocks s)"
    unfolding meta meta' using sub sup by fastforce+
  then show "tree_grow pi bt (Suc h) b lo hi s s'"
    unfolding tree_grow_def m_def[symmetric] m'_def[symmetric]
    using gd(1,2) wf' fr look d1 d2 by blast
  show "child (mem s') b j = child (mem s) b j \<or> 512 \<le> j"
    using ch[of j] by (auto simp: c_def m'_def)
qed

lemma balloc_inv_upd_mem [simp]: "balloc_inv (s\<lparr>mem := m\<rparr>) = balloc_inv s"
  by (simp add: balloc_inv_def)

lemma used_blocks_upd_mem [simp]: "used_blocks (s\<lparr>mem := m\<rparr>) = used_blocks s"
  by (simp add: used_blocks_def)

text \<open>Nothing but the inode's own bytes changed.\<close>

lemma tree_grow_same:
  assumes ctx: "tree_ctx pi h b s" and inv: "balloc_inv s'" and u: "used_blocks s' = used_blocks s"
    and m: "\<And>x. mem s' x \<noteq> mem s x \<Longrightarrow> x \<in> inode_bytes pi"
  shows "tree_grow pi bt h b lo hi s s'"
proof -
  have keep: "mem s' x = mem s x" if "x div 4096 \<in> tree_meta h (mem s) b" for x
  proof (rule ccontr)
    assume "mem s' x \<noteq> mem s x"
    then have "x \<in> inode_bytes pi" by (rule m)
    then have "x div 4096 = pi div 4096"
      using inode_page[of pi "x - pi"] ctx by (auto simp: inode_bytes_def tree_ctx_def)
    then show False using ctx that by (simp add: tree_ctx_def)
  qed
  have "tree_meta h (mem s') b = tree_meta h (mem s) b \<and> tree_wf h (mem s') b
    \<and> (\<forall>k<512 ^ h. tree_look h (mem s') b k = tree_look h (mem s) b k)"
    by (rule tree_cong) (use ctx keep in \<open>auto simp: tree_ctx_def\<close>)
  then show ?thesis using inv u m by (auto simp: tree_grow_def new_in_def)
qed

text \<open>Filling the empty slot \<open>i\<close> of a node with a pointer \<open>p\<close> into the freshly allocated blocks \<open>R\<close>.\<close>

lemma child_write:
  assumes "4096 dvd unat b" "i < 512" "j < 512"
  shows "child (wr64 (unat b + 8 * i) p m) b j = (if j = i then p else child m b j)"
  using assms by (cases "j < i"; cases "j = i") (auto simp: child_def)

lemma tree_grow_slot:
  assumes ctx: "tree_ctx pi (Suc h) b s" and b: "b \<noteq> 0" and i: "i < 512" and z: "child (mem s) b i = 0"
    and inv: "balloc_inv s1" and us: "used_blocks s1 = used_blocks s \<union> R" "R \<inter> used_blocks s = {}"
    and fr: "\<And>x. mem s1 x \<noteq> mem s x \<Longrightarrow> x div 4096 \<in> R \<or> x \<in> inode_bytes pi"
    and s2: "s2 = upd_mem (wr64 (unat b + 8 * i) p) s1"
    and wfp: "tree_wf h (mem s2) p" and mp: "tree_meta h (mem s2) p \<subseteq> R"
    and lp: "(\<forall>k<512 ^ h. tree_look h (mem s2) p k = 0)
      \<or> h = 0 \<and> 4096 dvd unat p \<and> data_run bt p \<subseteq> R \<and> lo \<le> i \<and> i \<le> hi"
  shows "tree_grow pi bt (Suc h) b lo hi s s2" "child (mem s2) b i = p"
proof -
  define c m m2 where "c = (\<lambda>j. child (mem s) b j)" and "m = mem s" and "m2 = mem s2"
  have wf: "tree_wf (Suc h) m b" and mu: "tree_meta (Suc h) m b \<subseteq> used_blocks s" and pu: "pi div 4096 \<in> used_blocks s"
    and pn: "pi div 4096 \<notin> tree_meta (Suc h) m b" and pm: "pi mod 4096 \<le> 3968"
    using ctx by (auto simp: tree_ctx_def m_def)
  have al: "4096 dvd unat b" and wfj: "\<And>j. j < 512 \<Longrightarrow> tree_wf h m (c j)"
    and nb: "\<And>j. j < 512 \<Longrightarrow> unat b div 4096 \<notin> tree_meta h m (c j)"
    and dj: "\<And>j k. j < 512 \<Longrightarrow> k < 512 \<Longrightarrow> j \<noteq> k \<Longrightarrow> tree_meta h m (c j) \<inter> tree_meta h m (c k) = {}"
    using wf b by (auto simp: c_def m_def)
  have meta: "tree_meta (Suc h) m b = insert (unat b div 4096) (\<Union>j<512. tree_meta h m (c j))"
    using b by (simp add: c_def m_def)
  have keep1: "mem s1 x = m x" if "x div 4096 \<in> tree_meta (Suc h) m b" for x
  proof (rule ccontr)
    assume "mem s1 x \<noteq> m x"
    then have "x \<in> inode_bytes pi" using fr[of x] that mu us(2) by (auto simp: m_def)
    then have "x div 4096 = pi div 4096"
      using inode_page[OF pm, of "x - pi"] by (auto simp: inode_bytes_def)
    then show False using pn that by simp
  qed
  have slot: "m2 x = mem s1 x" if "x div 4096 \<noteq> unat b div 4096" for x
  proof (rule ccontr)
    assume "m2 x \<noteq> mem s1 x"
    then have x: "unat b + 8 * i \<le> x" "x < unat b + 8 * i + 8"
      using wrw_changed[of "unat b + 8 * i" p "mem s1" x] by (auto simp: m2_def s2)
    then have "x = unat b + 8 * i + (x - (unat b + 8 * i))" "8 * i + (x - (unat b + 8 * i)) < 4096"
      using i by linarith+
    then show False using page_slot[OF al] that by metis
  qed
  have ch: "child m2 b j = (if j = i then p else c j)" if "j < 512" for j
  proof -
    have "child (mem s1) b j = c j"
      unfolding c_def m_def[symmetric] by (rule child_cong[OF al that], rule keep1) (simp add: b)
    then show ?thesis using child_write[OF al i that, of p "mem s1"] by (simp add: m2_def s2)
  qed
  have keep: "m2 x = m x" if "x div 4096 \<in> tree_meta h m (c j)" "j < 512" for x j
  proof -
    have "x div 4096 \<noteq> unat b div 4096" using that nb by metis
    moreover have "x div 4096 \<in> tree_meta (Suc h) m b" unfolding meta using that by blast
    ultimately show ?thesis using slot keep1 by simp
  qed
  have other: "tree_meta h m2 (c j) = tree_meta h m (c j) \<and> tree_wf h m2 (c j)
      \<and> (\<forall>k<512 ^ h. tree_look h m2 (c j) k = tree_look h m (c j) k)" if "j < 512" for j
    by (rule tree_cong[OF wfj[OF that]], rule keep) (use that in auto)
  have meta2: "tree_meta (Suc h) m2 b =
      insert (unat b div 4096) ((\<Union>j\<in>{..<512} - {i}. tree_meta h m (c j)) \<union> tree_meta h m2 p)"
  proof -
    have "(\<Union>j<512. tree_meta h m2 (child m2 b j)) =
        tree_meta h m2 (child m2 b i) \<union> (\<Union>j\<in>{..<512} - {i}. tree_meta h m2 (child m2 b j))"
      using i by blast
    moreover have "(\<Union>j\<in>{..<512} - {i}. tree_meta h m2 (child m2 b j)) = (\<Union>j\<in>{..<512} - {i}. tree_meta h m (c j))"
      by (rule SUP_cong[OF refl]) (use ch other in auto)
    ultimately show ?thesis using b ch[OF i] by (simp add: Un_commute)
  qed
  have ci: "c i = 0" using z by (simp add: c_def)
  have meta_i: "tree_meta (Suc h) m b = insert (unat b div 4096) (\<Union>j\<in>{..<512} - {i}. tree_meta h m (c j))"
  proof -
    have "(\<Union>j<512. tree_meta h m (c j)) = tree_meta h m (c i) \<union> (\<Union>j\<in>{..<512} - {i}. tree_meta h m (c j))"
      using i by blast
    then show ?thesis unfolding meta using ci by simp
  qed
  have mp': "tree_meta h m2 p \<subseteq> R" using mp by (simp add: m2_def)
  have mju: "tree_meta h m (c j) \<subseteq> used_blocks s" "unat b div 4096 \<in> used_blocks s" if "j < 512" for j
    using mu meta that by auto
  have wf2: "tree_wf (Suc h) m2 b"
  proof -
    have "tree_wf h m2 (child m2 b j) \<and> unat b div 4096 \<notin> tree_meta h m2 (child m2 b j)" if "j < 512" for j
      using other[OF that] nb[OF that] ch[OF that] wfp mp' us(2) mju[OF that] by (auto simp: m2_def)
    moreover have "tree_meta h m2 (child m2 b j) \<inter> tree_meta h m2 (child m2 b k) = {}" if "j < 512" "k < 512" "j \<noteq> k" for j k
      using other[OF that(1)] other[OF that(2)] dj[OF that] ch[OF that(1)] ch[OF that(2)] that(3) mp' us(2)
        mju(1)[OF that(1)] mju(1)[OF that(2)] by (cases "j = i"; cases "k = i") auto
    ultimately show ?thesis using al by simp
  qed
  have ltk: "k div 512 ^ h < 512" if "k < 512 ^ Suc h" for k :: nat
    using that by (simp add: less_mult_imp_div_less)
  have look: "tree_look (Suc h) m2 b k =
      (if k div 512 ^ h = i then tree_look h m2 p (k mod 512 ^ h) else tree_look (Suc h) m b k)" if "k < 512 ^ Suc h" for k
    using b ch[OF ltk[OF that]] other[OF ltk[OF that]] by (simp add: c_def m_def)
  have look0: "tree_look (Suc h) m b k = 0" if "k div 512 ^ h = i" for k
    using b that ci by (simp add: c_def m_def)
  have new: "k = i \<and> h = 0 \<and> tree_look (Suc h) m2 b k = p" if "new_in (Suc h) b m m2 k" for k
  proof -
    have k: "k < 512 ^ Suc h" using that by (simp add: new_in_def del: power_Suc)
    have "k div 512 ^ h = i" using that look[OF k] unfolding new_in_def by argo
    moreover from this have "h = 0" using that look[OF k] lp unfolding new_in_def m2_def[symmetric]
      by (metis mod_less_divisor zero_less_numeral zero_less_power)
    ultimately show ?thesis using look[OF k] by simp
  qed
  have lh: "tree_look (Suc h) m2 b k = tree_look (Suc h) m b k"
    if k: "k < 512 ^ Suc h" "tree_look (Suc h) m b k \<noteq> 0 \<or> k < lo \<or> hi < k" for k
  proof (cases "k div 512 ^ h = i")
    case True
    then have "tree_look h m2 p (k mod 512 ^ h) = 0"
      using lp k(2) look0[OF True] by (auto simp: m2_def)
    then show ?thesis using look[OF k(1)] look0[OF True] True by simp
  qed (use look[OF k(1)] in simp)
  have run: "4096 dvd unat p \<and> data_run bt p \<subseteq> R" if "h = 0" "p \<noteq> 0" using lp that by auto
  have d1: "4096 dvd unat (tree_look (Suc h) m2 b k) \<and> data_run bt (tree_look (Suc h) m2 b k) \<subseteq> used_blocks s1 - used_blocks s - tree_meta (Suc h) m2 b"
    if "new_in (Suc h) b m m2 k" for k
  proof -
    have "p \<noteq> 0" using new[OF that] that by (auto simp: new_in_def)
    then have "4096 dvd unat p \<and> data_run bt p \<subseteq> R" "tree_meta (Suc h) m2 b = {unat b div 4096}"
      using run new[OF that] meta2 by auto
    then show ?thesis using new[OF that] us mju(2)[OF i] by auto
  qed
  have fr2: "x div 4096 \<in> tree_meta (Suc h) m b \<union> (used_blocks s1 - used_blocks s) \<or> x \<in> inode_bytes pi"
    if "m2 x \<noteq> m x" for x
  proof (cases "x div 4096 = unat b div 4096")
    case False
    then show ?thesis using slot[OF False] fr[of x] that us by (auto simp: m_def)
  qed (simp add: b)
  have "tree_meta (Suc h) m b \<subseteq> tree_meta (Suc h) m2 b"
    "tree_meta (Suc h) m2 b \<subseteq> tree_meta (Suc h) m b \<union> (used_blocks s1 - used_blocks s)"
    unfolding meta2 meta_i using mp' us by auto
  moreover have "balloc_inv s2" "used_blocks s2 = used_blocks s1" using inv by (simp_all add: s2)
  ultimately show "tree_grow pi bt (Suc h) b lo hi s s2"
    unfolding tree_grow_def m_def[symmetric] m2_def[symmetric]
    using us(1) wf2 fr2 lh d1 new by blast
  show "child (mem s2) b i = p" using ch[OF i] by (simp add: m2_def)
qed

section \<open>Allocation in a tree\<close>

lemma pmfs_new_block_pos:
  assumes "balloc_inv s" "pmfs_new_block bt zero s = Some (Inr b, s')"
  shows "0 < unat b" "unat b < 2 ^ 52"
  using pmfs_new_block_Inr(3)[OF assms] assms(1) by (auto simp: fits_def balloc_inv_def)

lemma blocknr_of_off: "unat b < 2 ^ 52 \<Longrightarrow> pmfs_get_blocknr (pmfs_get_block_off b) = b"
  by (simp add: word_unat_eq_iff pmfs_get_blocknr_def unat_drop_bit_div unat_block_off)

text \<open>The disjoint union that a successful allocation makes, and its effect on memory.\<close>

lemma pmfs_new_block_facts:
  assumes "balloc_inv s" "pmfs_new_block bt zero s = Some (Inr b, s')"
  shows "balloc_inv s'" "used_blocks s' = used_blocks s \<union> block_run bt b" "block_run bt b \<inter> used_blocks s = {}"
    and "mem s' x \<noteq> mem s x \<Longrightarrow> x div 4096 \<in> block_run bt b"
    and "zero \<Longrightarrow> x div 4096 \<in> block_run bt b \<Longrightarrow> mem s' x = 0"
  using pmfs_new_block_Inr(1,2)[OF assms] fits_free[OF pmfs_new_block_Inr(3)[OF assms]] pmfs_new_block_Inr(6)[OF assms]
  by (auto simp: block_run_def used_blocks_def bytes_of_def split: if_splits)

lemma grow_new_meta:
  assumes ctx: "tree_ctx pi (Suc (Suc h)) b s" and b: "b \<noteq> 0" and i: "i < 512" and z: "child (mem s) b i = 0"
    and n: "pmfs_new_block 0 True s = Some (Inr B, s1)"
    and s2: "s2 = upd_mem (wr64 (unat b + 8 * i) (pmfs_get_block_off B)) s1"
  shows "tree_grow pi bt (Suc (Suc h)) b lo hi s s2"
    and "child (mem s2) b i = pmfs_get_block_off B" "pmfs_get_block_off B \<noteq> 0"
proof -
  have inv: "balloc_inv s" using ctx by (simp add: tree_ctx_def)
  note f = pmfs_new_block_facts[OF inv n] and pos = pmfs_new_block_pos[OF inv n]
  let ?p = "pmfs_get_block_off B"
  have p: "unat ?p = unat B * 4096" using unat_block_off[OF pos(2)] by simp
  then show p0: "?p \<noteq> 0" using pos by (auto simp: word_unat_eq_iff)
  have run: "block_run 0 B = {unat B}" by (simp add: block_run_def pmfs_get_numblocks_def)
  have "unat b div 4096 \<in> used_blocks s" using ctx b by (auto simp: tree_ctx_def)
  then have bB: "unat b div 4096 \<noteq> unat B" using f(3) by (auto simp: run)
  have al: "4096 dvd unat b" using ctx b by (simp add: tree_ctx_def)
  have zero: "mem s2 x = 0" if "x div 4096 = unat B" for x
  proof -
    have "mem s2 x = mem s1 x"
    proof (rule ccontr)
      assume "mem s2 x \<noteq> mem s1 x"
      then have x: "unat b + 8 * i \<le> x" "x < unat b + 8 * i + 8"
        using wrw_changed[of "unat b + 8 * i" ?p "mem s1" x] by (auto simp: s2)
      then have "x = unat b + 8 * i + (x - (unat b + 8 * i))" "8 * i + (x - (unat b + 8 * i)) < 4096"
        using i by linarith+
      then show False using page_slot[OF al] that bB by metis
    qed
    then show ?thesis using f(5)[of x] that by (simp add: run)
  qed
  have cz: "child (mem s2) ?p j = 0" if "j < 512" for j
  proof -
    have "child (mem s2) ?p j = child (\<lambda>_. 0) ?p j"
      by (rule child_cong[OF _ that]) (use p zero in auto)
    then show ?thesis by (simp add: child_def)
  qed
  have wfp: "tree_wf (Suc h) (mem s2) ?p" and mp: "tree_meta (Suc h) (mem s2) ?p \<subseteq> block_run 0 B"
    using cz p by (auto simp: run)
  have lp: "\<forall>k<512 ^ Suc h. tree_look (Suc h) (mem s2) ?p k = 0"
    using cz by (auto simp: less_mult_imp_div_less)
  show "tree_grow pi bt (Suc (Suc h)) b lo hi s s2" "child (mem s2) b i = ?p"
    by (rule tree_grow_slot[OF ctx b i z f(1-3) _ s2 wfp mp]; use f(4) lp in blast)+
qed

lemma pmfs_new_data_block_cases:
  assumes "balloc_inv s"
  obtains (err) e s1 where "pmfs_new_data_block pi zero s = Some (Inl e, s1)"
      "balloc_inv s1" "used_blocks s1 = used_blocks s" "mem s1 = mem s"
  | (ok) B s1 s2 where "pmfs_new_data_block pi zero s = Some (Inr B, s2)"
      "pmfs_new_block (pi_blk_type (rd_inode (mem s) pi)) zero s = Some (Inr B, s1)"
      "balloc_inv s2" "used_blocks s2 = used_blocks s1"
      "\<And>x. mem s2 x \<noteq> mem s1 x \<Longrightarrow> x \<in> inode_bytes pi"
proof -
  obtain r s1 where r: "pmfs_new_block (pi_blk_type (rd_inode (mem s) pi)) zero s = Some (r, s1)"
    by (rule pmfs_new_block_returns[OF assms])
  show ?thesis
  proof (cases r)
    case (Inl e)
    have "balloc_inv s1 \<and> used_blocks s1 = used_blocks s"
      using ba.alloc_err[OF assms r[unfolded Inl]] .
    then show ?thesis
      using err[of e s1] pmfs_new_block_Inl(3)[OF assms r[unfolded Inl]] r Inl
      by (simp add: pmfs_new_data_block_def Let_def)
  next
    case (Inr B)
    let ?v = "pi_blocks (rd_inode (mem s1) pi) + push_bit (blk_type_to_shift (pi_blk_type (rd_inode (mem s) pi)) - s_blocksize_bits s1) 1"
    let ?s2 = "upd_mem (wr64 (pi + 40) ?v) s1"
    have "pmfs_new_data_block pi zero s = Some (Inr B, ?s2)"
      using r Inr by (simp add: pmfs_new_data_block_def Let_def)
    moreover have "x \<in> inode_bytes pi" if "mem ?s2 x \<noteq> mem s1 x" for x
      using wrw_changed[of "pi + 40" ?v "mem s1" x] that by (auto simp: inode_bytes_def)
    ultimately show ?thesis
      using ok[of B ?s2 s1] r Inr pmfs_new_block_Inr(1)[OF assms r[unfolded Inr]] by simp
  qed
qed

lemma grow_new_data:
  assumes ctx: "tree_ctx pi (Suc 0) b s" and b: "b \<noteq> 0" and i: "i < 512" and z: "child (mem s) b i = 0"
    and n: "pmfs_new_block bt zero s = Some (Inr B, s1)"
    and s2: "balloc_inv s2" "used_blocks s2 = used_blocks s1" "\<And>x. mem s2 x \<noteq> mem s1 x \<Longrightarrow> x \<in> inode_bytes pi"
    and s3: "s3 = upd_mem (wr64 (unat b + 8 * i) (pmfs_get_block_off B)) s2" and rng: "lo \<le> i" "i \<le> hi"
  shows "tree_grow pi bt (Suc 0) b lo hi s s3"
    and "child (mem s3) b i = pmfs_get_block_off B" "pmfs_get_block_off B \<noteq> 0"
proof -
  have inv: "balloc_inv s" using ctx by (simp add: tree_ctx_def)
  note f = pmfs_new_block_facts[OF inv n] and pos = pmfs_new_block_pos[OF inv n]
  let ?p = "pmfs_get_block_off B"
  show "?p \<noteq> 0" using pos unat_block_off[OF pos(2)] by (auto simp: word_unat_eq_iff)
  have us: "used_blocks s2 = used_blocks s \<union> block_run bt B" using f(2) s2(2) by simp
  have fr: "x div 4096 \<in> block_run bt B \<or> x \<in> inode_bytes pi" if "mem s2 x \<noteq> mem s x" for x
    using that f(4)[of x] s2(3)[of x] by metis
  have "4096 dvd unat ?p \<and> data_run bt ?p \<subseteq> block_run bt B"
    by (simp add: data_run_def blocknr_of_off[OF pos(2)] unat_block_off[OF pos(2)])
  then have lp: "(\<forall>k<512 ^ 0. tree_look 0 (mem s3) ?p k = 0)
      \<or> 0 = (0::nat) \<and> 4096 dvd unat ?p \<and> data_run bt ?p \<subseteq> block_run bt B \<and> lo \<le> i \<and> i \<le> hi"
    using rng by simp
  show "tree_grow pi bt (Suc 0) b lo hi s s3" "child (mem s3) b i = ?p"
    by (rule tree_grow_slot[OF ctx b i z s2(1) us f(3) fr s3 _ _ lp]; simp)+
qed

text \<open>What one pass over the slots \<open>a..li\<close> of a node does, given what each slot does.\<close>

definition slot_done :: "nat \<Rightarrow> u64 \<Rightarrow> nat \<Rightarrow> nat \<Rightarrow> mem \<Rightarrow> nat \<Rightarrow> bool" where
  "slot_done h b lo hi m i \<longleftrightarrow>
     (\<forall>k. lo \<le> k \<longrightarrow> k \<le> hi \<longrightarrow> k < 512 ^ Suc h \<longrightarrow> k div 512 ^ h = i \<longrightarrow> tree_look (Suc h) m b k \<noteq> 0)"

lemma slot_done_grow:
  assumes "slot_done h b lo hi (mem s) i" "tree_grow pi bt (Suc h) b lo hi s s'"
  shows "slot_done h b lo hi (mem s') i"
  using assms(1) tree_growD(7)[OF assms(2)] unfolding slot_done_def by metis

lemma alloc_loop_grow:
  fixes body :: "nat \<Rightarrow> (errno + unit) \<times> bool \<times> bool \<times> fs \<Rightarrow> (((errno + unit) \<times> bool \<times> bool \<times> fs) \<times> bool) option"
  assumes step: "\<And>i nn js s. a \<le> i \<Longrightarrow> i \<le> li \<Longrightarrow> tree_ctx pi (Suc h) b s \<Longrightarrow>
      pi_blk_type (rd_inode (mem s) pi) = bt \<Longrightarrow>
      \<exists>r nn' js' s'. body i (Inr (), nn, js, s) = Some ((r, nn', js', s'), r \<noteq> Inr ())
        \<and> tree_grow pi bt (Suc h) b lo hi s s' \<and> (r = Inr () \<longrightarrow> slot_done h b lo hi (mem s') i)"
    and ctx: "tree_ctx pi (Suc h) b s" "pi_blk_type (rd_inode (mem s) pi) = bt"
  shows "\<exists>r nn' js' s'. for_loop body [a..<Suc li] (Inr (), nn, js, s) = Some (r, nn', js', s')
    \<and> tree_grow pi bt (Suc h) b lo hi s s'
    \<and> (r = Inr () \<longrightarrow> (\<forall>i. a \<le> i \<longrightarrow> i \<le> li \<longrightarrow> slot_done h b lo hi (mem s') i))"
  using assms
proof (induction "Suc li - a" arbitrary: a nn js s)
  case 0
  then show ?case using tree_grow_refl[OF 0(3)] by simp
next
  case (Suc d)
  then have le: "a \<le> li" by simp
  obtain r nn' js' s' where 1: "body a (Inr (), nn, js, s) = Some ((r, nn', js', s'), r \<noteq> Inr ())"
    "tree_grow pi bt (Suc h) b lo hi s s'" "r = Inr () \<longrightarrow> slot_done h b lo hi (mem s') a"
    using Suc(3)[OF order_refl le Suc(4,5)] by blast
  have up: "[a..<Suc li] = a # [Suc a..<Suc li]" using le by (simp add: upt_rec)
  show ?case
  proof (cases "r = Inr ()")
    case False
    then have "for_loop body [a..<Suc li] (Inr (), nn, js, s) = Some (r, nn', js', s')"
      unfolding up using 1(1) by simp
    then show ?thesis using 1(2) False by blast
  next
    case True
    note ctx' = tree_grow_ctx[OF Suc(4) 1(2)] and bt' = tree_grow_blk_type[OF Suc(4) 1(2)]
    have d: "d = Suc li - Suc a" using Suc(2) by simp
    have st: "\<exists>r nn' js' s'. body i (Inr (), nn, js, s) = Some ((r, nn', js', s'), r \<noteq> Inr ())
        \<and> tree_grow pi bt (Suc h) b lo hi s s' \<and> (r = Inr () \<longrightarrow> slot_done h b lo hi (mem s') i)"
      if "Suc a \<le> i" "i \<le> li" "tree_ctx pi (Suc h) b s" "pi_blk_type (rd_inode (mem s) pi) = bt" for i nn js s
      by (rule Suc(3)[OF _ that(2-4)]) (use that(1) in simp)
    obtain r2 nn2 js2 s2 where 2: "for_loop body [Suc a..<Suc li] (Inr (), nn', js', s') = Some (r2, nn2, js2, s2)"
      "tree_grow pi bt (Suc h) b lo hi s' s2"
      "r2 = Inr () \<longrightarrow> (\<forall>i. Suc a \<le> i \<longrightarrow> i \<le> li \<longrightarrow> slot_done h b lo hi (mem s2) i)"
      using Suc(1)[OF d st ctx' bt'[unfolded Suc(5)], of nn' js'] by blast
    have "for_loop body [a..<Suc li] (Inr (), nn, js, s) = Some (r2, nn2, js2, s2)"
      unfolding up using 1(1) 2(1) True by simp
    moreover have "slot_done h b lo hi (mem s2) i" if "r2 = Inr ()" "a \<le> i" "i \<le> li" for i
      using slot_done_grow[OF _ 2(2), of a] 1(3) True 2(3) that by (cases "i = a") auto
    ultimately show ?thesis using tree_grow_trans[OF 1(2) 2(2)] by blast
  qed
qed

lemma pow_512_ge1: "1 \<le> (512::nat) ^ h"
  by simp

lemma blk_index_eq: "unat k < 512 ^ Suc h \<Longrightarrow> blk_index h k = unat k div 512 ^ h"
  unfolding blk_index_def by (rule unat_index(1))

lemma unat_low_mask: "h \<le> 6 \<Longrightarrow> unat (push_bit (h * 9) 1 - 1 :: u64) = 512 ^ h - 1"
proof -
  assume h: "h \<le> 6"
  have "(2::nat) ^ (h * 9) \<le> 2 ^ 54" using h by (intro power_increasing) auto
  then have "unat (push_bit (h * 9) 1 :: u64) = 2 ^ (h * 9)"
    by (subst unat_push_bit_fits) auto
  then show ?thesis
    by (subst unat_minus_fits) (auto simp: pow_512)
qed

text \<open>The part of the range that a child gets, in terms of the numbers in the whole tree.\<close>

lemma child_range_nat:
  fixes q :: nat
  assumes "0 < q" "j < q" "lo div q \<le> i" "i \<le> hi div q"
  shows "(if i = lo div q then lo mod q else 0) \<le> j \<and> j \<le> (if i = hi div q then hi mod q else q - 1)
    \<longleftrightarrow> lo \<le> i * q + j \<and> i * q + j \<le> hi"
proof -
  have "(if i = lo div q then lo mod q else 0) \<le> j \<longleftrightarrow> lo \<le> i * q + j"
  proof (cases "i = lo div q")
    case True
    have "lo = lo div q * q + lo mod q" by simp
    then have "lo = i * q + lo mod q" by (simp only: True[symmetric])
    then have "lo mod q \<le> j \<longleftrightarrow> lo \<le> i * q + j" by linarith
    then show ?thesis using True by (simp only: if_True simp_thms)
  next
    case False
    then have "lo div q < i" using assms by simp
    then have "lo < i * q" by (simp only: div_less_iff_less_mult[OF assms(1)])
    then show ?thesis using False by simp
  qed
  moreover have "j \<le> (if i = hi div q then hi mod q else q - 1) \<longleftrightarrow> i * q + j \<le> hi"
  proof (cases "i = hi div q")
    case True
    have "hi = hi div q * q + hi mod q" by simp
    then have "hi = i * q + hi mod q" by (simp only: True[symmetric])
    then have "j \<le> hi mod q \<longleftrightarrow> i * q + j \<le> hi" by linarith
    then show ?thesis using True by (simp only: if_True simp_thms)
  next
    case False
    then have "Suc i \<le> hi div q" using assms by simp
    then have "Suc i * q \<le> hi div q * q" by (rule mult_le_mono1)
    also have "\<dots> \<le> hi" by simp
    finally show ?thesis using False assms(2) by simp
  qed
  ultimately show ?thesis by blast
qed

lemma child_range:
  assumes k: "unat lo < 512 ^ Suc h" "unat hi < 512 ^ Suc h" "h \<le> 6"
    and i: "unat lo div 512 ^ h \<le> i" "i \<le> unat hi div 512 ^ h"
  shows "unat (last_blk h hi i) < 512 ^ h"
    and "j < 512 ^ h \<Longrightarrow> unat (first_blk h lo i) \<le> j \<and> j \<le> unat (last_blk h hi i)
      \<longleftrightarrow> unat lo \<le> i * 512 ^ h + j \<and> i * 512 ^ h + j \<le> unat hi"
proof -
  have f: "unat (first_blk h lo i) = (if i = unat lo div 512 ^ h then unat lo mod 512 ^ h else 0)"
    unfolding first_blk_def blk_index_eq[OF k(1)] by (simp only: if_distrib[of unat] unat_and_low pow_512 unat_0)
  have l: "unat (last_blk h hi i) = (if i = unat hi div 512 ^ h then unat hi mod 512 ^ h else 512 ^ h - 1)"
    unfolding last_blk_def blk_index_eq[OF k(2)]
    by (simp only: if_distrib[of unat] unat_and_low unat_low_mask[OF k(3)] pow_512)
  show "unat (last_blk h hi i) < 512 ^ h" unfolding l by simp
  show "unat (first_blk h lo i) \<le> j \<and> j \<le> unat (last_blk h hi i)
      \<longleftrightarrow> unat lo \<le> i * 512 ^ h + j \<and> i * 512 ^ h + j \<le> unat hi" if "j < 512 ^ h"
    unfolding f l by (rule child_range_nat[OF _ that i]) simp
qed

lemma alloc_save_same: obtains js' where "alloc_save tr node li i nn js s = (js', s)"
  by (cases "\<not> nn \<and> \<not> js") (auto simp: alloc_save_def pmfs_add_logentry_def)

lemma alloc_leaf_grow:
  assumes ctx: "tree_ctx pi (Suc 0) b s" and b: "b \<noteq> 0" and i: "i < 512"
    and bt: "pi_blk_type (rd_inode (mem s) pi) = bt" and rng: "lo \<le> i" "i \<le> hi"
  shows "\<exists>r nn' js' s'. alloc_leaf tr pi (unat b) li zero i (Inr (), nn, js, s) = Some ((r, nn', js', s'), r \<noteq> Inr ())
    \<and> tree_grow pi bt (Suc 0) b lo hi s s' \<and> (r = Inr () \<longrightarrow> slot_done 0 b lo hi (mem s') i)"
proof -
  have inv: "balloc_inv s" using ctx by (simp add: tree_ctx_def)
  have fin: "slot_done 0 b lo hi (mem s') i" if "child (mem s') b i \<noteq> 0" for s'
    using that b by (auto simp: slot_done_def)
  show ?thesis
  proof (cases "child (mem s) b i = 0")
    case False
    then show ?thesis using tree_grow_refl[OF ctx] fin by (auto simp: alloc_leaf_def child_def)
  next
    case True
    from inv show ?thesis
    proof (cases rule: pmfs_new_data_block_cases[where pi = pi and zero = zero])
      case (err e s1)
      let ?s2 = "upd_mem (\<lambda>m. wr32 (pi + 4) (pi_flags (rd_inode m pi) OR PMFS_EOFBLOCKS_FL) m) s1"
      have "tree_grow pi bt (Suc 0) b lo hi s ?s2"
      proof (rule tree_grow_same[OF ctx])
        show "x \<in> inode_bytes pi" if "mem ?s2 x \<noteq> mem s x" for x
          using wrw_changed[of "pi + 4" "pi_flags (rd_inode (mem s1) pi) OR PMFS_EOFBLOCKS_FL" "mem s1" x] that err(4)
          by (simp add: inode_bytes_def)
      qed (simp_all add: err)
      then show ?thesis using err(1) True by (auto simp: alloc_leaf_def child_def)
    next
      case (ok B s1 s2)
      obtain js' where js: "alloc_save tr (unat b) li i nn js s2 = (js', s2)" by (rule alloc_save_same)
      note g = grow_new_data[OF ctx b i True ok(2)[unfolded bt] ok(3-5) refl rng]
      show ?thesis
        using ok(1) True js g fin[of "upd_mem (wr64 (unat b + 8 * i) (pmfs_get_block_off B)) s2"]
        by (auto simp: alloc_leaf_def child_def Let_def)
    qed
  qed
qed

lemma alloc_inner_grow:
  assumes ctx: "tree_ctx pi (Suc (Suc h)) b s" and b: "b \<noteq> 0" and i: "i < 512"
    and bt: "pi_blk_type (rd_inode (mem s) pi) = bt"
    and rec: "\<And>c nn s. tree_ctx pi (Suc h) c s \<Longrightarrow> c \<noteq> 0 \<Longrightarrow> pi_blk_type (rd_inode (mem s) pi) = bt \<Longrightarrow>
      \<exists>r s'. rec c (first_blk (Suc h) lo i) (last_blk (Suc h) hi i) nn s = Some (r, s')
        \<and> tree_grow pi bt (Suc h) c lo' hi' s s'
        \<and> (r = Inr () \<longrightarrow> (\<forall>k. lo' \<le> k \<longrightarrow> k \<le> hi' \<longrightarrow> k < 512 ^ Suc h \<longrightarrow> tree_look (Suc h) (mem s') c k \<noteq> 0))"
    and rng: "\<And>k. k < 512 ^ Suc h \<Longrightarrow> lo' \<le> k \<and> k \<le> hi' \<longleftrightarrow> lo0 \<le> i * 512 ^ Suc h + k \<and> i * 512 ^ Suc h + k \<le> hi0"
  shows "\<exists>r nn' js' s'. alloc_inner rec (Suc h) lo hi tr (unat b) i (Inr (), nn, js, s) = Some ((r, nn', js', s'), r \<noteq> Inr ())
    \<and> tree_grow pi bt (Suc (Suc h)) b lo0 hi0 s s' \<and> (r = Inr () \<longrightarrow> slot_done (Suc h) b lo0 hi0 (mem s') i)"
proof -
  have inv: "balloc_inv s" using ctx by (simp add: tree_ctx_def)
  have fin: "\<exists>r s'. rec (child (mem s2) b i) (first_blk (Suc h) lo i) (last_blk (Suc h) hi i) nn s2 = Some (r, s')
        \<and> tree_grow pi bt (Suc (Suc h)) b lo0 hi0 s s' \<and> (r = Inr () \<longrightarrow> slot_done (Suc h) b lo0 hi0 (mem s') i)"
    if g: "tree_grow pi bt (Suc (Suc h)) b lo0 hi0 s s2" and nz: "child (mem s2) b i \<noteq> 0" for s2 nn
  proof -
    note ctx2 = tree_grow_ctx[OF ctx g] and bt2 = tree_grow_blk_type[OF ctx g, unfolded bt]
    obtain r s' where r: "rec (child (mem s2) b i) (first_blk (Suc h) lo i) (last_blk (Suc h) hi i) nn s2 = Some (r, s')"
        "tree_grow pi bt (Suc h) (child (mem s2) b i) lo' hi' s2 s'"
        "r = Inr () \<longrightarrow> (\<forall>k. lo' \<le> k \<longrightarrow> k \<le> hi' \<longrightarrow> k < 512 ^ Suc h \<longrightarrow> tree_look (Suc h) (mem s') (child (mem s2) b i) k \<noteq> 0)"
      using rec[OF tree_ctx_child[OF ctx2 b i] nz bt2, of nn] by (elim exE conjE) (rule that)
    have rg: "lo0 \<le> i * 512 ^ Suc h + k \<and> i * 512 ^ Suc h + k \<le> hi0" if "k < 512 ^ Suc h" "lo' \<le> k" "k \<le> hi'" for k
      using rng[OF that(1)] that(2,3) by blast
    note g2 = tree_grow_child(1)[OF ctx2 b i r(2) rg]
    have c: "child (mem s') b i = child (mem s2) b i"
      using tree_grow_child(2)[OF ctx2 b i r(2) rg, of i] i by linarith
    have "slot_done (Suc h) b lo0 hi0 (mem s') i" if "r = Inr ()"
      unfolding slot_done_def
    proof (intro allI impI)
      fix k assume k: "lo0 \<le> k" "k \<le> hi0" "k div 512 ^ Suc h = i"
      have lt: "k mod 512 ^ Suc h < 512 ^ Suc h" by simp
      have "k = i * 512 ^ Suc h + k mod 512 ^ Suc h" using k(3) by (metis div_mult_mod_eq)
      then have "lo' \<le> k mod 512 ^ Suc h" "k mod 512 ^ Suc h \<le> hi'" using rng[OF lt] k(1,2) by auto
      then have "tree_look (Suc h) (mem s') (child (mem s') b i) (k mod 512 ^ Suc h) \<noteq> 0"
        using r(3) that c lt by simp
      then show "tree_look (Suc (Suc h)) (mem s') b k \<noteq> 0"
        by (subst tree_look_Suc[OF b]) (simp only: k(3) simp_thms)
    qed
    then show ?thesis using r(1) tree_grow_trans[OF g g2] by blast
  qed
  show ?thesis
  proof (cases "child (mem s) b i = 0")
    case False
    show ?thesis
      using fin[OF tree_grow_refl[OF ctx] False, of nn] False
      by (auto simp: alloc_inner_def child_def)
  next
    case True
    obtain q s1 where q: "pmfs_new_block 0 True s = Some (q, s1)" by (rule pmfs_new_block_returns[OF inv])
    show ?thesis
    proof (cases q)
      case (Inl e)
      have "balloc_inv s1 \<and> used_blocks s1 = used_blocks s" using ba.alloc_err[OF inv q[unfolded Inl]] .
      then have "tree_grow pi bt (Suc (Suc h)) b lo0 hi0 s s1"
        using pmfs_new_block_Inl(3)[OF inv q[unfolded Inl]] by (intro tree_grow_same[OF ctx]) auto
      then show ?thesis using q Inl True by (auto simp: alloc_inner_def child_def)
    next
      case (Inr B)
      obtain js' where js: "alloc_save tr (unat b) (blk_index (Suc h) hi) i nn js s1 = (js', s1)" by (rule alloc_save_same)
      note g = grow_new_meta[OF ctx b i True q[unfolded Inr] refl]
      let ?s2 = "upd_mem (wr64 (unat b + 8 * i) (pmfs_get_block_off B)) s1"
      show ?thesis
        using fin[of ?s2 True] g q Inr True js
        by (auto simp: alloc_inner_def child_def Let_def)
    qed
  qed
qed

text \<open>Allocation over a whole tree: it returns, grows the tree in the range only, and on success maps
  every number of the range.\<close>

lemma recursive_alloc_grow:
  assumes "tree_ctx pi (Suc h) b s" "b \<noteq> 0" "pi_blk_type (rd_inode (mem s) pi) = bt"
    and "unat lo < 512 ^ Suc h" "unat hi < 512 ^ Suc h" "h \<le> 6"
  shows "\<exists>r s'. recursive_alloc_blocks (Suc h) tr pi zero b lo hi nn s = Some (r, s')
    \<and> tree_grow pi bt (Suc h) b (unat lo) (unat hi) s s'
    \<and> (r = Inr () \<longrightarrow> (\<forall>k. unat lo \<le> k \<longrightarrow> k \<le> unat hi \<longrightarrow> k < 512 ^ Suc h \<longrightarrow> tree_look (Suc h) (mem s') b k \<noteq> 0))"
  using assms
proof (induction h arbitrary: b lo hi nn s)
  case (0 b lo hi nn s)
  have st: "\<exists>r nn' js' s'. alloc_leaf tr pi (unat b) (unat hi) zero i (Inr (), nn, js, s) = Some ((r, nn', js', s'), r \<noteq> Inr ())
      \<and> tree_grow pi bt (Suc 0) b (unat lo) (unat hi) s s'
      \<and> (r = Inr () \<longrightarrow> slot_done 0 b (unat lo) (unat hi) (mem s') i)"
    if "unat lo \<le> i" "i \<le> unat hi" "tree_ctx pi (Suc 0) b s" "pi_blk_type (rd_inode (mem s) pi) = bt" for i nn js s
    by (rule alloc_leaf_grow[OF that(3) 0(2) _ that(4,1,2)]) (use that 0(5) in simp)
  obtain r nn' js' s' where
      l: "for_loop (alloc_leaf tr pi (unat b) (unat hi) zero) [unat lo..<Suc (unat hi)] (Inr (), nn, False, s) = Some (r, nn', js', s')"
    and g: "tree_grow pi bt (Suc 0) b (unat lo) (unat hi) s s'"
    and d: "r = Inr () \<longrightarrow> (\<forall>i. unat lo \<le> i \<longrightarrow> i \<le> unat hi \<longrightarrow> slot_done 0 b (unat lo) (unat hi) (mem s') i)"
    by atomize_elim (rule alloc_loop_grow[OF _ 0(1,3)], rule st)
  have "recursive_alloc_blocks (Suc 0) tr pi zero b lo hi nn s = Some (r, s')"
    using l 0(2) blk_index_eq[OF 0(4)] blk_index_eq[OF 0(5)] by (simp add: Let_def unat_eq_0 del: upt_Suc)
  moreover have "tree_look (Suc 0) (mem s') b k \<noteq> 0"
    if "r = Inr ()" "unat lo \<le> k" "k \<le> unat hi" "k < 512 ^ Suc 0" for k
    using d that unfolding slot_done_def by simp
  ultimately show ?case using g by blast
next
  case (Suc h b lo hi nn s)
  let ?q = "512 ^ Suc h :: nat"
  have st: "\<exists>r nn' js' s'. alloc_inner (recursive_alloc_blocks (Suc h) tr pi zero) (Suc h) lo hi tr (unat b) i (Inr (), nn, js, s)
        = Some ((r, nn', js', s'), r \<noteq> Inr ())
      \<and> tree_grow pi bt (Suc (Suc h)) b (unat lo) (unat hi) s s'
      \<and> (r = Inr () \<longrightarrow> slot_done (Suc h) b (unat lo) (unat hi) (mem s') i)"
    if i: "unat lo div ?q \<le> i" "i \<le> unat hi div ?q" and c: "tree_ctx pi (Suc (Suc h)) b s" "pi_blk_type (rd_inode (mem s) pi) = bt"
    for i nn js s
  proof -
    note cr = child_range[OF Suc.prems(4,5,6) i]
    have i512: "i < 512" using unat_index(2)[OF Suc.prems(5)] i(2) by linarith
    have lo': "unat (first_blk (Suc h) lo i) < ?q"
      by (simp only: first_blk_def if_distrib[of unat] unat_and_low pow_512 unat_0) simp
    have h: "h \<le> 6" using Suc.prems(6) by simp
    show ?thesis
      by (rule alloc_inner_grow[OF c(1) Suc.prems(2) i512 c(2) _ cr(2)])
        (rule Suc.IH[OF _ _ _ lo' cr(1) h]; assumption)
  qed
  obtain r nn' js' s' where
      l: "for_loop (alloc_inner (recursive_alloc_blocks (Suc h) tr pi zero) (Suc h) lo hi tr (unat b))
        [unat lo div ?q..<Suc (unat hi div ?q)] (Inr (), nn, False, s) = Some (r, nn', js', s')"
    and g: "tree_grow pi bt (Suc (Suc h)) b (unat lo) (unat hi) s s'"
    and d: "r = Inr () \<longrightarrow> (\<forall>i. unat lo div ?q \<le> i \<longrightarrow> i \<le> unat hi div ?q \<longrightarrow> slot_done (Suc h) b (unat lo) (unat hi) (mem s') i)"
    by atomize_elim (rule alloc_loop_grow[OF _ Suc.prems(1,3)], rule st)
  have "recursive_alloc_blocks (Suc (Suc h)) tr pi zero b lo hi nn s = Some (r, s')"
    unfolding recursive_alloc_blocks.simps(2)[of "Suc h"] using l Suc.prems(2)
    by (simp add: Let_def unat_eq_0 blk_index_eq[OF Suc.prems(4)] blk_index_eq[OF Suc.prems(5)] del: upt_Suc recursive_alloc_blocks.simps)
  moreover have "tree_look (Suc (Suc h)) (mem s') b k \<noteq> 0"
    if "r = Inr ()" "unat lo \<le> k" "k \<le> unat hi" "k < 512 ^ Suc (Suc h)" for k
  proof -
    have "slot_done (Suc h) b (unat lo) (unat hi) (mem s') (k div ?q)"
      using d that div_le_mono[OF that(2), of ?q] div_le_mono[OF that(3), of ?q] by blast
    then show ?thesis using that unfolding slot_done_def by blast
  qed
  ultimately show ?case using g by blast
qed

section \<open>Files\<close>

text \<open>An inode's block map: what its tree says below its capacity, and holes beyond.\<close>

definition file_look :: "nat \<Rightarrow> mem \<Rightarrow> nat \<Rightarrow> u64" where
  "file_look pi m k = (let i = rd_inode m pi; h = unat (pi_height i)
     in if k < 512 ^ h then tree_look h m (pi_root i) k else 0)"

definition file_meta :: "nat \<Rightarrow> mem \<Rightarrow> nat set" where
  "file_meta pi m = (let i = rd_inode m pi in tree_meta (unat (pi_height i)) m (pi_root i))"

definition file_ctx :: "nat \<Rightarrow> fs \<Rightarrow> bool" where
  "file_ctx pi s \<longleftrightarrow> (let i = rd_inode (mem s) pi in
     tree_ctx pi (unat (pi_height i)) (pi_root i) s \<and> (pi_root i = 0 \<longrightarrow> pi_height i = 0)
     \<and> pi_height i \<le> 3 \<and> pi_blk_type i \<le> 2)"

lemma tree_height_bound: "n < 512 ^ tree_height n"
proof (induction n rule: tree_height.induct)
  case (1 n)
  show ?case
  proof (cases "n = 0")
    case False
    then have "n div 512 < 512 ^ tree_height (n div 512)" using 1 by simp
    then have "n < 512 ^ tree_height (n div 512) * 512" by (simp add: div_less_iff_less_mult)
    then show ?thesis using False by (subst tree_height.simps) (simp add: mult.commute)
  qed (simp add: tree_height.simps)
qed

lemma grow_new_root:
  assumes ctx: "tree_ctx pi h b s" and n: "pmfs_new_block 0 True s = Some (Inr B, s1)"
  defines "p \<equiv> pmfs_get_block_off B"
  defines "s2 \<equiv> upd_mem (wr64 (unat p) b) s1"
  shows "tree_ctx pi (Suc h) p s2" "p \<noteq> 0" "used_blocks s \<subseteq> used_blocks s2"
    and "tree_meta (Suc h) (mem s2) p \<subseteq> tree_meta h (mem s) b \<union> (used_blocks s2 - used_blocks s)"
    and "mem s2 x \<noteq> mem s x \<Longrightarrow> x div 4096 \<in> used_blocks s2 - used_blocks s"
    and "k < 512 ^ Suc h \<Longrightarrow> tree_look (Suc h) (mem s2) p k = (if k < 512 ^ h then tree_look h (mem s) b k else 0)"
proof -
  have inv: "balloc_inv s" and wf: "tree_wf h (mem s) b" and mu: "tree_meta h (mem s) b \<subseteq> used_blocks s"
    and pu: "pi div 4096 \<in> used_blocks s" "pi div 4096 \<notin> tree_meta h (mem s) b" "pi mod 4096 \<le> 3968"
    using ctx by (simp_all add: tree_ctx_def)
  note f = pmfs_new_block_facts[OF inv n] and pos = pmfs_new_block_pos[OF inv n]
  have p: "unat p = unat B * 4096" unfolding p_def using unat_block_off[OF pos(2)] by simp
  then show p0: "p \<noteq> 0" using pos by (auto simp: word_unat_eq_iff)
  have run: "block_run 0 B = {unat B}" by (simp add: block_run_def pmfs_get_numblocks_def)
  have us: "used_blocks s2 = insert (unat B) (used_blocks s)" "unat B \<notin> used_blocks s"
    using f(2,3) by (auto simp: s2_def run)
  then show "used_blocks s \<subseteq> used_blocks s2" by blast
  have al: "4096 dvd unat p" and pd: "unat p div 4096 = unat B" using p by simp_all
  have ch: "x div 4096 = unat B" if "mem s2 x \<noteq> mem s x" for x
  proof (cases "mem s1 x = mem s x")
    case True
    with that have "unat p \<le> x" "x < unat p + 8"
      using wrw_changed[of "unat p" b "mem s1" x] by (auto simp: s2_def)
    then show ?thesis using p by auto
  qed (use f(4)[of x] run in auto)
  then show "mem s2 x \<noteq> mem s x \<Longrightarrow> x div 4096 \<in> used_blocks s2 - used_blocks s" using us by auto
  have keep: "mem s2 x = mem s x" if "x div 4096 \<in> tree_meta h (mem s) b" for x
    using ch[of x] that mu us(2) by (metis subsetD)
  note tc = tree_cong[OF wf keep]
  have z: "child (mem s1) p j = 0" if "j < 512" for j
  proof -
    have "child (mem s1) p j = child (\<lambda>_. 0) p j"
      by (rule child_cong[OF al that]) (use f(5) run pd in auto)
    then show ?thesis by (simp add: child_def)
  qed
  have c: "child (mem s2) p j = (if j = 0 then b else 0)" if "j < 512" for j
    using child_write[OF al _ that, of 0 b "mem s1"] z[OF that] by (simp add: s2_def)
  have nB: "unat B \<notin> tree_meta h (mem s2) b" using tc mu us(2) by auto
  have m: "tree_meta (Suc h) (mem s2) p = insert (unat B) (tree_meta h (mem s) b)"
  proof -
    have "(\<Union>i<512. tree_meta h (mem s2) (child (mem s2) p i)) = tree_meta h (mem s) b"
      using c tc by (fastforce split: if_splits)
    then show ?thesis using p0 pd by simp
  qed
  then show "tree_meta (Suc h) (mem s2) p \<subseteq> tree_meta h (mem s) b \<union> (used_blocks s2 - used_blocks s)"
    using us by auto
  have "tree_wf (Suc h) (mem s2) p" using c tc nB al pd by auto
  then show "tree_ctx pi (Suc h) p s2"
    using f(1) m mu us pu by (auto simp: tree_ctx_def s2_def)
  show "tree_look (Suc h) (mem s2) p k = (if k < 512 ^ h then tree_look h (mem s) b k else 0)" if "k < 512 ^ Suc h"
  proof -
    have "k div 512 ^ h < 512" using that by (simp add: less_mult_imp_div_less)
    moreover have "k div 512 ^ h = 0 \<longleftrightarrow> k < 512 ^ h" by (simp add: div_eq_0_iff)
    ultimately show ?thesis using c tc p0 by (simp only: tree_look_Suc) simp
  qed
qed

lemma increase_loop_ctx:
  assumes "tree_ctx pi h b s" "b = 0 \<longrightarrow> h = 0"
  shows "\<exists>r root h' s'. increase_loop n b h s = Some (r, root, h', s') \<and> tree_ctx pi h' root s'
    \<and> (root = 0 \<longrightarrow> h' = 0) \<and> h' \<le> h + n \<and> (r = Inr () \<longrightarrow> h' = h + n) \<and> used_blocks s \<subseteq> used_blocks s'
    \<and> tree_meta h' (mem s') root \<subseteq> tree_meta h (mem s) b \<union> (used_blocks s' - used_blocks s)
    \<and> (\<forall>x. mem s' x \<noteq> mem s x \<longrightarrow> x div 4096 \<in> used_blocks s' - used_blocks s)
    \<and> h \<le> h'
    \<and> (\<forall>k<512 ^ h'. tree_look h' (mem s') root k = (if k < 512 ^ h then tree_look h (mem s) b k else 0))"
  using assms
proof (induction n arbitrary: h b s)
  case (Suc n)
  have inv: "balloc_inv s" using Suc.prems by (simp add: tree_ctx_def)
  obtain q s1 where q: "pmfs_new_block 0 True s = Some (q, s1)" by (rule pmfs_new_block_returns[OF inv])
  show ?case
  proof (cases q)
    case (Inl e)
    have "balloc_inv s1 \<and> used_blocks s1 = used_blocks s" using ba.alloc_err[OF inv q[unfolded Inl]] .
    then have "tree_ctx pi h b s1" "mem s1 = mem s" "used_blocks s1 = used_blocks s"
      using Suc.prems(1) pmfs_new_block_Inl(3)[OF inv q[unfolded Inl]] by (auto simp: tree_ctx_def)
    then show ?thesis using q Inl Suc.prems by simp
  next
    case (Inr B)
    let ?p = "pmfs_get_block_off B" and ?s2 = "upd_mem (wr64 (unat (pmfs_get_block_off B)) b) s1"
    note g = grow_new_root[OF Suc.prems(1) q[unfolded Inr]]
    have "?p = 0 \<longrightarrow> Suc h = 0" using g(2) by simp
    from Suc.IH[OF g(1) this] obtain r root h' s' where
      1: "increase_loop n ?p (Suc h) ?s2 = Some (r, root, h', s')" and 2: "tree_ctx pi h' root s'"
      "root = 0 \<longrightarrow> h' = 0" "h' \<le> Suc h + n" "r = Inr () \<longrightarrow> h' = Suc h + n" and 3: "used_blocks ?s2 \<subseteq> used_blocks s'"
      and 4: "tree_meta h' (mem s') root \<subseteq> tree_meta (Suc h) (mem ?s2) ?p \<union> (used_blocks s' - used_blocks ?s2)"
      and 5: "\<forall>x. mem s' x \<noteq> mem ?s2 x \<longrightarrow> x div 4096 \<in> used_blocks s' - used_blocks ?s2"
      and 6: "Suc h \<le> h'"
      and 7: "\<forall>k<512 ^ h'. tree_look h' (mem s') root k = (if k < 512 ^ Suc h then tree_look (Suc h) (mem ?s2) ?p k else 0)"
      by (elim exE conjE)
    have "increase_loop (Suc n) b h s = Some (r, root, h', s')"
      using q Inr 1 g(2) by (simp add: Let_def unat_eq_0)
    moreover have "used_blocks s \<subseteq> used_blocks s'" using g(3) 3 by blast
    moreover have "tree_meta h' (mem s') root \<subseteq> tree_meta h (mem s) b \<union> (used_blocks s' - used_blocks s)"
      using 4 g(3,4) 3 by blast
    moreover have "x div 4096 \<in> used_blocks s' - used_blocks s" if "mem s' x \<noteq> mem s x" for x
      using 5[rule_format, of x] g(5)[of x] g(3) 3 that by (cases "mem s' x = mem ?s2 x") (simp, blast)+
    moreover have "tree_look h' (mem s') root k = (if k < 512 ^ h then tree_look h (mem s) b k else 0)"
      if "k < 512 ^ h'" for k
      using 7[rule_format, OF that] g(6)[of k] by (auto split: if_splits)
    ultimately show ?thesis using 2 6 by (intro exI[of _ r] exI[of _ root] exI[of _ h'] exI[of _ s']) auto
  qed
qed simp

lemma tree_inode_write:
  assumes ctx: "tree_ctx pi h b s" and inv: "balloc_inv s'" "used_blocks s' = used_blocks s"
    and m: "\<And>x. mem s' x \<noteq> mem s x \<Longrightarrow> pi \<le> x \<and> x < pi + 128"
  shows "tree_ctx pi h b s'" "tree_meta h (mem s') b = tree_meta h (mem s) b"
    and "k < 512 ^ h \<Longrightarrow> tree_look h (mem s') b k = tree_look h (mem s) b k"
proof -
  have keep: "mem s' x = mem s x" if x: "x div 4096 \<in> tree_meta h (mem s) b" for x
  proof (rule ccontr)
    assume "mem s' x \<noteq> mem s x"
    then have "x = pi + (x - pi)" "x - pi < 128" using m[of x] by auto
    then have "x div 4096 = pi div 4096" using inode_page[of pi "x - pi"] ctx by (simp add: tree_ctx_def)
    then show False using x ctx by (simp add: tree_ctx_def)
  qed
  have "tree_wf h (mem s) b" using ctx by (simp add: tree_ctx_def)
  note tc = tree_cong[OF this keep]
  show "tree_meta h (mem s') b = tree_meta h (mem s) b" "k < 512 ^ h \<Longrightarrow> tree_look h (mem s') b k = tree_look h (mem s) b k"
    using tc by simp_all
  show "tree_ctx pi h b s'" using ctx inv tc by (simp add: tree_ctx_def)
qed

text \<open>The bytes of an inode that hold its map: height, flags, root and block count.\<close>

definition map_bytes :: "nat \<Rightarrow> nat set" where
  "map_bytes pi = {pi + 2..<pi + 3} \<union> {pi + 4..<pi + 16} \<union> {pi + 40..<pi + 48}"

lemma increase_height_file:
  assumes ctx: "file_ctx pi s" and H: "unat (pi_height (rd_inode (mem s) pi)) \<le> H" "H \<le> 3"
  shows "\<exists>r s'. pmfs_increase_btree_height pi H s = Some (r, s') \<and> file_ctx pi s'
    \<and> (r = Inr () \<longrightarrow> unat (pi_height (rd_inode (mem s') pi)) = H) \<and> used_blocks s \<subseteq> used_blocks s'
    \<and> file_meta pi (mem s') \<subseteq> file_meta pi (mem s) \<union> (used_blocks s' - used_blocks s)
    \<and> (\<forall>x. mem s' x \<noteq> mem s x \<longrightarrow> x div 4096 \<in> used_blocks s' - used_blocks s \<or> x \<in> map_bytes pi)
    \<and> file_look pi (mem s') = file_look pi (mem s)
    \<and> pi_blk_type (rd_inode (mem s') pi) = pi_blk_type (rd_inode (mem s) pi)"
proof -
  let ?i = "rd_inode (mem s) pi"
  define h b where "h = unat (pi_height ?i)" and "b = pi_root ?i"
  have c: "tree_ctx pi h b s" "b = 0 \<longrightarrow> h = 0" "pi_blk_type ?i \<le> 2"
    using ctx by (auto simp: file_ctx_def Let_def h_def b_def)
  have hH: "h + (H - h) = H" using H h_def by simp
  obtain r root h' s1 where
      1: "increase_loop (H - h) b h s = Some (r, root, h', s1)" and 2: "tree_ctx pi h' root s1"
      "root = 0 \<longrightarrow> h' = 0" "h' \<le> H" "r = Inr () \<longrightarrow> h' = H" and 3: "used_blocks s \<subseteq> used_blocks s1"
      and 4: "tree_meta h' (mem s1) root \<subseteq> tree_meta h (mem s) b \<union> (used_blocks s1 - used_blocks s)"
      and 5: "\<forall>x. mem s1 x \<noteq> mem s x \<longrightarrow> x div 4096 \<in> used_blocks s1 - used_blocks s"
      and 6: "h \<le> h'"
      and 7: "\<forall>k<512 ^ h'. tree_look h' (mem s1) root k = (if k < 512 ^ h then tree_look h (mem s) b k else 0)"
    using increase_loop_ctx[OF c(1,2), of "H - h", unfolded hH] by (elim exE conjE)
  define s' where "s' = upd_mem (\<lambda>m. wr8 (pi + 2) (of_nat h') (wr64 (pi + 8) root m)) s1"
  have w: "x \<in> {pi + 2..<pi + 3} \<union> {pi + 8..<pi + 16}" if "mem s' x \<noteq> mem s1 x" for x
    using that wrw_changed[of "pi + 2" "of_nat h' :: u8" "wr64 (pi + 8) root (mem s1)" x]
      wrw_changed[of "pi + 8" root "mem s1" x]
    by (cases "wr64 (pi + 8) root (mem s1) x = mem s1 x") (auto simp: s'_def)
  have t: "tree_ctx pi h' root s'" "tree_meta h' (mem s') root = tree_meta h' (mem s1) root"
    "k < 512 ^ h' \<Longrightarrow> tree_look h' (mem s') root k = tree_look h' (mem s1) root k" for k
    by (rule tree_inode_write[OF 2(1)]; (use 2(1) w in \<open>fastforce simp: s'_def tree_ctx_def\<close>)?)+
  have u: "used_blocks s' = used_blocks s1" by (simp add: s'_def)
  have h256: "unat (of_nat h' :: u8) = h'" using 2(3) H(2) by (simp add: unat_of_nat)
  have bt: "rd8 (mem s1) (pi + 3) = rd8 (mem s) (pi + 3)"
  proof (rule rdw_cong)
    fix x assume "pi + 3 \<le> x" "x < pi + 3 + LENGTH(8) div 8"
    then have "x = pi + 3" by simp
    then have "x div 4096 \<in> used_blocks s" using c(1) inode_page[of pi 3] by (simp add: tree_ctx_def)
    then show "mem s1 x = mem s x" using 5 by blast
  qed
  have i': "pi_height (rd_inode (mem s') pi) = of_nat h'" "pi_root (rd_inode (mem s') pi) = root"
    "pi_blk_type (rd_inode (mem s') pi) = pi_blk_type ?i"
    using bt by (simp_all add: s'_def rd_inode_def)
  have "(of_nat h' :: u8) \<le> 3" using h256 2(3) H(2) by (simp add: word_le_nat_alt)
  then have "file_ctx pi s'" using t(1) 2 c(3) h256 i' by (simp add: file_ctx_def Let_def)
  moreover have "file_look pi (mem s') = file_look pi (mem s)"
  proof
    fix k :: nat
    have "k < 512 ^ h'" if "k < 512 ^ h"
      using that power_increasing[OF 6, of "512::nat"] by linarith
    then show "file_look pi (mem s') k = file_look pi (mem s) k"
      using t(3)[of k] 7[rule_format, of k] by (auto simp: file_look_def Let_def i' h256 h_def[symmetric] b_def[symmetric])
  qed
  moreover have "pmfs_increase_btree_height pi H s = Some (r, s')"
    using 1 by (simp add: pmfs_increase_btree_height_def Let_def s'_def h_def b_def)
  moreover have "file_meta pi (mem s') \<subseteq> file_meta pi (mem s) \<union> (used_blocks s' - used_blocks s)"
    using 4 t(2) u by (simp add: file_meta_def Let_def i' h256 h_def b_def)
  moreover have "x div 4096 \<in> used_blocks s' - used_blocks s \<or> x \<in> map_bytes pi" if "mem s' x \<noteq> mem s x" for x
    using 5[rule_format, of x] w[of x] that u by (cases "mem s' x = mem s1 x") (auto simp: map_bytes_def)
  moreover have "r = Inr () \<longrightarrow> unat (pi_height (rd_inode (mem s') pi)) = H" using i'(1) h256 2(4) by metis
  ultimately show ?thesis using 3 u i'(3) by (intro exI[of _ r] exI[of _ s']) simp
qed

text \<open>\<open>file_grow pi bt lo hi s s'\<close>: the block map of the inode gained entries for numbers in \<open>[lo, hi]\<close> only,
  each made of blocks that were free and are apart from each other; nothing else changed.\<close>

definition file_grow :: "nat \<Rightarrow> u8 \<Rightarrow> nat \<Rightarrow> nat \<Rightarrow> fs \<Rightarrow> fs \<Rightarrow> bool" where
  "file_grow pi bt lo hi s s' \<longleftrightarrow>
     (let look = file_look pi (mem s); look' = file_look pi (mem s'); fresh = used_blocks s' - used_blocks s
      in file_ctx pi s' \<and> pi_blk_type (rd_inode (mem s') pi) = bt \<and> used_blocks s \<subseteq> used_blocks s'
        \<and> file_meta pi (mem s') \<subseteq> file_meta pi (mem s) \<union> fresh
        \<and> (\<forall>x. mem s' x \<noteq> mem s x \<longrightarrow> x div 4096 \<in> file_meta pi (mem s) \<union> fresh \<or> x \<in> map_bytes pi)
        \<and> (\<forall>k. look k \<noteq> 0 \<or> k < lo \<or> hi < k \<longrightarrow> look' k = look k)
        \<and> (\<forall>k. look k = 0 \<longrightarrow> look' k \<noteq> 0 \<longrightarrow> 4096 dvd unat (look' k) \<and> data_run bt (look' k) \<subseteq> fresh - file_meta pi (mem s'))
        \<and> (\<forall>k k'. look k = 0 \<longrightarrow> look' k \<noteq> 0 \<longrightarrow> look k' = 0 \<longrightarrow> look' k' \<noteq> 0 \<longrightarrow> k \<noteq> k' \<longrightarrow>
             data_run bt (look' k) \<inter> data_run bt (look' k') = {}))"

lemma file_growI:
  assumes "file_ctx pi s'" "pi_blk_type (rd_inode (mem s') pi) = bt" "used_blocks s \<subseteq> used_blocks s'"
    and "file_meta pi (mem s') \<subseteq> file_meta pi (mem s) \<union> (used_blocks s' - used_blocks s)"
    and "\<And>x. mem s' x \<noteq> mem s x \<Longrightarrow> x div 4096 \<in> file_meta pi (mem s) \<union> (used_blocks s' - used_blocks s) \<or> x \<in> map_bytes pi"
    and "\<And>k. file_look pi (mem s) k \<noteq> 0 \<or> k < lo \<or> hi < k \<Longrightarrow> file_look pi (mem s') k = file_look pi (mem s) k"
    and "\<And>k. file_look pi (mem s) k = 0 \<Longrightarrow> file_look pi (mem s') k \<noteq> 0 \<Longrightarrow>
      4096 dvd unat (file_look pi (mem s') k) \<and> data_run bt (file_look pi (mem s') k) \<subseteq> used_blocks s' - used_blocks s - file_meta pi (mem s')"
    and "\<And>k k'. file_look pi (mem s) k = 0 \<Longrightarrow> file_look pi (mem s') k \<noteq> 0 \<Longrightarrow> file_look pi (mem s) k' = 0 \<Longrightarrow>
      file_look pi (mem s') k' \<noteq> 0 \<Longrightarrow> k \<noteq> k' \<Longrightarrow> data_run bt (file_look pi (mem s') k) \<inter> data_run bt (file_look pi (mem s') k') = {}"
  shows "file_grow pi bt lo hi s s'"
  unfolding file_grow_def Let_def using assms by blast

lemma file_growD:
  assumes "file_grow pi bt lo hi s s'"
  shows "file_ctx pi s'" "pi_blk_type (rd_inode (mem s') pi) = bt" "used_blocks s \<subseteq> used_blocks s'"
    and "file_meta pi (mem s') \<subseteq> file_meta pi (mem s) \<union> (used_blocks s' - used_blocks s)"
    and "mem s' x \<noteq> mem s x \<Longrightarrow> x div 4096 \<in> file_meta pi (mem s) \<union> (used_blocks s' - used_blocks s) \<or> x \<in> map_bytes pi"
    and "file_look pi (mem s) k \<noteq> 0 \<or> k < lo \<or> hi < k \<Longrightarrow> file_look pi (mem s') k = file_look pi (mem s) k"
    and "file_look pi (mem s) k = 0 \<Longrightarrow> file_look pi (mem s') k \<noteq> 0 \<Longrightarrow>
      4096 dvd unat (file_look pi (mem s') k) \<and> data_run bt (file_look pi (mem s') k) \<subseteq> used_blocks s' - used_blocks s - file_meta pi (mem s')"
    and "file_look pi (mem s) k = 0 \<Longrightarrow> file_look pi (mem s') k \<noteq> 0 \<Longrightarrow> file_look pi (mem s) k' = 0 \<Longrightarrow>
      file_look pi (mem s') k' \<noteq> 0 \<Longrightarrow> k \<noteq> k' \<Longrightarrow> data_run bt (file_look pi (mem s') k) \<inter> data_run bt (file_look pi (mem s') k') = {}"
  using assms unfolding file_grow_def Let_def by blast+

lemma file_grow_after:
  assumes "file_grow pi bt lo hi s s1" "file_look pi (mem s1) = file_look pi (mem s)" "file_grow pi bt lo hi s1 s'"
  shows "file_grow pi bt lo hi s s'"
proof -
  note a = file_growD[OF assms(1)] and b = file_growD[OF assms(3), unfolded assms(2)]
  show ?thesis
  proof (rule file_growI)
    fix x assume "mem s' x \<noteq> mem s x"
    then show "x div 4096 \<in> file_meta pi (mem s) \<union> (used_blocks s' - used_blocks s) \<or> x \<in> map_bytes pi"
      using a(3,4) a(5)[of x] b(3) b(5)[of x] by (cases "mem s' x = mem s1 x") (simp, blast)+
  next
    fix k assume "file_look pi (mem s) k = 0" "file_look pi (mem s') k \<noteq> 0"
    then show "4096 dvd unat (file_look pi (mem s') k) \<and> data_run bt (file_look pi (mem s') k) \<subseteq> used_blocks s' - used_blocks s - file_meta pi (mem s')"
      using b(7) a(3) by blast
  next
    show "file_meta pi (mem s') \<subseteq> file_meta pi (mem s) \<union> (used_blocks s' - used_blocks s)"
      using a(3,4) b(3,4) by blast
    show "used_blocks s \<subseteq> used_blocks s'" using a(3) b(3) by blast
  qed (fact b)+
qed

lemma file_grow_refl: "file_ctx pi s \<Longrightarrow> pi_blk_type (rd_inode (mem s) pi) = bt \<Longrightarrow> file_grow pi bt lo hi s s"
  by (rule file_growI) auto

lemma tree_grow_inode_byte:
  assumes "tree_ctx pi h b s" "tree_grow pi bt h b lo hi s s'" "j < 128" "pi + j \<notin> inode_bytes pi"
  shows "mem s' (pi + j) = mem s (pi + j)"
proof (rule ccontr)
  assume "mem s' (pi + j) \<noteq> mem s (pi + j)"
  from tree_growD(6)[OF assms(2) this] show False
    using assms inode_page[of pi j] by (auto simp: tree_ctx_def)
qed

lemma tree_grow_inode:
  assumes "tree_ctx pi h b s" "tree_grow pi bt h b lo hi s s'"
  shows "pi_height (rd_inode (mem s') pi) = pi_height (rd_inode (mem s) pi)"
    "pi_root (rd_inode (mem s') pi) = pi_root (rd_inode (mem s) pi)"
    "pi_blk_type (rd_inode (mem s') pi) = pi_blk_type (rd_inode (mem s) pi)"
proof -
  have k: "mem s' x = mem s x" if "pi \<le> x" "x < pi + 128" "x \<notin> inode_bytes pi" for x
    using tree_grow_inode_byte[OF assms, of "x - pi"] that by simp
  have "rd8 (mem s') (pi + 2) = rd8 (mem s) (pi + 2)" "rd64 (mem s') (pi + 8) = rd64 (mem s) (pi + 8)"
    "rd8 (mem s') (pi + 3) = rd8 (mem s) (pi + 3)"
    by (rule rdw_cong, rule k; simp add: inode_bytes_def)+
  then show "pi_height (rd_inode (mem s') pi) = pi_height (rd_inode (mem s) pi)"
    "pi_root (rd_inode (mem s') pi) = pi_root (rd_inode (mem s) pi)"
    "pi_blk_type (rd_inode (mem s') pi) = pi_blk_type (rd_inode (mem s) pi)"
    by (simp_all add: rd_inode_def)
qed

lemma tree_grow_file:
  assumes ctx: "file_ctx pi s" and bt: "pi_blk_type (rd_inode (mem s) pi) = bt"
    and h: "h = unat (pi_height (rd_inode (mem s) pi))" and b: "b = pi_root (rd_inode (mem s) pi)"
    and g: "tree_grow pi bt h b lo hi s s'"
  shows "file_grow pi bt lo hi s s'"
proof -
  have c: "tree_ctx pi h b s" using ctx by (simp add: file_ctx_def Let_def h b)
  note i = tree_grow_inode[OF c g] and d = tree_growD[OF g]
  have L: "file_look pi (mem s) k = (if k < 512 ^ h then tree_look h (mem s) b k else 0)"
    "file_look pi (mem s') k = (if k < 512 ^ h then tree_look h (mem s') b k else 0)" for k
    by (simp_all add: file_look_def Let_def i h b)
  have M: "file_meta pi (mem s) = tree_meta h (mem s) b" "file_meta pi (mem s') = tree_meta h (mem s') b"
    by (simp_all add: file_meta_def Let_def i h b)
  have N: "new_in h b (mem s) (mem s') k" if "file_look pi (mem s) k = 0" "file_look pi (mem s') k \<noteq> 0" for k
    using that by (auto simp: L new_in_def split: if_splits)
  show ?thesis
  proof (rule file_growI)
    show "file_ctx pi s'" using ctx tree_grow_ctx[OF c g] by (simp add: file_ctx_def Let_def i h b)
    show "pi_blk_type (rd_inode (mem s') pi) = bt" using i bt by simp
    show "x div 4096 \<in> file_meta pi (mem s) \<union> (used_blocks s' - used_blocks s) \<or> x \<in> map_bytes pi"
      if "mem s' x \<noteq> mem s x" for x
      using d(6)[OF that] by (auto simp: M inode_bytes_def map_bytes_def)
    show "file_look pi (mem s') k = file_look pi (mem s) k" if "file_look pi (mem s) k \<noteq> 0 \<or> k < lo \<or> hi < k" for k
      using d(7)[of k] that by (auto simp: L split: if_splits)
    show "4096 dvd unat (file_look pi (mem s') k) \<and> data_run bt (file_look pi (mem s') k) \<subseteq> used_blocks s' - used_blocks s - file_meta pi (mem s')"
      if "file_look pi (mem s) k = 0" "file_look pi (mem s') k \<noteq> 0" for k
      using d(8)[OF N[OF that]] N[OF that] by (simp add: L M new_in_def)
    show "data_run bt (file_look pi (mem s') k) \<inter> data_run bt (file_look pi (mem s') k') = {}"
      if "file_look pi (mem s) k = 0" "file_look pi (mem s') k \<noteq> 0" "file_look pi (mem s) k' = 0"
        "file_look pi (mem s') k' \<noteq> 0" "k \<noteq> k'" for k k'
      using d(9)[OF N[OF that(1,2)] N[OF that(3,4)] that(5)] N[OF that(1,2)] N[OF that(3,4)] by (simp add: L new_in_def)
  qed (use d in \<open>simp_all add: M\<close>)
qed

lemma alloc_root_file:
  assumes ctx: "file_ctx pi s" and bt: "pi_blk_type (rd_inode (mem s) pi) = bt" and r0: "pi_root (rd_inode (mem s) pi) = 0"
    and n: "pmfs_new_block bt zero s = Some (Inr B, s1)" "balloc_inv s2" "used_blocks s2 = used_blocks s1"
      "\<And>x. mem s2 x \<noteq> mem s1 x \<Longrightarrow> x \<in> inode_bytes pi"
  defines "s' \<equiv> upd_mem (\<lambda>m. wr8 (pi + 2) 0 (wr64 (pi + 8) (pmfs_get_block_off B) m)) s2"
  shows "file_grow pi bt 0 0 s s'" "file_look pi (mem s') 0 \<noteq> 0"
proof -
  let ?p = "pmfs_get_block_off B"
  have h0: "pi_height (rd_inode (mem s) pi) = 0" and bt2: "bt \<le> 2"
    and c: "balloc_inv s" "pi div 4096 \<in> used_blocks s" "pi mod 4096 \<le> 3968"
    using ctx r0 bt by (auto simp: file_ctx_def Let_def tree_ctx_def)
  note f = pmfs_new_block_facts[OF c(1) n(1)] and pos = pmfs_new_block_pos[OF c(1) n(1)]
  have p: "?p \<noteq> 0" using pos unat_block_off[OF pos(2)] by (auto simp: word_unat_eq_iff)
  have us: "used_blocks s' = used_blocks s \<union> block_run bt B" using f(2) n(3) by (simp add: s'_def)
  have w: "x \<in> map_bytes pi" if "mem s' x \<noteq> mem s2 x" for x
    using that wrw_changed[of "pi + 2" "0 :: u8" "wr64 (pi + 8) ?p (mem s2)" x] wrw_changed[of "pi + 8" ?p "mem s2" x]
    by (cases "wr64 (pi + 8) ?p (mem s2) x = mem s2 x") (auto simp: s'_def map_bytes_def)
  have fr: "x div 4096 \<in> block_run bt B \<or> x \<in> map_bytes pi" if "mem s' x \<noteq> mem s x" for x
    using that w[of x] f(4)[of x] n(4)[of x]
    by (cases "mem s' x = mem s2 x"; cases "mem s2 x = mem s1 x") (auto simp: inode_bytes_def map_bytes_def)
  have "mem s' (pi + 3) = mem s (pi + 3)"
  proof (rule ccontr)
    assume "mem s' (pi + 3) \<noteq> mem s (pi + 3)"
    from fr[OF this] show False using inode_page[OF c(3), of 3] c(2) f(3) by (auto simp: map_bytes_def)
  qed
  then have "rd8 (mem s') (pi + 3) = rd8 (mem s) (pi + 3)" by (simp add: rdw_def)
  then have i': "pi_height (rd_inode (mem s') pi) = 0" "pi_root (rd_inode (mem s') pi) = ?p"
      "pi_blk_type (rd_inode (mem s') pi) = bt"
    using bt by (simp_all add: s'_def rd_inode_def)
  have L: "file_look pi (mem s) k = 0" "file_look pi (mem s') k = (if k = 0 then ?p else 0)" for k
    by (simp_all add: file_look_def Let_def h0 r0 i')
  have M: "file_meta pi m = {}" if "m = mem s \<or> m = mem s'" for m
    using that by (auto simp: file_meta_def Let_def h0 i')
  have dr: "data_run bt ?p = block_run bt B" by (simp add: data_run_def blocknr_of_off[OF pos(2)])
  show "file_look pi (mem s') 0 \<noteq> 0" using p by (simp add: L)
  show "file_grow pi bt 0 0 s s'"
  proof (rule file_growI)
    have "balloc_inv s'" using n(2) by (simp add: s'_def)
    then show "file_ctx pi s'" using us c bt2 by (simp add: file_ctx_def Let_def i' tree_ctx_def)
    show "x div 4096 \<in> file_meta pi (mem s) \<union> (used_blocks s' - used_blocks s) \<or> x \<in> map_bytes pi"
      if "mem s' x \<noteq> mem s x" for x using fr[OF that] us f(3) by auto
    show "4096 dvd unat (file_look pi (mem s') k) \<and> data_run bt (file_look pi (mem s') k) \<subseteq> used_blocks s' - used_blocks s - file_meta pi (mem s')"
      if "file_look pi (mem s') k \<noteq> 0" for k
      using that us f(3) dr by (auto simp: L M unat_block_off[OF pos(2)] split: if_splits)
  qed (auto simp: L M us i' split: if_splits)
qed

text \<open>The height that \<open>__pmfs_alloc_blocks\<close> settles on has room for the last block.\<close>

lemma alloc_height:
  fixes hi :: u64
  assumes "h \<le> 3"
  shows "push_bit (h * 9) 1 - 1 < hi \<longleftrightarrow> 512 ^ h \<le> unat hi"
    and "unat hi < 512 ^ (h + tree_height (unat (drop_bit (h * 9) hi)))"
proof -
  have m: "unat (push_bit (h * 9) 1 - 1 :: u64) = 512 ^ h - 1" using assms by (intro unat_low_mask) simp
  have "(0::nat) < 512 ^ h" by simp
  then show "push_bit (h * 9) 1 - 1 < hi \<longleftrightarrow> 512 ^ h \<le> unat hi"
    unfolding word_less_nat_alt m by linarith
  have "unat hi div 512 ^ h < 512 ^ tree_height (unat hi div 512 ^ h)" by (rule tree_height_bound)
  then have "unat hi < 512 ^ tree_height (unat hi div 512 ^ h) * 512 ^ h"
    by (simp only: div_less_iff_less_mult[OF \<open>0 < 512 ^ h\<close>])
  then show "unat hi < 512 ^ (h + tree_height (unat (drop_bit (h * 9) hi)))"
    by (simp only: unat_drop_bit_div pow_512[symmetric] power_add) (simp only: mult.commute)
qed

lemma increase_height_grow:
  assumes ctx: "file_ctx pi s" and H: "unat (pi_height (rd_inode (mem s) pi)) \<le> H" "H \<le> 3"
  obtains r s' where "pmfs_increase_btree_height pi H s = Some (r, s')"
    "file_grow pi (pi_blk_type (rd_inode (mem s) pi)) lo hi s s'" "file_look pi (mem s') = file_look pi (mem s)"
    "r = Inr () \<longrightarrow> unat (pi_height (rd_inode (mem s') pi)) = H"
proof -
  obtain r s' where 1: "pmfs_increase_btree_height pi H s = Some (r, s')" "file_ctx pi s'"
      "r = Inr () \<longrightarrow> unat (pi_height (rd_inode (mem s') pi)) = H" "used_blocks s \<subseteq> used_blocks s'"
      "file_meta pi (mem s') \<subseteq> file_meta pi (mem s) \<union> (used_blocks s' - used_blocks s)"
      "\<forall>x. mem s' x \<noteq> mem s x \<longrightarrow> x div 4096 \<in> used_blocks s' - used_blocks s \<or> x \<in> map_bytes pi"
      "file_look pi (mem s') = file_look pi (mem s)"
      "pi_blk_type (rd_inode (mem s') pi) = pi_blk_type (rd_inode (mem s) pi)"
    using increase_height_file[OF assms] by (elim exE conjE)
  have "file_grow pi (pi_blk_type (rd_inode (mem s) pi)) lo hi s s'"
    by (rule file_growI) (use 1 in auto)
  then show ?thesis using that 1(1,3,7) by blast
qed

lemma alloc_file_tree:
  assumes ctx: "file_ctx pi s" and bt: "pi_blk_type (rd_inode (mem s) pi) = bt"
    and H: "unat (pi_height (rd_inode (mem s) pi)) = H" "0 < H" and k: "unat hi < 512 ^ H" "lo \<le> hi"
  obtains r s' where "recursive_alloc_blocks H tr pi zero (pi_root (rd_inode (mem s) pi)) lo hi nn s = Some (r, s')"
    "file_grow pi bt (unat lo) (unat hi) s s'"
    "r = Inr () \<longrightarrow> (\<forall>k. unat lo \<le> k \<longrightarrow> k \<le> unat hi \<longrightarrow> file_look pi (mem s') k \<noteq> 0)"
proof -
  obtain h where h: "H = Suc h" using H(2) by (cases H) auto
  let ?b = "pi_root (rd_inode (mem s) pi)"
  have c: "tree_ctx pi (Suc h) ?b s" "?b \<noteq> 0" "h \<le> 6"
    using ctx H h by (auto simp: file_ctx_def Let_def word_le_nat_alt)
  have lo: "unat lo < 512 ^ Suc h" using k h by (simp add: word_le_nat_alt)
  obtain r s' where r: "recursive_alloc_blocks (Suc h) tr pi zero ?b lo hi nn s = Some (r, s')"
      "tree_grow pi bt (Suc h) ?b (unat lo) (unat hi) s s'"
      "r = Inr () \<longrightarrow> (\<forall>k. unat lo \<le> k \<longrightarrow> k \<le> unat hi \<longrightarrow> k < 512 ^ Suc h \<longrightarrow> tree_look (Suc h) (mem s') ?b k \<noteq> 0)"
    using recursive_alloc_grow[OF c(1,2) bt lo k(1)[unfolded h] c(3)] by blast
  note i = tree_grow_inode[OF c(1) r(2)]
  have g: "file_grow pi bt (unat lo) (unat hi) s s'"
    by (rule tree_grow_file[OF ctx bt H(1)[symmetric] refl r(2)[folded h]])
  have "file_look pi (mem s') k \<noteq> 0" if a: "r = Inr ()" "unat lo \<le> k" "k \<le> unat hi" for k
  proof -
    have "k < 512 ^ Suc h" using a(3) k(1) h by simp
    then have "tree_look (Suc h) (mem s') ?b k \<noteq> 0" using r(3) a by blast
    then show ?thesis using \<open>k < 512 ^ Suc h\<close> unfolding file_look_def Let_def i H h by simp
  qed
  then show ?thesis using that r(1) g h by blast
qed

text \<open>Raising the tree to height \<open>H\<close> and then filling the range.\<close>

lemma alloc_raised_tree:
  assumes ctx: "file_ctx pi s" and bt: "pi_blk_type (rd_inode (mem s) pi) = bt"
    and H: "unat (pi_height (rd_inode (mem s) pi)) \<le> H" "H \<le> 3" "0 < H" and k: "unat hi < 512 ^ H" "lo \<le> hi"
  obtains e s' where "pmfs_increase_btree_height pi H s = Some (Inl e, s')" "file_grow pi bt (unat lo) (unat hi) s s'"
  | s1 r s' where "pmfs_increase_btree_height pi H s = Some (Inr (), s1)"
      "unat (pi_height (rd_inode (mem s1) pi)) = H"
      "recursive_alloc_blocks H tr pi zero (pi_root (rd_inode (mem s1) pi)) lo hi nn s1 = Some (r, s')"
      "file_grow pi bt (unat lo) (unat hi) s s'"
      "r = Inr () \<longrightarrow> (\<forall>k. unat lo \<le> k \<longrightarrow> k \<le> unat hi \<longrightarrow> file_look pi (mem s') k \<noteq> 0)"
proof -
  obtain r1 s1 where 1: "pmfs_increase_btree_height pi H s = Some (r1, s1)"
    "file_grow pi bt (unat lo) (unat hi) s s1" "file_look pi (mem s1) = file_look pi (mem s)"
    "r1 = Inr () \<longrightarrow> unat (pi_height (rd_inode (mem s1) pi)) = H"
    by (rule increase_height_grow[OF ctx H(1,2), where lo = "unat lo" and hi = "unat hi", unfolded bt])
  show thesis
  proof (cases r1)
    case (Inl e)
    then show thesis using that(1) 1(1,2) by blast
  next
    case (Inr u)
    note g = file_growD[OF 1(2)]
    have h: "unat (pi_height (rd_inode (mem s1) pi)) = H" using 1(4) Inr by simp
    obtain r s' where r: "recursive_alloc_blocks H tr pi zero (pi_root (rd_inode (mem s1) pi)) lo hi nn s1 = Some (r, s')"
      "file_grow pi bt (unat lo) (unat hi) s1 s'"
      "r = Inr () \<longrightarrow> (\<forall>k. unat lo \<le> k \<longrightarrow> k \<le> unat hi \<longrightarrow> file_look pi (mem s') k \<noteq> 0)"
      by (rule alloc_file_tree[OF g(1,2) h H(3) k])
    show thesis
      by (rule that(2)[OF _ h r(1) file_grow_after[OF 1(2,3) r(2)] r(3)]) (use 1(1) Inr in auto)
  qed
qed

lemma raw_alloc_grow:
  fixes s pi fb num
  defines "sh \<equiv> blk_type_to_shift (pi_blk_type (rd_inode (mem s) pi)) - s_blocksize_bits s"
  defines "lo \<equiv> drop_bit sh fb" and "hi \<equiv> drop_bit sh (fb + ucast num - 1)"
  assumes ctx: "file_ctx pi s" and bt: "pi_blk_type (rd_inode (mem s) pi) = bt" and lh: "lo \<le> hi"
  shows "\<exists>r s'. raw_pmfs_alloc_blocks tr pi fb num zero s = Some (r, s') \<and> file_grow pi bt (unat lo) (unat hi) s s'
    \<and> (r = Inr () \<longrightarrow> (\<forall>k. unat lo \<le> k \<longrightarrow> k \<le> unat hi \<longrightarrow> file_look pi (mem s') k \<noteq> 0))
    \<and> (512 ^ 3 \<le> unat hi \<longrightarrow> r = Inl ENOSPC \<and> s' = s)"
proof -
  define h where "h = unat (pi_height (rd_inode (mem s) pi))"
  define H where "H = (if 512 ^ h \<le> unat hi then h + tree_height (unat (drop_bit (h * 9) hi)) else h)"
  have c: "h \<le> 3" "pi_root (rd_inode (mem s) pi) = 0 \<longrightarrow> h = 0"
    using ctx by (auto simp: file_ctx_def Let_def h_def word_le_nat_alt)
  note ah = alloc_height[OF c(1), of hi]
  have hiH: "unat hi < 512 ^ H" using ah(2) by (simp add: H_def)
  have h3: "512 ^ h \<le> unat hi \<and> 3 < H" if "512 ^ 3 \<le> unat hi"
  proof
    show "512 ^ h \<le> unat hi" using that power_increasing[OF c(1), of "512::nat"] by linarith
    show "3 < H" using that hiH power_increasing[of H 3 "512::nat"] by (cases "H \<le> 3") auto
  qed
  note U = raw_pmfs_alloc_blocks_def Let_def h_def[symmetric] sh_def[symmetric] lo_def[symmetric] hi_def[symmetric]
    ah(1) H_def[symmetric]
  have body: "\<exists>r s'. raw_pmfs_alloc_blocks tr pi fb num zero s = Some (r, s') \<and> file_grow pi bt (unat lo) (unat hi) s s'
      \<and> (r = Inr () \<longrightarrow> (\<forall>k. unat lo \<le> k \<longrightarrow> k \<le> unat hi \<longrightarrow> file_look pi (mem s') k \<noteq> 0))"
    if F: "\<not> (512 ^ h \<le> unat hi \<and> H > 3)"
  proof -
    have H3: "H \<le> 3" "h \<le> H" using F c(1) by (auto simp: H_def split: if_splits)
    have z: "unat hi = 0" "unat lo = 0" if "H = 0" using hiH lh that by (auto simp: word_le_nat_alt)
    consider (root) "pi_root (rd_inode (mem s) pi) = 0" "H = 0" | (one) "pi_root (rd_inode (mem s) pi) \<noteq> 0" "H = 0"
      | (raise) "pi_root (rd_inode (mem s) pi) = 0 \<or> h < H" "0 < H"
      | (same) "pi_root (rd_inode (mem s) pi) \<noteq> 0" "H = h" "0 < H" using H3 by linarith
    then show ?thesis
    proof cases
      case one
      then have "raw_pmfs_alloc_blocks tr pi fb num zero s = Some (Inr (), s)" unfolding U using F by simp
      moreover have "file_look pi (mem s) 0 \<noteq> 0" using one H3 h_def by (simp add: file_look_def Let_def)
      ultimately show ?thesis using file_grow_refl[OF ctx bt] z one by auto
    next
      case same
      have h0: "0 < h" using same by simp
      obtain r s' where r: "recursive_alloc_blocks h tr pi zero (pi_root (rd_inode (mem s) pi)) lo hi False s = Some (r, s')"
        "file_grow pi bt (unat lo) (unat hi) s s'"
        "r = Inr () \<longrightarrow> (\<forall>k. unat lo \<le> k \<longrightarrow> k \<le> unat hi \<longrightarrow> file_look pi (mem s') k \<noteq> 0)"
        by (rule alloc_file_tree[OF ctx bt h_def[symmetric] h0 hiH[unfolded same(2)] lh])
      have "raw_pmfs_alloc_blocks tr pi fb num zero s = Some (r, s')" unfolding U using F same r(1) by auto
      then show ?thesis using r by blast
    next
      case raise
      note rt = alloc_raised_tree[OF ctx bt H3(2)[unfolded h_def] H3(1) raise(2) hiH lh]
      show ?thesis
      proof (rule rt[where tr = tr and zero = zero and nn = "pi_root (rd_inode (mem s) pi) = 0"])
        fix e s' assume e: "pmfs_increase_btree_height pi H s = Some (Inl e, s')" "file_grow pi bt (unat lo) (unat hi) s s'"
        then have "raw_pmfs_alloc_blocks tr pi fb num zero s = Some (Inl e, s')" unfolding U using F raise by auto
        then show ?thesis using e by blast
      next
        fix s1 r s' assume r: "pmfs_increase_btree_height pi H s = Some (Inr (), s1)"
          "unat (pi_height (rd_inode (mem s1) pi)) = H"
          "recursive_alloc_blocks H tr pi zero (pi_root (rd_inode (mem s1) pi)) lo hi (pi_root (rd_inode (mem s) pi) = 0) s1 = Some (r, s')"
          "file_grow pi bt (unat lo) (unat hi) s s'"
          "r = Inr () \<longrightarrow> (\<forall>k. unat lo \<le> k \<longrightarrow> k \<le> unat hi \<longrightarrow> file_look pi (mem s') k \<noteq> 0)"
        have "raw_pmfs_alloc_blocks tr pi fb num zero s = Some (r, s')"
          unfolding U using F raise r(1-3) by (auto simp: Let_def)
        then show ?thesis using r by blast
      qed
    next
      case root
      have inv: "balloc_inv s" using ctx by (simp add: file_ctx_def Let_def tree_ctx_def)
      then show ?thesis
      proof (cases rule: pmfs_new_data_block_cases[where pi = pi and zero = zero])
        case (err e s1)
        have "file_ctx pi s1" using ctx err(2-4) by (simp add: file_ctx_def Let_def tree_ctx_def)
        then have "file_grow pi bt (unat lo) (unat hi) s s1" using err(3,4) bt by (intro file_growI) auto
        moreover have "raw_pmfs_alloc_blocks tr pi fb num zero s = Some (Inl e, s1)" unfolding U using F root err(1) by simp
        ultimately show ?thesis by blast
      next
        case (ok B s1 s2)
        note g = alloc_root_file[OF ctx bt root(1) ok(2)[unfolded bt] ok(3-5)]
        have "raw_pmfs_alloc_blocks tr pi fb num zero s =
            Some (Inr (), upd_mem (\<lambda>m. wr8 (pi + 2) 0 (wr64 (pi + 8) (pmfs_get_block_off B) m)) s2)"
          unfolding U using F root ok(1) by simp
        then show ?thesis using g z[OF root(2)] by auto
      qed
    qed
  qed
  show ?thesis
  proof (cases "512 ^ h \<le> unat hi \<and> H > 3")
    case True
    then have "raw_pmfs_alloc_blocks tr pi fb num zero s = Some (Inl ENOSPC, s)" unfolding U by simp
    then show ?thesis using file_grow_refl[OF ctx bt] by blast
  qed (use body h3 in blast)
qed

text \<open>Lookup and allocation in terms of the block map.\<close>

lemma find_data_block_file:
  fixes k :: u64
  defines "sh s pi \<equiv> blk_type_to_shift (pi_blk_type (rd_inode (mem s) pi)) - s_blocksize_bits s"
  assumes "file_ctx pi s" "pi \<noteq> 0" "pmfs_get_inode s (i_ino inode) = Some pi"
  shows "pmfs_find_data_block inode k s =
    Some (let p = file_look pi (mem s) (unat k div 2 ^ sh s pi)
          in if p = 0 then 0 else p + push_bit (s_blocksize_bits s) (k AND mask (sh s pi)))"
proof -
  let ?i = "rd_inode (mem s) pi"
  let ?h = "unat (pi_height ?i)" and ?k = "drop_bit (sh s pi) k"
  have h: "?h \<le> 3" "?h = 0 \<or> pi_root ?i \<noteq> 0" using assms(2) by (auto simp: file_ctx_def Let_def word_le_nat_alt)
  have "(2::nat) ^ (?h * 9) \<le> 2 ^ 27" using h(1) by (intro power_increasing) auto
  then have cap: "unat (push_bit (?h * 9) 1 :: u64) = 512 ^ ?h" by (subst unat_push_bit_fits) (auto simp: pow_512)
  have k: "unat ?k = unat k div 2 ^ sh s pi" by (rule unat_drop_bit_div)
  show ?thesis
  proof (cases "unat ?k < 512 ^ ?h")
    case True
    then have "raw_pmfs_find_data_block s pi ?k = Some (file_look pi (mem s) (unat ?k))"
      unfolding raw_pmfs_find_data_block_def Let_def file_look_def using find_data_block_look[OF _ h(2)] by simp
    moreover have "\<not> push_bit (?h * 9) 1 \<le> ?k" using True by (simp only: word_le_nat_alt cap not_le)
    ultimately show ?thesis
      using assms(3,4) by (simp add: pmfs_find_data_block_def Let_def sh_def[symmetric] mask_eq_exp_minus_1 k)
  next
    case False
    then have "push_bit (?h * 9) 1 \<le> ?k" by (simp only: word_le_nat_alt cap not_less)
    moreover have "file_look pi (mem s) (unat ?k) = 0" using False by (simp add: file_look_def Let_def)
    ultimately show ?thesis
      using assms(3,4) by (simp add: pmfs_find_data_block_def Let_def sh_def[symmetric] mask_eq_exp_minus_1 k)
  qed
qed

lemma alloc_blocks_file:
  fixes fb :: u64 and num :: u32
  defines "sh s pi \<equiv> blk_type_to_shift (pi_blk_type (rd_inode (mem s) pi)) - s_blocksize_bits s"
  defines "lo s pi \<equiv> unat fb div 2 ^ sh s pi" and "hi s pi \<equiv> (unat fb + unat num - 1) div 2 ^ sh s pi"
  assumes "file_ctx pi s" "num \<noteq> 0" "unat fb + unat num < 2 ^ 64"
  shows "\<exists>r s'. raw_pmfs_alloc_blocks tr pi fb num zero s = Some (r, s')
    \<and> file_grow pi (pi_blk_type (rd_inode (mem s) pi)) (lo s pi) (hi s pi) s s'
    \<and> (r = Inr () \<longrightarrow> (\<forall>k. lo s pi \<le> k \<longrightarrow> k \<le> hi s pi \<longrightarrow> file_look pi (mem s') k \<noteq> 0))
    \<and> (512 ^ 3 \<le> hi s pi \<longrightarrow> r = Inl ENOSPC \<and> s' = s)"
proof -
  have n0: "unat num \<noteq> 0" using assms(5) by (simp add: unat_eq_0)
  have u: "unat (ucast num :: u64) = unat num" using unat_less_size[of num] by (subst unat_ucast_fits) auto
  then have s1: "unat (fb + ucast num) = unat fb + unat num" using assms(6) by (subst unat_plus_fits) auto
  have "unat (fb + ucast num - 1) = unat fb + unat num - 1" using s1 n0 by (subst unat_minus_fits) auto
  then have l: "unat (drop_bit (sh s pi) fb) = lo s pi" and h: "unat (drop_bit (sh s pi) (fb + ucast num - 1)) = hi s pi"
    by (simp_all only: unat_drop_bit_div lo_def hi_def)
  have "unat fb \<le> unat fb + unat num - 1" using n0 by linarith
  then have "lo s pi \<le> hi s pi" unfolding lo_def hi_def by (rule div_le_mono)
  then have "drop_bit (sh s pi) fb \<le> drop_bit (sh s pi) (fb + ucast num - 1)"
    by (simp only: word_le_nat_alt l h)
  from raw_alloc_grow[OF assms(4) refl this[unfolded sh_def]] show ?thesis
    unfolding sh_def[symmetric] l h .
qed

section \<open>Properties of the block trees\<close>

text \<open>A device whose inode table is one block, with an inode at 4224 that has a tree of height 1 with
  block number 3 mapped.\<close>

definition ex_file :: fs where
  "ex_file = upd_mem (\<lambda>m. wr64 40 256 (wr64 264 4096 (wr8 4226 1 (wr64 4232 8192 (wr64 8216 20480 m))))) ex_balloc"

lemma ex_file_inode: "rd_inode (mem ex_file) 4224 = \<lparr>pi_height = 1, pi_blk_type = 0, pi_flags = 0, pi_root = 8192,
    pi_size = 0, pi_ctime = 0, pi_mtime = 0, pi_dtime = 0, pi_mode = 0, pi_links_count = 0, pi_blocks = 0, pi_uid = 0,
    pi_gid = 0, pi_generation = 0, pi_atime = 0, pi_rdev = 0, pi_nvmblock = 0, pi_blkoff = 0\<rparr>"
  by (simp add: rd_inode_def ex_file_def ex_balloc_simps)

lemma ex_file_get_inode: "pmfs_get_inode ex_file 128 = Some 4224"
  by (simp add: pmfs_get_inode_def pmfs_get_inode_table_def raw_pmfs_find_data_block_def pmfs_inode_blk_shift_def
    pmfs_inode_blk_size_def rd_super_def rd_inode_def blk_type_to_shift_def blk_type_to_size_def ex_file_def ex_balloc_simps)

lemma ex_file_used: "used_blocks ex_file = {0..3} \<union> {600..700}"
  by (auto simp: used_blocks_def used_def run_of_def ex_file_def ex_balloc_simps)

lemma ex_file_ctx: "file_ctx 4224 ex_file"
proof -
  have "balloc_inv ex_file" using balloc_inv_ex by (simp add: ex_file_def)
  then show ?thesis
    by (simp add: file_ctx_def ex_file_inode tree_ctx_def ex_file_used)
qed

text \<open>C19. Lookup reads the tree as a map: on a well-formed inode \<open>pmfs_find_data_block\<close> returns, for every
  file block number, the byte offset of that 4K block, computed from the block map of the inode
  (blocks of 4K, 2M or 1G), and 0 for a hole or beyond the capacity of the tree.\<close>

theorem find_data_block_reads_map:
  fixes k :: u64
  defines "sh s pi \<equiv> blk_type_to_shift (pi_blk_type (rd_inode (mem s) pi)) - s_blocksize_bits s"
  assumes "file_ctx pi s" "pi \<noteq> 0" "pmfs_get_inode s (i_ino inode) = Some pi"
  shows "pmfs_find_data_block inode k s =
    Some (let p = file_look pi (mem s) (unat k div 2 ^ sh s pi)
          in if p = 0 then 0 else p + push_bit (s_blocksize_bits s) (k AND mask (sh s pi)))"
  unfolding sh_def using assms(2-4) by (rule find_data_block_file)

definition ex_vinode :: vinode where
  "ex_vinode = \<lparr>i_ino = 128, i_mode = 0, i_uid = 0, i_gid = 0, i_nlink = 1, i_size = 16384, i_blocks = 1, i_atime = 0,
     i_mtime = 0, i_ctime = 0, i_generation = 0, i_flags = 0, i_rdev = 0, i_dir_start_lookup = 0\<rparr>"

theorem find_data_block_reads_map_witness:
  "pmfs_find_data_block ex_vinode 3 ex_file = Some 20480 \<and> pmfs_find_data_block ex_vinode 2 ex_file = Some 0"
proof -
  have "rd64 (mem ex_file) 8216 = 20480" "rd64 (mem ex_file) 8208 = 0"
    by (simp_all add: ex_file_def ex_balloc_simps)
  then have "file_look 4224 (mem ex_file) 3 = 20480" "file_look 4224 (mem ex_file) 2 = 0"
    by (simp_all add: file_look_def ex_file_inode child_def)
  moreover have "s_blocksize_bits ex_file = 12" by (simp add: ex_file_def ex_balloc_simps)
  ultimately show ?thesis
    using find_data_block_reads_map[OF ex_file_ctx, of ex_vinode 3] find_data_block_reads_map[OF ex_file_ctx, of ex_vinode 2]
    by (simp add: ex_vinode_def ex_file_get_inode ex_file_inode blk_type_to_shift_def)
qed





text \<open>C33. The number of levels that the growth and shrink loops compute for a block number is the least
  one whose capacity exceeds it.\<close>

theorem tree_height_least: "n < 512 ^ h \<longleftrightarrow> tree_height n \<le> h"
proof (induction n arbitrary: h rule: tree_height.induct)
  case (1 n)
  show ?case
  proof (cases "n = 0")
    case False
    have u: "tree_height n = Suc (tree_height (n div 512))" using False by (subst tree_height.simps) simp
    show ?thesis
    proof (cases h)
      case (Suc h')
      have "n < 512 ^ h \<longleftrightarrow> n div 512 < 512 ^ h'" by (simp add: Suc div_less_iff_less_mult mult.commute)
      also have "\<dots> \<longleftrightarrow> tree_height (n div 512) \<le> h'" using 1[of h'] False by simp
      finally show ?thesis by (simp add: u Suc)
    qed (use False u in simp)
  qed (simp add: tree_height.simps)
qed

end
