(* ===== verification/Inode.thy ===== *)
theory Inode
  imports Btree
begin

text \<open>
  The inode operations of \<open>inode.c\<close>: the inode table and its growth, allocation and freeing of inodes,
  the exchange of fields between the VFS inode and the one on the media, attribute changes, and the
  truncate list that keeps track of interrupted truncations. VFS inodes are passed in and returned.
  What the code calls in the VFS (the inode cache, ownership, permission checks, the copying of
  attributes) is the argument \<open>vfs\<close>.
\<close>

section \<open>Constants and the VFS\<close>

abbreviation (input) S_IFMT :: u16 where "S_IFMT \<equiv> 0xF000"
abbreviation (input) S_IFREG :: u16 where "S_IFREG \<equiv> 0x8000"
abbreviation (input) S_IFDIR :: u16 where "S_IFDIR \<equiv> 0x4000"
abbreviation (input) S_IFLNK :: u16 where "S_IFLNK \<equiv> 0xA000"
abbreviation (input) S_IFCHR :: u16 where "S_IFCHR \<equiv> 0x2000"
abbreviation (input) S_IFBLK :: u16 where "S_IFBLK \<equiv> 0x6000"

definition S_ISREG :: "u16 \<Rightarrow> bool" where "S_ISREG m \<longleftrightarrow> m AND S_IFMT = S_IFREG"
definition S_ISDIR :: "u16 \<Rightarrow> bool" where "S_ISDIR m \<longleftrightarrow> m AND S_IFMT = S_IFDIR"
definition S_ISLNK :: "u16 \<Rightarrow> bool" where "S_ISLNK m \<longleftrightarrow> m AND S_IFMT = S_IFLNK"
definition S_ISCHR :: "u16 \<Rightarrow> bool" where "S_ISCHR m \<longleftrightarrow> m AND S_IFMT = S_IFCHR"
definition S_ISBLK :: "u16 \<Rightarrow> bool" where "S_ISBLK m \<longleftrightarrow> m AND S_IFMT = S_IFBLK"

abbreviation (input) FS_SYNC_FL :: u32 where "FS_SYNC_FL \<equiv> 0x8"
abbreviation (input) FS_IMMUTABLE_FL :: u32 where "FS_IMMUTABLE_FL \<equiv> 0x10"
abbreviation (input) FS_APPEND_FL :: u32 where "FS_APPEND_FL \<equiv> 0x20"
abbreviation (input) FS_NODUMP_FL :: u32 where "FS_NODUMP_FL \<equiv> 0x40"
abbreviation (input) FS_NOATIME_FL :: u32 where "FS_NOATIME_FL \<equiv> 0x80"
abbreviation (input) FS_DIRSYNC_FL :: u32 where "FS_DIRSYNC_FL \<equiv> 0x10000"
abbreviation (input) FS_TOPDIR_FL :: u32 where "FS_TOPDIR_FL \<equiv> 0x20000"
abbreviation (input) PMFS_FL_INHERITED :: u32 where "PMFS_FL_INHERITED \<equiv> 0x1C6CF"

abbreviation (input) S_SYNC :: u32 where "S_SYNC \<equiv> 1"
abbreviation (input) S_NOATIME :: u32 where "S_NOATIME \<equiv> 2"
abbreviation (input) S_APPEND :: u32 where "S_APPEND \<equiv> 4"
abbreviation (input) S_IMMUTABLE :: u32 where "S_IMMUTABLE \<equiv> 8"
abbreviation (input) S_DIRSYNC :: u32 where "S_DIRSYNC \<equiv> 64"
abbreviation (input) S_DAX :: u32 where "S_DAX \<equiv> 8192"

abbreviation (input) ATTR_MODE :: u32 where "ATTR_MODE \<equiv> 1"
abbreviation (input) ATTR_UID :: u32 where "ATTR_UID \<equiv> 2"
abbreviation (input) ATTR_GID :: u32 where "ATTR_GID \<equiv> 4"
abbreviation (input) ATTR_SIZE :: u32 where "ATTR_SIZE \<equiv> 8"
abbreviation (input) ATTR_ATIME :: u32 where "ATTR_ATIME \<equiv> 16"
abbreviation (input) ATTR_MTIME :: u32 where "ATTR_MTIME \<equiv> 32"
abbreviation (input) ATTR_CTIME :: u32 where "ATTR_CTIME \<equiv> 64"

abbreviation (input) MAX_INODE_LENTRIES :: u32 where "MAX_INODE_LENTRIES \<equiv> 2"
abbreviation (input) PMFS_LARGE_INODE_TABLE_SIZE :: u64 where "PMFS_LARGE_INODE_TABLE_SIZE \<equiv> 0x200000"
abbreviation (input) PMFS_LARGE_INODE_TABLE_THREASHOLD :: u64 where
  "PMFS_LARGE_INODE_TABLE_THREASHOLD \<equiv> 0x20000000"

text \<open>\<open>struct iattr\<close>.\<close>

record iattr =
  ia_valid :: u32
  ia_mode :: u16
  ia_uid :: u32
  ia_gid :: u32
  ia_size :: u64
  ia_atime :: u32
  ia_mtime :: u32
  ia_ctime :: u32

text \<open>The functions of the VFS that the code calls: \<open>new_inode\<close> (\<open>None\<close> when out of memory),
  \<open>inode_init_owner\<close>, \<open>insert_inode_locked\<close>, \<open>iget_locked\<close> (the inode and whether it is new),
  \<open>init_special_inode\<close>, \<open>inode_change_ok\<close> and \<open>setattr_copy\<close>.\<close>

record vfs =
  new_inode :: "vinode option"
  inode_init_owner :: "vinode \<Rightarrow> vinode \<Rightarrow> u16 \<Rightarrow> vinode"
  insert_inode_locked :: "vinode \<Rightarrow> bool"
  iget_locked :: "u64 \<Rightarrow> (vinode \<times> bool) option"
  init_special_inode :: "vinode \<Rightarrow> u16 \<Rightarrow> u32 \<Rightarrow> vinode"
  inode_change_ok :: "vinode \<Rightarrow> iattr \<Rightarrow> errno + unit"
  setattr_copy :: "vinode \<Rightarrow> iattr \<Rightarrow> vinode"

section \<open>Flags\<close>

definition pmfs_mask_flags :: "u16 \<Rightarrow> u32 \<Rightarrow> u32" where
  "pmfs_mask_flags mode' flags =
     (let f = flags AND PMFS_FL_INHERITED
      in if S_ISDIR mode' then f
         else if S_ISREG mode' then f AND NOT (FS_DIRSYNC_FL OR FS_TOPDIR_FL)
         else f AND (FS_NODUMP_FL OR FS_NOATIME_FL))"

definition flag_if :: "u32 \<Rightarrow> u32 \<Rightarrow> u32 \<Rightarrow> u32 \<Rightarrow> u32" where
  "flag_if flags from to acc = (if flags AND from \<noteq> 0 then acc OR to else acc)"

definition pmfs_set_inode_flags :: "vinode \<Rightarrow> nat \<Rightarrow> mem \<Rightarrow> vinode" where
  "pmfs_set_inode_flags inode pi m =
     (let flags = pi_flags (rd_inode m pi);
          f0 = i_flags inode AND NOT (S_SYNC OR S_APPEND OR S_IMMUTABLE OR S_NOATIME OR S_DIRSYNC);
          f1 = flag_if flags FS_SYNC_FL S_SYNC f0;
          f2 = flag_if flags FS_APPEND_FL S_APPEND f1;
          f3 = flag_if flags FS_IMMUTABLE_FL S_IMMUTABLE f2;
          f4 = flag_if flags FS_NOATIME_FL S_NOATIME f3;
          f5 = flag_if flags FS_DIRSYNC_FL S_DIRSYNC f4
      in inode\<lparr>i_flags := f5 OR S_DAX\<rparr>)"

definition pmfs_get_inode_flags :: "vinode \<Rightarrow> nat \<Rightarrow> mem \<Rightarrow> mem" where
  "pmfs_get_inode_flags inode pi m =
     (let flags = i_flags inode;
          f0 = pi_flags (rd_inode m pi)
            AND NOT (FS_SYNC_FL OR FS_APPEND_FL OR FS_IMMUTABLE_FL OR FS_NOATIME_FL OR FS_DIRSYNC_FL);
          f1 = flag_if flags S_SYNC FS_SYNC_FL f0;
          f2 = flag_if flags S_APPEND FS_APPEND_FL f1;
          f3 = flag_if flags S_IMMUTABLE FS_IMMUTABLE_FL f2;
          f4 = flag_if flags S_NOATIME FS_NOATIME_FL f3;
          f5 = flag_if flags S_DIRSYNC FS_DIRSYNC_FL f4
      in wr32 (pi + 4) f5 m)"

section \<open>The inode table\<close>

definition pmfs_init_inode_table :: "fs \<Rightarrow> ((errno + unit) \<times> fs) option" where
  "pmfs_init_inode_table s =
     (let pi = pmfs_get_inode_table s;
          init_inode_table_size =
            (if num_inodes (sbi s) = 0 then
               if initsize (sbi s) \<ge> PMFS_LARGE_INODE_TABLE_THREASHOLD then PMFS_LARGE_INODE_TABLE_SIZE
               else 4096
             else push_bit PMFS_INODE_BITS (num_inodes (sbi s)));
          bt = (if init_inode_table_size \<ge> PMFS_LARGE_INODE_TABLE_SIZE then PMFS_BLOCK_TYPE_2M
                else PMFS_BLOCK_TYPE_4K);
          num_blocks = drop_bit (blk_type_to_shift bt)
            (init_inode_table_size + ucast (blk_type_to_size bt) - 1);
          s1 = upd_mem (\<lambda>m. wr64 (pi + 16) (push_bit (blk_type_to_shift bt) num_blocks)
                 (wr8 (pi + 3) bt (wr32 (pi + 32) 0 (wr8 (pi + 2) 0 (wr32 (pi + 4) 0 (wr16 (pi + 38) 1
                 (wr32 (pi + 52) 0 (wr32 (pi + 48) 0 (wr16 (pi + 36) 0 m))))))))) s;
          s2 = upd_sbi (\<lambda>b. b\<lparr>s_inodes_count :=
                 ucast (push_bit (blk_type_to_shift bt - PMFS_INODE_BITS) num_blocks)\<rparr>) s1;
          num_4k = push_bit (blk_type_to_shift bt - s_blocksize_bits s) num_blocks
      in do {
           (r, s3) \<leftarrow> raw_pmfs_alloc_blocks None pi 0 (ucast num_4k) True s2;
           case r of
             Inl e \<Rightarrow> Some (Inl e, s3)
           | Inr _ \<Rightarrow> Some (Inr (), upd_sbi (\<lambda>b. b\<lparr>
               s_free_inodes_count := s_inodes_count b - PMFS_FREE_INODE_HINT_START,
               s_free_inode_hint := PMFS_FREE_INODE_HINT_START\<rparr>) s3)
         })"

definition pmfs_increase_inode_table_size :: "fs \<Rightarrow> ((errno + unit) \<times> fs) option" where
  "pmfs_increase_inode_table_size s =
     (let pi = pmfs_get_inode_table s
      in do {
           (t, s1) \<leftarrow> pmfs_new_transaction MAX_INODE_LENTRIES s;
           case t of
             Inl e \<Rightarrow> Some (Inl e, s1)
           | Inr tr \<Rightarrow>
               let s2 = snd (pmfs_add_logentry (Some tr) pi 48 0 s1)
               in do {
                 (r, s3) \<leftarrow> raw_pmfs_alloc_blocks (Some tr) pi
                   (drop_bit (s_blocksize_bits s2) (pi_size (rd_inode (mem s2) pi))) 1 True s2;
                 let i = rd_inode (mem s3) pi;
                 let s4 = (case r of
                             Inl e \<Rightarrow> s3
                           | Inr _ \<Rightarrow>
                               let isz = pi_size i + ucast (pmfs_inode_blk_size s3 pi)
                               in upd_sbi (\<lambda>b. b\<lparr>
                                    s_free_inode_hint := ucast (drop_bit PMFS_INODE_BITS (pi_size i)),
                                    s_free_inodes_count := s_free_inodes_count b + INODES_PER_BLOCK (pi_blk_type i),
                                    s_inodes_count := ucast (drop_bit PMFS_INODE_BITS isz)\<rparr>)
                                  (upd_mem (wr64 (pi + 16) isz) s3));
                 Some (r, pmfs_commit_transaction (Some tr) s4)
               }
         })"

section \<open>Reading and writing inodes\<close>

text \<open>The VFS inode that \<open>pmfs_read_inode\<close> fills in; the file operations it installs follow from the mode.\<close>

definition pmfs_read_inode :: "vfs \<Rightarrow> vinode \<Rightarrow> nat \<Rightarrow> mem \<Rightarrow> (errno + unit) \<times> vinode" where
  "pmfs_read_inode vf inode pi m =
     (let p = rd_inode m pi;
          v = pmfs_set_inode_flags (inode\<lparr>i_mode := pi_mode p, i_uid := pi_uid p, i_gid := pi_gid p,
                i_nlink := ucast (pi_links_count p), i_size := pi_size p, i_atime := pi_atime p,
                i_ctime := pi_ctime p, i_mtime := pi_mtime p, i_generation := pi_generation p\<rparr>) pi m
      in if i_nlink v = 0 \<and> (i_mode v = 0 \<or> pi_dtime p \<noteq> 0) then (Inl ESTALE, v)
         else let v' = v\<lparr>i_blocks := pi_blocks p\<rparr>
              in if S_ISREG (i_mode v') \<or> S_ISDIR (i_mode v') \<or> S_ISLNK (i_mode v') then (Inr (), v')
                 else (Inr (), init_special_inode vf (v'\<lparr>i_size := 0\<rparr>) (i_mode v') (pi_rdev p)))"

definition kernelfs_update_inode :: "vinode \<Rightarrow> nat \<Rightarrow> mem \<Rightarrow> mem" where
  "kernelfs_update_inode inode pi m =
     (let p = rd_inode m pi;
          m1 = wr32 (pi + 56) (i_generation inode) (wr32 (pi + 28) (i_mtime inode)
            (wr32 (pi + 24) (i_ctime inode) (wr32 (pi + 60) (i_atime inode)
            (wr64 (pi + 40) (pi_blocks p OR i_blocks inode) (wr64 (pi + 16) (pi_size p OR i_size inode)
            (wr16 (pi + 38) (pi_links_count p OR ucast (i_nlink inode)) (wr32 (pi + 52) (pi_gid p OR i_gid inode)
            (wr32 (pi + 48) (pi_uid p OR i_uid inode) (wr16 (pi + 36) (pi_mode p OR i_mode inode) m)))))))));
          m2 = pmfs_get_inode_flags inode pi m1
      in if S_ISCHR (i_mode inode) \<or> S_ISBLK (i_mode inode) then wr32 (pi + 64) (i_rdev inode) m2 else m2)"

definition pmfs_update_inode :: "vinode \<Rightarrow> nat \<Rightarrow> mem \<Rightarrow> mem" where
  "pmfs_update_inode inode pi m =
     (let m1 = wr32 (pi + 56) (i_generation inode) (wr32 (pi + 28) (i_mtime inode)
            (wr32 (pi + 24) (i_ctime inode) (wr32 (pi + 60) (i_atime inode)
            (wr64 (pi + 40) (i_blocks inode) (wr64 (pi + 16) (i_size inode)
            (wr16 (pi + 38) (ucast (i_nlink inode)) (wr32 (pi + 52) (i_gid inode)
            (wr32 (pi + 48) (i_uid inode) (wr16 (pi + 36) (i_mode inode) m)))))))));
          m2 = pmfs_get_inode_flags inode pi m1
      in if S_ISCHR (i_mode inode) \<or> S_ISBLK (i_mode inode) then wr32 (pi + 64) (i_rdev inode) m2 else m2)"

definition pmfs_update_nlink :: "vinode \<Rightarrow> nat \<Rightarrow> mem \<Rightarrow> mem" where
  "pmfs_update_nlink inode pi = wr16 (pi + 38) (ucast (i_nlink inode))"

definition pmfs_update_isize :: "vinode \<Rightarrow> nat \<Rightarrow> mem \<Rightarrow> mem" where
  "pmfs_update_isize inode pi = wr64 (pi + 16) (i_size inode)"

definition pmfs_update_time :: "vinode \<Rightarrow> nat \<Rightarrow> mem \<Rightarrow> mem" where
  "pmfs_update_time inode pi m = wr32 (pi + 28) (i_mtime inode) (wr32 (pi + 24) (i_ctime inode) m)"

definition pmfs_is_inode_dirty :: "vinode \<Rightarrow> nat \<Rightarrow> mem \<Rightarrow> bool" where
  "pmfs_is_inode_dirty inode pi m \<longleftrightarrow>
     (let p = rd_inode m pi
      in i_ctime inode \<noteq> pi_ctime p \<or> i_mtime inode \<noteq> pi_mtime p \<or> i_size inode \<noteq> pi_size p
         \<or> i_mode inode \<noteq> pi_mode p \<or> i_uid inode \<noteq> pi_uid p \<or> i_gid inode \<noteq> pi_gid p
         \<or> i_nlink inode \<noteq> ucast (pi_links_count p) \<or> i_blocks inode \<noteq> pi_blocks p
         \<or> i_atime inode \<noteq> pi_atime p)"

definition pmfs_dirty_inode :: "vinode \<Rightarrow> fs \<Rightarrow> fs option" where
  "pmfs_dirty_inode inode s = do {
     pi \<leftarrow> pmfs_get_inode s (i_ino inode);
     if pi = 0 then None else Some (upd_mem (wr32 (pi + 60) (i_atime inode)) s) }"

definition pmfs_iget :: "vfs \<Rightarrow> u64 \<Rightarrow> fs \<Rightarrow> (errno + vinode) option" where
  "pmfs_iget v ino s =
     (case iget_locked v ino of
        None \<Rightarrow> Some (Inl ENOMEM)
      | Some (inode, is_new) \<Rightarrow>
          if \<not> is_new then Some (Inr inode)
          else do {
            pi \<leftarrow> pmfs_get_inode s ino;
            if pi = 0 then Some (Inl EACCES)
            else case pmfs_read_inode v inode pi (mem s) of
                   (Inl e, _) \<Rightarrow> Some (Inl e)
                 | (Inr _, inode') \<Rightarrow> Some (Inr (inode'\<lparr>i_ino := ino\<rparr>))
          })"

section \<open>Freeing inodes and the truncate list\<close>

definition pmfs_free_inode :: "vinode \<Rightarrow> fs \<Rightarrow> ((errno + unit) \<times> fs) option" where
  "pmfs_free_inode inode s =
     (let inode_nr = drop_bit PMFS_INODE_BITS (i_ino inode)
      in do {
           pi \<leftarrow> pmfs_get_inode s (i_ino inode);
           (t, s1) \<leftarrow> pmfs_new_transaction MAX_INODE_LENTRIES s;
           case t of
             Inl e \<Rightarrow> Some (Inl e, s1)
           | Inr tr \<Rightarrow>
               if pi = 0 then None
               else let s2 = snd (pmfs_add_logentry (Some tr) pi 48 0 s1);
                        s3 = upd_mem (\<lambda>m. wr32 (pi + 32) (now s2) (wr64 (pi + 16) 0 (wr64 (pi + 8) 0 m))) s2;
                        s4 = pmfs_commit_transaction (Some tr) s3;
                        b1 = (if inode_nr < ucast (s_free_inode_hint (sbi s4))
                              then (sbi s4)\<lparr>s_free_inode_hint := ucast inode_nr\<rparr> else sbi s4);
                        b2 = b1\<lparr>s_free_inodes_count := s_free_inodes_count b1 + 1\<rparr>;
                        b3 = (if s_free_inodes_count b2 = s_inodes_count b2 - PMFS_FREE_INODE_HINT_START
                              then b2\<lparr>s_free_inode_hint := PMFS_FREE_INODE_HINT_START\<rparr> else b2)
                    in Some (Inr (), s4\<lparr>sbi := b3\<rparr>)
         })"

text \<open>The truncate list is kept twice: in memory the list \<open>s_truncate\<close> of inode numbers, first element
  first, and on the media through the \<open>i_next_truncate\<close> fields. \<open>list_prev\<close> is the element before \<open>x\<close>,
  \<open>None\<close> when that is the list head itself.\<close>

fun list_prev :: "u64 \<Rightarrow> u64 list \<Rightarrow> u64 option" where
  "list_prev x (y # z # ys) = (if y = x then None else if z = x then Some y else list_prev x (z # ys))"
| "list_prev x _ = None"

definition pmfs_truncate_del :: "vinode \<Rightarrow> fs \<Rightarrow> fs option" where
  "pmfs_truncate_del inode s =
     (let head = pmfs_get_truncate_list_head s; l = s_truncate (sbi s); ino = i_ino inode
      in if ino \<notin> set l then Some s
         else do {
           li \<leftarrow> pmfs_get_truncate_item s ino;
           let ino_next = i_next_truncate (rd_truncate_item (mem s) li);
           let s1 = upd_sbi (\<lambda>b. b\<lparr>s_truncate := remove1 ino l\<rparr>) s;
           case list_prev ino l of
             None \<Rightarrow> Some (upd_mem (wr64 (head + 8) ino_next) s1)
           | Some prv \<Rightarrow> do {
               li_prv \<leftarrow> pmfs_get_truncate_item s1 prv;
               Some (upd_mem (wr64 (li_prv + 8) ino_next) s1)
             }
         })"

definition pmfs_truncate_add :: "vinode \<Rightarrow> u64 \<Rightarrow> fs \<Rightarrow> fs option" where
  "pmfs_truncate_add inode truncate_size s =
     (let head = pmfs_get_truncate_list_head s; ino = i_ino inode
      in if ino \<in> set (s_truncate (sbi s)) then Some s
         else do {
           li \<leftarrow> pmfs_get_truncate_item s ino;
           let s1 = upd_mem (\<lambda>m. wr64 li truncate_size
                      (wr64 (li + 8) (i_next_truncate (rd_truncate_item m head)) m)) s;
           let s2 = upd_mem (wr64 (head + 8) ino) s1;
           Some (upd_sbi (\<lambda>b. b\<lparr>s_truncate := ino # s_truncate b\<rparr>) s2)
         })"

definition pmfs_evict_inode :: "bool \<Rightarrow> vinode \<Rightarrow> fs \<Rightarrow> (vinode \<times> fs) option" where
  "pmfs_evict_inode is_bad inode s = do {
     pi \<leftarrow> pmfs_get_inode s (i_ino inode);
     (inode', s1) \<leftarrow>
       (if i_nlink inode \<noteq> 0 \<or> is_bad then Some (inode, s)
        else if \<not> (S_ISREG (i_mode inode) \<or> S_ISDIR (i_mode inode) \<or> S_ISLNK (i_mode inode)) then Some (inode, s)
        else if i_flags inode AND (S_APPEND OR S_IMMUTABLE) \<noteq> 0 then Some (inode, s)
        else if pi = 0 then None
        else let p = rd_inode (mem s) pi;
                 last_blocknr =
                   (if pi_flags p AND PMFS_EOFBLOCKS_FL \<noteq> 0
                    then push_bit (unat (pi_height p) * META_BLK_SHIFT) 1 - 1
                    else pmfs_sparse_last_blocknr (pi_height p)
                           (if i_size inode \<noteq> 0
                            then drop_bit (blk_type_to_shift (pi_blk_type p)) (i_size inode - 1) else 0))
             in do {
                  (r, s1) \<leftarrow> pmfs_free_inode inode s;
                  case r of
                    Inl e \<Rightarrow> Some (inode, s1)
                  | Inr _ \<Rightarrow> do {
                      (_, s2) \<leftarrow> pmfs_free_inode_subtree (pi_root p) (pi_height p) (pi_blk_type p) last_blocknr s1;
                      Some (inode\<lparr>i_mtime := now s2, i_ctime := now s2, i_size := 0\<rparr>, s2)
                    }
                });
     s2 \<leftarrow> pmfs_truncate_del inode' s1;
     Some (inode', s2) }"

section \<open>Allocating inodes\<close>

text \<open>The scan of one block of the table: the first free slot among \<open>n\<close>, as index and address.\<close>

definition inode_free :: "mem \<Rightarrow> nat \<Rightarrow> bool" where
  "inode_free m pi \<longleftrightarrow>
     (let p = rd_inode m pi in pi_links_count p = 0 \<and> (pi_mode p = 0 \<or> pi_dtime p \<noteq> 0))"

fun scan_inodes :: "mem \<Rightarrow> nat \<Rightarrow> nat \<Rightarrow> u32 \<Rightarrow> u32 \<times> nat" where
  "scan_inodes m 0 pi i = (i, pi)"
| "scan_inodes m (Suc n) pi i = (if inode_free m pi then (i, pi) else scan_inodes m n (pi + 128) (i + 1))"

text \<open>The \<open>while\<close> loop over the blocks, with the index it stops at and the address of that slot.\<close>

partial_function (option) find_free_inode :: "u32 \<Rightarrow> u32 \<Rightarrow> u32 \<Rightarrow> nat \<Rightarrow> fs \<Rightarrow> (u32 \<times> nat) option" where
  "find_free_inode inodes_per_block num i pi s =
     (if i < num then
        let end_ino = i + (inodes_per_block - (i AND (inodes_per_block - 1)));
            ino = scast (push_bit PMFS_INODE_BITS i) :: u64
        in do {
             p \<leftarrow> pmfs_get_inode s ino;
             if p = 0 then None
             else let (j, q) = scan_inodes (mem s) (unat (end_ino - i)) p i
                  in if j < end_ino then Some (j, q) else find_free_inode inodes_per_block num j q s
           }
      else Some (i, pi))"

text \<open>The \<open>retry\<close> loop: the table grows until the scan stops inside it.\<close>

partial_function (option) find_inode_retry :: "u32 \<Rightarrow> u32 \<Rightarrow> nat \<Rightarrow> fs \<Rightarrow> ((errno + u32 \<times> nat) \<times> fs) option" where
  "find_inode_retry inodes_per_block i pi s = do {
     (j, q) \<leftarrow> find_free_inode inodes_per_block (s_inodes_count (sbi s)) i pi s;
     if j \<ge> s_inodes_count (sbi s) then do {
       (r, s') \<leftarrow> pmfs_increase_inode_table_size s;
       case r of
         Inl e \<Rightarrow> Some (Inl e, s')
       | Inr _ \<Rightarrow> find_inode_retry inodes_per_block j q s'
     }
     else Some (Inr (j, q), s) }"

text \<open>On failure the code drops its reference to the bad inode, which changes nothing on the media.\<close>

definition pmfs_new_inode ::
  "vfs \<Rightarrow> pmfs_transaction option \<Rightarrow> vinode \<Rightarrow> u16 \<Rightarrow> fs \<Rightarrow> ((errno + vinode) \<times> fs) option" where
  "pmfs_new_inode v tr dir mode' s =
     (case new_inode v of
        None \<Rightarrow> Some (Inl ENOMEM, s)
      | Some inode0 \<Rightarrow>
          let gen = next_generation (sbi s) + 1;
              inode1 = (inode_init_owner v inode0 dir mode')\<lparr>i_blocks := 0, i_size := 0, i_mtime := now s,
                i_atime := now s, i_ctime := now s, i_generation := gen\<rparr>;
              s1 = upd_sbi (\<lambda>b. b\<lparr>next_generation := gen\<rparr>) s;
              inode_table = pmfs_get_inode_table s1
          in do {
               diri \<leftarrow> pmfs_get_inode s1 (i_ino dir);
               if diri = 0 then Some (Inl EACCES, s1)
               else do {
                 (r, s2) \<leftarrow> find_inode_retry (INODES_PER_BLOCK (pi_blk_type (rd_inode (mem s1) inode_table)))
                   (s_free_inode_hint (sbi s1)) 0 s1;
                 case r of
                   Inl e \<Rightarrow> Some (Inl e, s2)
                 | Inr (i, pi) \<Rightarrow>
                     let inode2 = inode1\<lparr>i_ino := scast (push_bit PMFS_INODE_BITS i)\<rparr>;
                         s3 = snd (pmfs_add_logentry tr pi 80 0 s2);
                         s4 = upd_mem (\<lambda>m. wr32 (pi + 32) 0 (wr8 (pi + 2) 0
                                (wr32 (pi + 4) (pmfs_mask_flags mode' (pi_flags (rd_inode m diri)))
                                (wr8 (pi + 3) PMFS_BLOCK_TYPE_4K m)))) s3;
                         s5 = upd_sbi (\<lambda>b. b\<lparr>s_free_inodes_count := s_free_inodes_count b - 1,
                                s_free_inode_hint := (if i < s_inodes_count b - 1 then i + 1
                                                      else PMFS_FREE_INODE_HINT_START)\<rparr>) s4;
                         s6 = upd_mem (pmfs_update_inode inode2 pi) s5;
                         inode3 = pmfs_set_inode_flags inode2 pi (mem s6)
                     in Some (if insert_inode_locked v inode3 then Inr inode3 else Inl EINVAL, s6)
               } })"

section \<open>Attributes and sizes\<close>

definition pmfs_block_truncate_page :: "vinode \<Rightarrow> u64 \<Rightarrow> fs \<Rightarrow> fs option" where
  "pmfs_block_truncate_page inode newsize s =
     (let offset = newsize AND (s_blocksize s - 1)
      in if offset = 0 \<or> newsize > i_size inode then Some s
         else let len = s_blocksize s - offset; blocknr = drop_bit (s_blocksize_bits s) newsize
              in do {
                   blockoff \<leftarrow> pmfs_find_data_block inode blocknr s;
                   if blockoff = 0 then Some s
                   else let bp = pmfs_get_block s blockoff
                        in if bp = 0 then Some s
                           else Some (upd_mem (memset (bp + unat offset) 0 (unat len)) s)
                 })"

definition pmfs_setsize :: "vinode \<Rightarrow> u64 \<Rightarrow> fs \<Rightarrow> (vinode \<times> fs) option" where
  "pmfs_setsize inode newsize s =
     (let oldsize = i_size inode
      in if \<not> (S_ISREG (i_mode inode) \<or> S_ISDIR (i_mode inode) \<or> S_ISLNK (i_mode inode)) then Some (inode, s)
         else do {
           (inode', s1) \<leftarrow>
             (if newsize \<noteq> oldsize then do {
                s1 \<leftarrow> pmfs_block_truncate_page inode newsize s;
                Some (inode\<lparr>i_size := newsize\<rparr>, s1)
              }
              else Some (inode, s));
           raw_pmfs_truncate_blocks newsize oldsize inode' s1
         })"

text \<open>\<open>pmfs_getattr\<close>: the number of 512-byte sectors it reports.\<close>

definition pmfs_getattr_blocks :: "vinode \<Rightarrow> fs \<Rightarrow> u64" where
  "pmfs_getattr_blocks inode s = drop_bit 9 (push_bit (s_blocksize_bits s) (i_blocks inode))"

definition pmfs_update_single_field :: "vinode \<Rightarrow> nat \<Rightarrow> u32 \<Rightarrow> mem \<Rightarrow> mem" where
  "pmfs_update_single_field inode pi valid m =
     (if valid = ATTR_MODE then wr16 (pi + 36) (i_mode inode) m
      else if valid = ATTR_UID then wr32 (pi + 48) (i_uid inode) m
      else if valid = ATTR_GID then wr32 (pi + 52) (i_gid inode) m
      else if valid = ATTR_SIZE then wr64 (pi + 16) (i_size inode) m
      else if valid = ATTR_ATIME then wr32 (pi + 60) (i_atime inode) m
      else if valid = ATTR_CTIME then wr32 (pi + 24) (i_ctime inode) m
      else if valid = ATTR_MTIME then wr32 (pi + 28) (i_mtime inode) m
      else m)"

definition pmfs_can_set_blocksize_hint :: "nat \<Rightarrow> mem \<Rightarrow> bool" where
  "pmfs_can_set_blocksize_hint pi m \<longleftrightarrow> pi_root (rd_inode m pi) = 0"

definition pmfs_set_blocksize_hint :: "nat \<Rightarrow> u64 \<Rightarrow> fs \<Rightarrow> fs" where
  "pmfs_set_blocksize_hint pi new_size s =
     (if \<not> pmfs_can_set_blocksize_hint pi (mem s) then s
      else let block_type = (if new_size \<ge> 0x40000000 then PMFS_BLOCK_TYPE_1G
                             else if new_size \<ge> 0x200000 then PMFS_BLOCK_TYPE_2M
                             else PMFS_BLOCK_TYPE_4K)
           in upd_mem (wr8 (pi + 3) block_type) s)"

definition pmfs_notify_change ::
  "vfs \<Rightarrow> vinode \<Rightarrow> iattr \<Rightarrow> fs \<Rightarrow> ((errno + unit) \<times> vinode \<times> fs) option" where
  "pmfs_notify_change v inode attr s = do {
     pi \<leftarrow> pmfs_get_inode s (i_ino inode);
     if pi = 0 then Some (Inl EACCES, inode, s)
     else case inode_change_ok v inode attr of
       Inl e \<Rightarrow> Some (Inl e, inode, s)
     | Inr _ \<Rightarrow> do {
         (valid, inode1, s1) \<leftarrow>
           (if ia_valid attr AND ATTR_SIZE \<noteq> 0
               \<and> (ia_size attr \<noteq> i_size inode \<or> pi_flags (rd_inode (mem s) pi) AND PMFS_EOFBLOCKS_FL \<noteq> 0)
            then do {
              s1 \<leftarrow> pmfs_truncate_add inode (ia_size attr) s;
              let s2 = pmfs_set_blocksize_hint pi (ia_size attr) s1;
              (inode1, s3) \<leftarrow> pmfs_setsize inode (ia_size attr) s2;
              let s4 = upd_mem (pmfs_update_isize inode1 pi) s3;
              s5 \<leftarrow> pmfs_truncate_del inode1 s4;
              Some (ia_valid attr AND NOT (ATTR_CTIME OR ATTR_MTIME), inode1, s5)
            }
            else Some (ia_valid attr, inode, s));
         let inode2 = setattr_copy v inode1 attr;
         let va = valid AND (ATTR_MODE OR ATTR_UID OR ATTR_GID OR ATTR_ATIME OR ATTR_MTIME OR ATTR_CTIME);
         if va = 0 then Some (Inr (), inode2, s1)
         else if va AND (va - 1) = 0 then
           Some (Inr (), inode2, upd_mem (pmfs_update_single_field inode2 pi va) s1)
         else if pmfs_current_transaction s1 \<noteq> None then None
         else do {
           (t, s2) \<leftarrow> pmfs_new_transaction MAX_INODE_LENTRIES s1;
           case t of
             Inl e \<Rightarrow> Some (Inl e, inode2, s2)
           | Inr tr \<Rightarrow>
               let s3 = snd (pmfs_add_logentry (Some tr) pi 80 0 s2);
                   s4 = upd_mem (pmfs_update_inode inode2 pi) s3
               in Some (Inr (), inode2, pmfs_commit_transaction (Some tr) s4)
         }
       } }"

end
