(* ===== verification/Bbuild.thy ===== *)
theory Bbuild
  imports Inode
begin

text \<open>
  Rebuilding the allocator's list of used runs at mount (\<open>bbuild.c\<close>): from the runs that a clean unmount
  saved in the blocks of inode \<open>PMFS_BLOCKNODE_IN0\<close>, or by a crawl over all inodes that marks their
  blocks in bitmaps. A bitmap is its size in bytes and its bits; setting a bit outside of it is
  \<open>None\<close>.
\<close>

section \<open>Saving and restoring the runs\<close>

abbreviation (input) MAX_SB_LENTRIES :: u32 where "MAX_SB_LENTRIES \<equiv> 2"

definition pmfs_clear_datablock_inode :: "fs \<Rightarrow> fs option" where
  "pmfs_clear_datablock_inode s = do {
     pi \<leftarrow> pmfs_get_inode s PMFS_BLOCKNODE_IN0;
     (t, s1) \<leftarrow> pmfs_new_transaction MAX_INODE_LENTRIES s;
     case t of
       Inl e \<Rightarrow> Some s1
     | Inr tr \<Rightarrow>
         if pi = 0 then None
         else let s2 = snd (pmfs_add_logentry (Some tr) pi 48 0 s1)
              in Some (pmfs_commit_transaction (Some tr) (upd_mem (memset pi 0 48) s2)) }"

text \<open>One stored run, \<open>struct pmfs_blocknode_lowhigh\<close>.\<close>

definition rd_lowhigh :: "mem \<Rightarrow> nat \<Rightarrow> pmfs_blocknode" where
  "rd_lowhigh m p = \<lparr>block_low = rd64 m p, block_high = rd64 m (p + 8)\<rparr>"

text \<open>The loop of \<open>pmfs_init_blockmap_from_inode\<close> from index \<open>i\<close> on, \<open>n\<close> runs to go, with the current block \<open>p\<close>.\<close>

fun init_blockmap_loop :: "nat \<Rightarrow> nat \<Rightarrow> nat \<Rightarrow> nat \<Rightarrow> fs \<Rightarrow> fs option" where
  "init_blockmap_loop pi 0 i p s = Some s"
| "init_blockmap_loop pi (Suc n) i p s = do {
     let index = i mod 256;
     q \<leftarrow> (if index = 0 then do {
             bp \<leftarrow> raw_pmfs_find_data_block s pi (of_nat (i div 256));
             Some (pmfs_get_block s bp)
           }
           else Some p);
     case pmfs_alloc_blocknode s of
       (False, s') \<Rightarrow> None
     | (True, s') \<Rightarrow>
         if q = 0 then None
         else init_blockmap_loop pi n (Suc i) q
                (upd_sbi (\<lambda>b. b\<lparr>block_inuse_head := block_inuse_head b @ [rd_lowhigh (mem s') (q + 16 * index)]\<rparr>) s') }"

definition pmfs_init_blockmap_from_inode :: "fs \<Rightarrow> fs option" where
  "pmfs_init_blockmap_from_inode s = do {
     pi \<leftarrow> pmfs_get_inode s PMFS_BLOCKNODE_IN0;
     init_blockmap_loop pi (unat (num_blocknode_allocated (sbi s))) 0 0
       (upd_sbi (\<lambda>b. b\<lparr>num_blocknode_allocated := 0\<rparr>) s) }"

definition pmfs_can_skip_full_scan :: "fs \<Rightarrow> (bool \<times> fs) option" where
  "pmfs_can_skip_full_scan s = do {
     pi \<leftarrow> pmfs_get_inode s PMFS_BLOCKNODE_IN0;
     if pi = 0 then None
     else if pi_root (rd_inode (mem s) pi) = 0 then Some (False, s)
     else do {
       let super = rd_super (mem s) (pmfs_get_super s);
       let s1 = upd_sbi (\<lambda>b. b\<lparr>num_blocknode_allocated := s_num_blocknode_allocated super,
              num_free_blocks := s_num_free_blocks super, s_inodes_count := ps_inodes_count super,
              s_free_inodes_count := ps_free_inodes_count super, s_inodes_used_count := ps_inodes_used_count super,
              s_free_inode_hint := ps_free_inode_hint super\<rparr>) s;
       s2 \<leftarrow> pmfs_init_blockmap_from_inode s1;
       let p = rd_inode (mem s2) pi;
       let last_blocknr = drop_bit (blk_type_to_shift (pi_blk_type p)) (pi_size p - 1);
       s3 \<leftarrow> pmfs_clear_datablock_inode s2;
       (_, s4) \<leftarrow> pmfs_free_inode_subtree (pi_root p) (pi_height p) (pi_blk_type p) last_blocknr s3;
       Some (True, s4)
     } }"

definition pmfs_allocate_datablock_block_inode ::
  "pmfs_transaction option \<Rightarrow> nat \<Rightarrow> u64 \<Rightarrow> fs \<Rightarrow> ((errno + unit) \<times> fs) option" where
  "pmfs_allocate_datablock_block_inode tr pi num_blocks s =
     raw_pmfs_alloc_blocks tr pi 0 (ucast num_blocks) False
       (upd_mem (\<lambda>m. wr64 (pi + 16) (push_bit (s_blocksize_bits s) num_blocks) (wr32 (pi + 32) 0 (wr8 (pi + 2) 0
          (wr32 (pi + 4) 0 (wr8 (pi + 3) PMFS_BLOCK_TYPE_4K (wr16 (pi + 38) 1 (wr16 (pi + 36) 0 m))))))) s)"

text \<open>The loop over the runs, number \<open>k\<close> first, with the current block \<open>p\<close>.\<close>

fun save_loop :: "nat \<Rightarrow> nat \<Rightarrow> nat \<Rightarrow> pmfs_blocknode list \<Rightarrow> fs \<Rightarrow> fs option" where
  "save_loop pi k p [] s = Some s"
| "save_loop pi k p (i # rest) s = do {
     let j = k mod 256;
     q \<leftarrow> (if j = 0 then do {
             bp \<leftarrow> raw_pmfs_find_data_block s pi (of_nat (k div 256));
             Some (pmfs_get_block s bp)
           }
           else Some p);
     if q = 0 then None
     else save_loop pi (Suc k) q rest
            (upd_mem (\<lambda>m. wr64 (q + 16 * j + 8) (block_high i) (wr64 (q + 16 * j) (block_low i) m)) s) }"

definition pmfs_save_blocknode_mappings :: "fs \<Rightarrow> fs option" where
  "pmfs_save_blocknode_mappings s = do {
     pi \<leftarrow> pmfs_get_inode s PMFS_BLOCKNODE_IN0;
     let num_blocks = drop_bit (s_blocksize_bits s) (num_blocknode_allocated (sbi s) * 16 - 1) + 1;
     (t, s1) \<leftarrow> pmfs_new_transaction (MAX_INODE_LENTRIES + MAX_SB_LENTRIES) s;
     case t of
       Inl e \<Rightarrow> Some s1
     | Inr tr \<Rightarrow>
         if pi = 0 then None
         else do {
           let s2 = snd (pmfs_add_logentry (Some tr) pi 48 0 s1);
           (r, s3) \<leftarrow> pmfs_allocate_datablock_block_inode (Some tr) pi num_blocks s2;
           case r of
             Inl e \<Rightarrow> pmfs_abort_transaction (Some tr) s3
           | Inr _ \<Rightarrow> do {
               s4 \<leftarrow> save_loop pi 0 0 (block_inuse_head (sbi s3)) s3;
               let b = sbi s4;
               let s5 = snd (pmfs_add_logentry (Some tr) 60 36 0 s4);
               let s6 = upd_mem (\<lambda>m. wr32 92 (s_free_inode_hint b) (wr32 88 (s_inodes_used_count b)
                      (wr32 84 (s_free_inodes_count b) (wr32 80 (s_inodes_count b) (wr64 72 (num_free_blocks b)
                      (wr64 64 (num_blocknode_allocated b) (wr32 60 (now s5) m))))))) s5;
               Some (pmfs_commit_transaction (Some tr) s6)
             }
         } }"

section \<open>Crawling\<close>

record scan_bitmap =
  bitmap_4k_size :: nat
  bitmap_2M_size :: nat
  bitmap_1G_size :: nat
  bitmap_4k :: "nat \<Rightarrow> bool"
  bitmap_2M :: "nat \<Rightarrow> bool"
  bitmap_1G :: "nat \<Rightarrow> bool"

definition set_bit_4k :: "nat \<Rightarrow> scan_bitmap \<Rightarrow> scan_bitmap option" where
  "set_bit_4k i bm = (if i < 8 * bitmap_4k_size bm then Some (bm\<lparr>bitmap_4k := (bitmap_4k bm)(i := True)\<rparr>) else None)"

definition set_bit_2M :: "nat \<Rightarrow> scan_bitmap \<Rightarrow> scan_bitmap option" where
  "set_bit_2M i bm = (if i < 8 * bitmap_2M_size bm then Some (bm\<lparr>bitmap_2M := (bitmap_2M bm)(i := True)\<rparr>) else None)"

definition set_bit_1G :: "nat \<Rightarrow> scan_bitmap \<Rightarrow> scan_bitmap option" where
  "set_bit_1G i bm = (if i < 8 * bitmap_1G_size bm then Some (bm\<lparr>bitmap_1G := (bitmap_1G bm)(i := True)\<rparr>) else None)"

primrec pmfs_inode_crawl_recursive :: "nat \<Rightarrow> u8 \<Rightarrow> mem \<Rightarrow> u64 \<Rightarrow> scan_bitmap \<Rightarrow> scan_bitmap option" where
  "pmfs_inode_crawl_recursive 0 = (\<lambda>btype m block bm.
     if btype = PMFS_BLOCK_TYPE_4K then set_bit_4k (unat block div 2 ^ 12) bm
     else if btype = PMFS_BLOCK_TYPE_2M then set_bit_2M (unat block div 2 ^ 21) bm
     else set_bit_1G (unat block div 2 ^ 30) bm)"
| "pmfs_inode_crawl_recursive (Suc h) = (\<lambda>btype m block bm.
     let node = unat block
     in do {
          bm' \<leftarrow> set_bit_4k (unat block div 2 ^ 12) bm;
          if node = 0 then None
          else for_loop (\<lambda>i b.
                 let p = rd64 m (node + 8 * i)
                 in if p = 0 then Some (b, False)
                    else do { b' \<leftarrow> pmfs_inode_crawl_recursive h btype m p b; Some (b', False) })
               [0..<512] bm'
        })"

definition pmfs_inode_crawl :: "mem \<Rightarrow> nat \<Rightarrow> scan_bitmap \<Rightarrow> scan_bitmap option" where
  "pmfs_inode_crawl m pi bm =
     (let p = rd_inode m pi
      in if pi_root p = 0 then Some bm
         else pmfs_inode_crawl_recursive (unat (pi_height p)) (pi_blk_type p) m (pi_root p) bm)"

text \<open>The state of the crawl over the inode table: \<open>s_inodes_count\<close>, \<open>s_inodes_used_count\<close> and the bitmaps.\<close>

definition crawl_inode :: "mem \<Rightarrow> nat \<Rightarrow> u32 \<times> u32 \<times> scan_bitmap \<Rightarrow> (u32 \<times> u32 \<times> scan_bitmap) option" where
  "crawl_inode m pi = (\<lambda>(cnt, used, bm).
     if inode_free m pi then Some (cnt, used, bm)
     else do { bm' \<leftarrow> pmfs_inode_crawl m pi bm; Some (cnt, used + 1, bm') })"

primrec pmfs_inode_table_crawl_recursive ::
  "nat \<Rightarrow> u8 \<Rightarrow> mem \<Rightarrow> u64 \<Rightarrow> u32 \<times> u32 \<times> scan_bitmap \<Rightarrow> (u32 \<times> u32 \<times> scan_bitmap) option" where
  "pmfs_inode_table_crawl_recursive 0 = (\<lambda>btype m block (cnt, used, bm).
     let node = unat block; inodes_per_block = INODES_PER_BLOCK btype
     in do {
          bm' \<leftarrow> (if btype = PMFS_BLOCK_TYPE_2M then set_bit_2M (unat block div 2 ^ 21) bm
                 else set_bit_4k (unat block div 2 ^ 12) bm);
          if node = 0 then None
          else for_loop (\<lambda>i st. do { st' \<leftarrow> crawl_inode m (node + 128 * i) st; Some (st', False) })
                 [0..<unat inodes_per_block] (cnt + inodes_per_block, used, bm')
        })"
| "pmfs_inode_table_crawl_recursive (Suc h) = (\<lambda>btype m block (cnt, used, bm).
     let node = unat block
     in do {
          bm' \<leftarrow> set_bit_4k (unat block div 2 ^ 12) bm;
          if node = 0 then None
          else for_loop (\<lambda>i st.
                 let p = rd64 m (node + 8 * i)
                 in if p = 0 then Some (st, False)
                    else do { st' \<leftarrow> pmfs_inode_table_crawl_recursive h btype m p st; Some (st', False) })
               [0..<512] (cnt, used, bm')
        })"

section \<open>From the bitmaps to the list of runs\<close>

text \<open>The search for the place of the run \<open>low..high\<close>: whether it was found, and the list.\<close>

fun insert_loop :: "u64 \<Rightarrow> u64 \<Rightarrow> pmfs_blocknode list \<Rightarrow> fs \<Rightarrow> bool \<times> pmfs_blocknode list \<times> fs" where
  "insert_loop low high [] s = (False, [], s)"
| "insert_loop low high (i # rest) s =
     (let next_block_low = (case rest of [] \<Rightarrow> block_end (sbi s) | next_i # _ \<Rightarrow> block_low next_i);
          continue = (case insert_loop low high rest s of (r, rest', s') \<Rightarrow> (r, i # rest', s'))
      in if high \<ge> next_block_low then continue
         else if low = block_high i + 1 \<and> high = next_block_low - 1 then
           (case rest of
              next_i # rest' \<Rightarrow>
                (True, i\<lparr>block_high := block_high next_i\<rparr> # rest',
                 upd_sbi (num_blocknode_allocated_update (\<lambda>n. n - 1)) s)
            | [] \<Rightarrow> (True, [i\<lparr>block_high := high\<rparr>], s))
         else if low = block_high i + 1 \<and> high < next_block_low - 1 then
           (True, i\<lparr>block_high := high\<rparr> # rest, s)
         else if low > block_high i + 1 \<and> high = next_block_low - 1 then
           (case rest of
              next_i # rest' \<Rightarrow> (True, i # next_i\<lparr>block_low := low\<rparr> # rest', s)
            | [] \<Rightarrow>
                (case pmfs_alloc_blocknode s of
                   (False, s') \<Rightarrow> (False, [i], s')
                 | (True, s') \<Rightarrow> (True, [i, \<lparr>block_low = low, block_high = high\<rparr>], s')))
         else if low > block_high i + 1 \<and> high < next_block_low - 1 then
           (case pmfs_alloc_blocknode s of
              (False, s') \<Rightarrow> (False, i # rest, s')
            | (True, s') \<Rightarrow> (True, i # \<lparr>block_low = low, block_high = high\<rparr> # rest, s'))
         else continue)"

definition pmfs_alloc_insert_blocknode_map :: "u64 \<Rightarrow> u64 \<Rightarrow> fs \<Rightarrow> (errno + unit) \<times> fs" where
  "pmfs_alloc_insert_blocknode_map low high s =
     (case insert_loop low high (block_inuse_head (sbi s)) s of
        (found, head, s') \<Rightarrow>
          if found then
            (Inr (), upd_sbi (\<lambda>b. b\<lparr>block_inuse_head := head,
               num_free_blocks := num_free_blocks b - (high - low + 1)\<rparr>) s')
          else (Inl ENOSPC, upd_sbi (\<lambda>b. b\<lparr>block_inuse_head := head\<rparr>) s'))"

text \<open>\<open>find_next_bit\<close> and \<open>find_next_zero_bit\<close>: the first position from \<open>off\<close> with the given bit, or \<open>sz\<close>.\<close>

definition find_next :: "bool \<Rightarrow> (nat \<Rightarrow> bool) \<Rightarrow> nat \<Rightarrow> nat \<Rightarrow> nat" where
  "find_next v bits sz off = (case find (\<lambda>i. bits i = v) [off..<sz] of Some i \<Rightarrow> i | None \<Rightarrow> sz)"

lemma find_next_ge: "find_next v bits sz off < sz \<Longrightarrow> off \<le> find_next v bits sz off \<and> bits (find_next v bits sz off) = v"
proof (cases "find (\<lambda>i. bits i = v) [off..<sz]")
  case (Some i)
  then obtain k where "k < length [off..<sz]" "bits ([off..<sz] ! k) = v" "i = [off..<sz] ! k"
    unfolding find_Some_iff by blast
  then show ?thesis using Some by (simp add: find_next_def)
qed (simp add: find_next_def)

text \<open>The loop of \<open>__pmfs_build_blocknode_map\<close>: each pass handles one maximal run of set bits, so the
  position grows until it reaches the size.\<close>

function build_loop :: "(nat \<Rightarrow> bool) \<Rightarrow> nat \<Rightarrow> nat \<Rightarrow> nat \<Rightarrow> fs \<Rightarrow> fs" where
  "build_loop bits bsize scale pos s =
     (let low = find_next True bits bsize pos
      in if low \<ge> bsize then s
         else let hi = find_next False bits bsize low;
                  s' = snd (pmfs_alloc_insert_blocknode_map (push_bit scale (of_nat low)) (push_bit scale (of_nat hi) - 1) s)
              in if hi \<ge> bsize then s' else build_loop bits bsize scale hi s')"
  by pat_completeness auto
termination
proof (relation "measure (\<lambda>(bits, bsize, scale, pos, s). bsize - pos)")
  fix bits :: "nat \<Rightarrow> bool" and bsize scale pos :: nat and s low hi s'
  assume a: "low = find_next True bits bsize pos" "\<not> bsize \<le> low" "hi = find_next False bits bsize low" "\<not> bsize \<le> hi"
  have "pos \<le> low" "bits low" "low \<le> hi" "\<not> bits hi"
    using a find_next_ge[of True bits bsize pos] find_next_ge[of False bits bsize low] by auto
  then show "((bits, bsize, scale, hi, s'), bits, bsize, scale, pos, s)
      \<in> measure (\<lambda>(bits, bsize, scale, pos, s). bsize - pos)"
    using a(4) by (cases "low = hi") simp_all
qed simp

declare build_loop.simps [simp del]

definition raw_pmfs_build_blocknode_map :: "(nat \<Rightarrow> bool) \<Rightarrow> nat \<Rightarrow> nat \<Rightarrow> fs \<Rightarrow> fs" where
  "raw_pmfs_build_blocknode_map bits bsize scale s = build_loop bits bsize scale 1 s"

definition pmfs_build_blocknode_map :: "scan_bitmap \<Rightarrow> fs \<Rightarrow> fs" where
  "pmfs_build_blocknode_map bm s =
     raw_pmfs_build_blocknode_map (bitmap_1G bm) (bitmap_1G_size bm * 8) 18
       (raw_pmfs_build_blocknode_map (bitmap_2M bm) (bitmap_2M_size bm * 8) 9
         (raw_pmfs_build_blocknode_map (bitmap_4k bm) (bitmap_4k_size bm * 8) 0 s))"

text \<open>\<open>bitmaps_ok\<close> is whether the three bitmaps could be allocated.\<close>

definition pmfs_setup_blocknode_map :: "bool \<Rightarrow> fs \<Rightarrow> fs option" where
  "pmfs_setup_blocknode_map bitmaps_ok s =
     (let isz = s_size (rd_super (mem s) (pmfs_get_super s));
          pi = pmfs_get_inode_table s;
          s1 = upd_sbi (\<lambda>b. b\<lparr>block_start := 0, block_end := drop_bit PAGE_SHIFT isz\<rparr>) s
      in do {
           (value, s2) \<leftarrow> pmfs_can_skip_full_scan s1;
           if value then Some s2
           else if \<not> bitmaps_ok then Some s2
           else do {
             s3 \<leftarrow> pmfs_clear_datablock_inode s2;
             let p = rd_inode (mem s3) pi;
             let bm = \<lparr>bitmap_4k_size = unat isz div 2 ^ 15 + 1, bitmap_2M_size = unat isz div 2 ^ 24 + 1,
                    bitmap_1G_size = unat isz div 2 ^ 33 + 1, bitmap_4k = (\<lambda>_. False), bitmap_2M = (\<lambda>_. False),
                    bitmap_1G = (\<lambda>_. False)\<rparr>;
             (cnt, used, bm') \<leftarrow> pmfs_inode_table_crawl_recursive (unat (pi_height p)) (pi_blk_type p) (mem s3) (pi_root p)
               (s_inodes_count (sbi s3), s_inodes_used_count (sbi s3), bm);
             let s4 = upd_sbi (\<lambda>b. b\<lparr>s_inodes_count := cnt, s_inodes_used_count := used,
                    s_free_inodes_count := cnt - (used + 2), s_free_inode_hint := PMFS_FREE_INODE_HINT_START,
                    num_free_blocks := drop_bit PAGE_SHIFT isz\<rparr>) s3;
             s5 \<leftarrow> pmfs_init_blockmap (j_base (rd_journal (mem s4) (pmfs_get_journal s4)) + ucast (jsize (sbi s4))) s4;
             Some (pmfs_build_blocknode_map bm' s5)
           }
         })"

end
