(* ===== verification/Dirent.thy ===== *)
theory Dirent
  imports Inode
begin

text \<open>
  Directory blocks (\<open>dir.c\<close>, and the search routines of \<open>namei.c\<close>): a block is a chain of records, each
  giving its own length, an inode number (0 when the record is free), and a name. Insertion splits a
  record that has room, removal joins a record to the one before it. The name of a \<open>struct dentry\<close> is
  its list of bytes, and the directory is its parent's VFS inode.
\<close>

section \<open>Records\<close>

abbreviation (input) PMFS_NAME_LEN :: nat where "PMFS_NAME_LEN \<equiv> 255"

definition PMFS_DIR_REC_LEN :: "nat \<Rightarrow> nat" where
  "PMFS_DIR_REC_LEN name_len = (name_len + 12 + 3) div 4 * 4"

definition pmfs_match :: "u8 list \<Rightarrow> nat \<Rightarrow> mem \<Rightarrow> bool" where
  "pmfs_match name de m \<longleftrightarrow>
     length name = unat (de_name_len (rd_direntry m de)) \<and> de_ino (rd_direntry m de) \<noteq> 0
     \<and> bytes_at m (de + 12) (length name) = name"

definition pmfs_check_dir_entry :: "nat \<Rightarrow> nat \<Rightarrow> fs \<Rightarrow> bool" where
  "pmfs_check_dir_entry de base s \<longleftrightarrow>
     (let e = rd_direntry (mem s) de; rlen = unat (de_len e)
      in \<not> (rlen < PMFS_DIR_REC_LEN 1) \<and> rlen mod 4 = 0
         \<and> \<not> (rlen < PMFS_DIR_REC_LEN (unat (de_name_len e)))
         \<and> \<not> (de - base + rlen > unat (s_blocksize s)))"

section \<open>Searching a block\<close>

text \<open>\<open>pmfs_search_dirblock\<close> returns -1 (a bad block), 0 (not found), or 1 with the record and the one
  before it.\<close>

datatype search_result = Bad_block | Not_found | Found nat "nat option"

function search_dirblock_loop ::
  "u8 list \<Rightarrow> nat \<Rightarrow> nat \<Rightarrow> nat option \<Rightarrow> nat \<Rightarrow> fs \<Rightarrow> search_result" where
  "search_dirblock_loop name base dlimit pde de s =
     (if \<not> de < dlimit then Not_found
      else if de + length name \<le> dlimit \<and> pmfs_match name de (mem s) then
        if \<not> pmfs_check_dir_entry de base s then Bad_block else Found de pde
      else let len = unat (de_len (rd_direntry (mem s) de))
           in if len = 0 then Bad_block
              else search_dirblock_loop name base dlimit (Some de) (de + len) s)"
  by pat_completeness auto
termination
  by (relation "measure (\<lambda>(name, base, dlimit, pde, de, s). dlimit - de)") auto

declare search_dirblock_loop.simps [simp del]

definition pmfs_search_dirblock :: "nat \<Rightarrow> u8 list \<Rightarrow> fs \<Rightarrow> search_result" where
  "pmfs_search_dirblock blk_base name s =
     search_dirblock_loop name blk_base (blk_base + unat (s_blocksize s)) None blk_base s"

section \<open>Adding an entry\<close>

text \<open>The search for a record with room; it does not end on a record of length 0.\<close>

partial_function (option) find_room :: "nat \<Rightarrow> nat \<Rightarrow> nat \<Rightarrow> mem \<Rightarrow> nat option" where
  "find_room last_de reclen de m =
     (if \<not> de \<le> last_de then Some de
      else let e = rd_direntry m de; rlen = unat (de_len e)
           in if de_ino e \<noteq> 0 then
                if rlen \<ge> PMFS_DIR_REC_LEN (unat (de_name_len e)) + reclen then Some de
                else find_room last_de reclen (de + rlen) m
              else if rlen \<ge> reclen then Some de
              else find_room last_de reclen (de + rlen) m)"

text \<open>\<open>dirent_write\<close>: the stores of \<open>pmfs_add_dirent_to_buf\<close> to the block, once the record is chosen.\<close>

definition dirent_split :: "nat \<Rightarrow> mem \<Rightarrow> nat \<times> mem" where
  "dirent_split de m =
     (let e = rd_direntry m de
      in if de_ino e \<noteq> 0 then
           let nlen = PMFS_DIR_REC_LEN (unat (de_name_len e)); de1 = de + nlen
           in (de1, wr16 (de + 8) (of_nat nlen) (wr16 (de1 + 8) (de_len e - of_nat nlen) m))
         else (de, m))"

definition dirent_write :: "u8 list \<Rightarrow> u64 \<Rightarrow> nat \<Rightarrow> mem \<Rightarrow> mem" where
  "dirent_write name ino de m =
     (let (de', m') = dirent_split de m
      in memput (de' + 12) name (wr8 (de' + 10) (of_nat (length name)) (wr64 de' ino m')))"

definition pmfs_add_dirent_to_buf ::
  "pmfs_transaction option \<Rightarrow> u8 list \<Rightarrow> vinode option \<Rightarrow> nat option \<Rightarrow> nat \<Rightarrow> nat \<Rightarrow> vinode \<Rightarrow> fs
     \<Rightarrow> ((errno + unit) \<times> vinode \<times> fs) option" where
  "pmfs_add_dirent_to_buf tr name inode de0 blk_base pidir dir s =
     (let reclen = PMFS_DIR_REC_LEN (length name); last_de = blk_base + unat (s_blocksize s) - reclen
      in do {
           r \<leftarrow> (case de0 of
                   Some de \<Rightarrow> Some (Inr de)
                 | None \<Rightarrow> do {
                     de \<leftarrow> find_room last_de reclen blk_base (mem s);
                     Some (if de > last_de then Inl ENOSPC else Inr de)
                   });
           case r of
             Inl e \<Rightarrow> Some (Inl e, dir, s)
           | Inr de \<Rightarrow>
               let s1 = (if de_ino (rd_direntry (mem s) de) \<noteq> 0 then snd (pmfs_add_logentry tr (de + 8) 2 0 s)
                         else snd (pmfs_add_logentry tr de 8 0 s));
                   s2 = upd_mem (dirent_write name (case inode of Some i \<Rightarrow> i_ino i | None \<Rightarrow> 0) de) s1;
                   dir' = dir\<lparr>i_mtime := now s, i_ctime := now s\<rparr>
               in Some (Inr (), dir', upd_mem (\<lambda>m. wr32 (pidir + 24) (i_ctime dir') (wr32 (pidir + 28) (i_mtime dir') m)) s2)
         })"

text \<open>The loop over the blocks of the directory: \<open>Inl ENOSPC\<close> when none has room.\<close>

fun add_entry_loop ::
  "pmfs_transaction option \<Rightarrow> u8 list \<Rightarrow> vinode option \<Rightarrow> nat \<Rightarrow> u64 list \<Rightarrow> vinode \<Rightarrow> fs
     \<Rightarrow> ((errno + unit) \<times> vinode \<times> fs) option" where
  "add_entry_loop tr name inode pidir [] dir s = Some (Inl ENOSPC, dir, s)"
| "add_entry_loop tr name inode pidir (block # bs) dir s = do {
     bp \<leftarrow> pmfs_find_data_block dir block s;
     let blk_base = pmfs_get_block s bp;
     if blk_base = 0 then Some (Inl EIO, dir, s)
     else do {
       (r, dir', s') \<leftarrow> pmfs_add_dirent_to_buf tr name inode None blk_base pidir dir s;
       if r \<noteq> Inl ENOSPC then Some (r, dir', s')
       else add_entry_loop tr name inode pidir bs dir' s'
     } }"

definition pmfs_add_entry ::
  "pmfs_transaction option \<Rightarrow> u8 list \<Rightarrow> vinode option \<Rightarrow> vinode \<Rightarrow> fs \<Rightarrow> ((errno + unit) \<times> vinode \<times> fs) option" where
  "pmfs_add_entry tr name inode dir s =
     (if name = [] then Some (Inl EINVAL, dir, s)
      else do {
        pidir \<leftarrow> pmfs_get_inode s (i_ino dir);
        if pidir = 0 then None
        else do {
          let s1 = snd (pmfs_add_logentry tr pidir 48 0 s);
          let blocks = drop_bit (s_blocksize_bits s1) (i_size dir);
          (r, dir1, s2) \<leftarrow> add_entry_loop tr name inode pidir (map of_nat [0..<unat blocks]) dir s1;
          if r \<noteq> Inl ENOSPC then Some (r, dir1, s2)
          else do {
            (r2, dir2, s3) \<leftarrow> pmfs_alloc_blocks tr dir1 blocks 1 False s2;
            if r2 \<noteq> Inr () then Some (r2, dir2, s3)
            else do {
              let dir3 = dir2\<lparr>i_size := i_size dir2 + s_blocksize s3\<rparr>;
              let s4 = upd_mem (pmfs_update_isize dir3 pidir) s3;
              bp \<leftarrow> pmfs_find_data_block dir3 blocks s4;
              let blk_base = pmfs_get_block s4 bp;
              if blk_base = 0 then Some (Inl ENOSPC, dir3, s4)
              else let s5 = upd_mem (\<lambda>m. wr16 (blk_base + 8) (ucast (s_blocksize s4)) (wr64 blk_base 0 m)) s4
                   in pmfs_add_dirent_to_buf None name inode (Some blk_base) blk_base pidir dir3 s5
            }
          }
        }
      })"

section \<open>Removing an entry\<close>

fun remove_search :: "u8 list \<Rightarrow> u64 list \<Rightarrow> vinode \<Rightarrow> fs \<Rightarrow> (nat \<times> nat option) option option" where
  "remove_search name [] dir s = Some None"
| "remove_search name (block # bs) dir s = do {
     bp \<leftarrow> pmfs_find_data_block dir block s;
     let blk_base = pmfs_get_block s bp;
     if blk_base = 0 then Some None
     else case pmfs_search_dirblock blk_base name s of
            Found res prev \<Rightarrow> Some (Some (res, prev))
          | _ \<Rightarrow> remove_search name bs dir s }"

text \<open>\<open>dirent_unlink\<close>: the store that takes the record out of the chain, or marks the first one free.\<close>

definition dirent_unlink :: "nat \<Rightarrow> nat option \<Rightarrow> mem \<Rightarrow> mem" where
  "dirent_unlink res prev m =
     (case prev of
        Some p \<Rightarrow> wr16 (p + 8) (de_len (rd_direntry m p) + de_len (rd_direntry m res)) m
      | None \<Rightarrow> wr64 res 0 m)"

definition pmfs_remove_entry ::
  "pmfs_transaction option \<Rightarrow> u8 list \<Rightarrow> vinode \<Rightarrow> fs \<Rightarrow> ((errno + unit) \<times> vinode \<times> fs) option" where
  "pmfs_remove_entry tr name dir s =
     (if name = [] then Some (Inl EINVAL, dir, s)
      else do {
        let blocks = drop_bit (s_blocksize_bits s) (i_size dir);
        f \<leftarrow> remove_search name (map of_nat [0..<unat blocks]) dir s;
        case f of
          None \<Rightarrow> Some (Inl EINVAL, dir, s)
        | Some (res, prev) \<Rightarrow> do {
            let s1 = (case prev of Some p \<Rightarrow> snd (pmfs_add_logentry tr (p + 8) 2 0 s)
                      | None \<Rightarrow> snd (pmfs_add_logentry tr res 8 0 s));
            let s2 = upd_mem (dirent_unlink res prev) s1;
            let dir' = dir\<lparr>i_ctime := now s2, i_mtime := now s2\<rparr>;
            pidir \<leftarrow> pmfs_get_inode s2 (i_ino dir);
            let s3 = snd (pmfs_add_logentry tr pidir 48 0 s2);
            if pidir = 0 then None
            else Some (Inr (), dir', upd_mem (\<lambda>m. wr32 (pidir + 24) (i_ctime dir') (wr32 (pidir + 28) (i_mtime dir') m)) s3)
          }
      })"

section \<open>Looking up a name\<close>

text \<open>The \<open>do\<close> loop over the blocks from \<open>block\<close> round to \<open>start\<close>: \<open>Inl\<close> is the jump to \<open>done\<close> with the
  inode number, the record and the block (which becomes the next start), \<open>Inr\<close> the end of the loop.\<close>

partial_function (option) by_name_loop ::
  "u8 list \<Rightarrow> vinode \<Rightarrow> u64 \<Rightarrow> u64 \<Rightarrow> u64 \<Rightarrow> fs \<Rightarrow> ((u64 \<times> nat \<times> u64) option + unit) option" where
  "by_name_loop name dir nblocks start block s = do {
     bp \<leftarrow> pmfs_find_data_block dir block s;
     let blk_base = pmfs_get_block s bp;
     if blk_base = 0 then Some (Inl None)
     else case pmfs_search_dirblock blk_base name s of
            Found res _ \<Rightarrow> Some (Inl (Some (de_ino (rd_direntry (mem s) res), res, block)))
          | Bad_block \<Rightarrow> Some (Inl None)
          | Not_found \<Rightarrow>
              let block' = (if block + 1 \<ge> nblocks then 0 else block + 1)
              in if block' \<noteq> start then by_name_loop name dir nblocks start block' s
                 else Some (Inr ()) }"

text \<open>\<open>name[1] == 0\<close> is the end of the string, so the test for dots is on the whole name.\<close>

definition is_dots :: "u8 list \<Rightarrow> bool" where
  "is_dots name \<longleftrightarrow> name = [46] \<or> name = [46, 46]"

text \<open>The directory does not grow during the search, so the search of the last part is for the dots
  only, whose first pass looks at one block. The result is the inode number, the record, and the
  directory with its new start block.\<close>

definition pmfs_inode_by_name :: "u8 list \<Rightarrow> vinode \<Rightarrow> fs \<Rightarrow> (u64 \<times> nat option \<times> vinode) option" where
  "pmfs_inode_by_name name dir s =
     (let finish = (\<lambda>r. case r of
            Inl (Some (ino, res, block)) \<Rightarrow> (ino, Some res, dir\<lparr>i_dir_start_lookup := ucast block\<rparr>)
          | _ \<Rightarrow> (0, None, dir));
          nblocks' = drop_bit (s_blocksize_bits s) (i_size dir)
      in if length name > PMFS_NAME_LEN then Some (0, None, dir)
         else let start = (if is_dots name then 0
                           else if ucast (i_dir_start_lookup dir) \<ge> nblocks' then 0
                           else ucast (i_dir_start_lookup dir));
                  nblocks = (if is_dots name then 1 else nblocks')
              in do {
                   r \<leftarrow> by_name_loop name dir nblocks start start s;
                   if r = Inr () \<and> nblocks < nblocks' then do {
                     r2 \<leftarrow> by_name_loop name dir nblocks' 0 nblocks s;
                     Some (finish r2)
                   }
                   else Some (finish r)
                 })"

section \<open>Reading a directory\<close>

text \<open>An emitted entry is the name, the inode number and the type. \<open>dir_emit\<close> is the VFS callback: given
  what was emitted so far and the next entry, whether it takes the entry.\<close>

type_synonym dir_entry = "u8 list \<times> u64 \<times> u16"

definition IF2DT :: "u16 \<Rightarrow> u16" where
  "IF2DT sif = drop_bit 12 (sif AND S_IFMT)"

text \<open>The inner loop over the records of a block. The first component of the result says that the
  callback refused, and the code returns.\<close>

partial_function (option) readdir_block ::
  "(dir_entry list \<Rightarrow> dir_entry \<Rightarrow> bool) \<Rightarrow> u64 \<Rightarrow> nat \<Rightarrow> nat \<Rightarrow> u64 \<Rightarrow> dir_entry list \<Rightarrow> fs
     \<Rightarrow> (bool \<times> u64 \<times> dir_entry list) option" where
  "readdir_block dir_emit isize blk_base offset pos out s =
     (if \<not> (pos < isize \<and> offset < unat (s_blocksize s)) then Some (False, pos, out)
      else let de = blk_base + offset; e = rd_direntry (mem s) de; len = de_len e
           in if \<not> pmfs_check_dir_entry de blk_base s then
                Some (False, (pos + s_blocksize s - 1) AND NOT (s_blocksize s - 1), out)
              else if de_ino e \<noteq> 0 then do {
                pi \<leftarrow> pmfs_get_inode s (de_ino e);
                if pi = 0 then None
                else let ent = (de_name e, de_ino e, IF2DT (pi_mode (rd_inode (mem s) pi)))
                     in if \<not> dir_emit out ent then Some (True, pos, out)
                        else readdir_block dir_emit isize blk_base (offset + unat len) (pos + ucast len) (out @ [ent]) s
              }
              else readdir_block dir_emit isize blk_base (offset + unat len) (pos + ucast len) out s)"

partial_function (option) readdir_loop ::
  "(dir_entry list \<Rightarrow> dir_entry \<Rightarrow> bool) \<Rightarrow> vinode \<Rightarrow> nat \<Rightarrow> u64 \<Rightarrow> dir_entry list \<Rightarrow> fs
     \<Rightarrow> (u64 \<times> dir_entry list) option" where
  "readdir_loop dir_emit inode offset pos out s =
     (if \<not> pos < i_size inode then Some (pos, out)
      else do {
        bp \<leftarrow> pmfs_find_data_block inode (drop_bit (s_blocksize_bits s) pos) s;
        let blk_base = pmfs_get_block s bp;
        if blk_base = 0 then readdir_loop dir_emit inode offset (pos + (s_blocksize s - of_nat offset)) out s
        else do {
          (stop, pos', out') \<leftarrow> readdir_block dir_emit (i_size inode) blk_base offset pos out s;
          if stop then Some (pos', out') else readdir_loop dir_emit inode 0 pos' out' s
        }
      })"

definition pmfs_readdir ::
  "(dir_entry list \<Rightarrow> dir_entry \<Rightarrow> bool) \<Rightarrow> vinode \<Rightarrow> u64 \<Rightarrow> fs \<Rightarrow> (u64 \<times> dir_entry list) option" where
  "pmfs_readdir dir_emit inode pos s =
     readdir_loop dir_emit inode (unat (pos AND (s_blocksize s - 1))) pos [] s"

end
