(* ===== verification/Namei.thy ===== *)
theory Namei
  imports Dirent
begin

text \<open>
  The directory operations of \<open>namei.c\<close> and the symbolic links of \<open>symlink.c\<close>: create, mknod, symlink,
  link, unlink, mkdir, rmdir, rename and lookup, each the whole handler with its transaction. A handler
  takes the VFS inodes it works on and returns them as it leaves them. An error is \<open>Inl\<close>; where the
  code returns a success code although it failed, so does the model.
\<close>

section \<open>Helpers\<close>

abbreviation (input) PMFS_LINK_MAX :: u32 where "PMFS_LINK_MAX \<equiv> 32000"
abbreviation (input) MAX_DIRENTRY_LENTRIES :: u32 where "MAX_DIRENTRY_LENTRIES \<equiv> 2"
abbreviation (input) T_DIR :: u8 where "T_DIR \<equiv> 1"

definition pmfs_inc_count :: "vinode \<Rightarrow> nat \<Rightarrow> fs \<Rightarrow> (vinode \<times> fs) option" where
  "pmfs_inc_count inode pi s =
     (let inode' = inode\<lparr>i_nlink := i_nlink inode + 1\<rparr>
      in if pi = 0 then None else Some (inode', upd_mem (pmfs_update_nlink inode' pi) s))"

definition pmfs_dec_count :: "vinode \<Rightarrow> nat \<Rightarrow> fs \<Rightarrow> (vinode \<times> fs) option" where
  "pmfs_dec_count inode pi s =
     (if i_nlink inode = 0 then Some (inode, s)
      else let inode' = inode\<lparr>i_nlink := i_nlink inode - 1\<rparr>
           in if pi = 0 then None else Some (inode', upd_mem (pmfs_update_nlink inode' pi) s))"

text \<open>Dropping the last reference to an inode (\<open>iput\<close>): the VFS evicts it when it has no links left, and
  otherwise keeps it in its cache.\<close>

definition iput :: "vinode \<Rightarrow> fs \<Rightarrow> fs option" where
  "iput inode s =
     (if i_nlink inode = 0 then do { (_, s') \<leftarrow> pmfs_evict_inode False inode s; Some s' } else Some s)"

definition pmfs_add_nondir ::
  "pmfs_transaction option \<Rightarrow> vinode \<Rightarrow> u8 list \<Rightarrow> vinode \<Rightarrow> fs
     \<Rightarrow> ((errno + unit) \<times> vinode \<times> vinode \<times> fs) option" where
  "pmfs_add_nondir tr dir name inode s = do {
     (err, dir', s1) \<leftarrow> pmfs_add_entry tr name (Some inode) dir s;
     if err = Inr () then Some (Inr (), inode, dir', s1)
     else do {
       pi \<leftarrow> pmfs_get_inode s1 (i_ino inode);
       (inode', s2) \<leftarrow> pmfs_dec_count inode pi s1;
       s3 \<leftarrow> iput inode' s2;
       Some (err, inode', dir', s3)
     } }"

definition pmfs_next_entry :: "nat \<Rightarrow> mem \<Rightarrow> nat" where
  "pmfs_next_entry p m = p + unat (de_len (rd_direntry m p))"

section \<open>Looking up\<close>

definition pmfs_lookup :: "vfs \<Rightarrow> vinode \<Rightarrow> u8 list \<Rightarrow> fs \<Rightarrow> ((errno + vinode option) \<times> vinode) option" where
  "pmfs_lookup v dir name s =
     (if length name > PMFS_NAME_LEN then Some (Inl ENAMETOOLONG, dir)
      else do {
        (ino, _, dir') \<leftarrow> pmfs_inode_by_name name dir s;
        if ino \<noteq> 0 then do {
          r \<leftarrow> pmfs_iget v ino s;
          Some (case r of
                  Inl e \<Rightarrow> if e = ESTALE then Inl EIO else Inl e
                | Inr inode \<Rightarrow> Inr (Some inode), dir')
        }
        else Some (Inr None, dir')
      })"

definition pmfs_get_parent :: "vfs \<Rightarrow> vinode \<Rightarrow> fs \<Rightarrow> (errno + vinode) option" where
  "pmfs_get_parent v inode s = do {
     (_, de, _) \<leftarrow> pmfs_inode_by_name [46, 46] inode s;
     case de of
       None \<Rightarrow> Some (Inl ENOENT)
     | Some d \<Rightarrow> let ino = de_ino (rd_direntry (mem s) d)
                 in if ino \<noteq> 0 then pmfs_iget v ino s else Some (Inl ENOENT) }"

section \<open>Symbolic links\<close>

definition pmfs_block_symlink :: "vinode \<Rightarrow> u8 list \<Rightarrow> fs \<Rightarrow> ((errno + unit) \<times> vinode \<times> fs) option" where
  "pmfs_block_symlink inode symname s = do {
     (r, inode', s1) \<leftarrow> pmfs_alloc_blocks None inode 0 1 False s;
     if r \<noteq> Inr () then Some (r, inode', s1)
     else do {
       block \<leftarrow> pmfs_find_data_block inode' 0 s1;
       let blockp = pmfs_get_block s1 block;
       if blockp = 0 then None
       else Some (Inr (), inode', upd_mem (\<lambda>m. wr8 (blockp + length symname) 0 (memput blockp symname m)) s1)
     } }"

text \<open>The bytes of the C string at an address.\<close>

partial_function (option) c_string :: "mem \<Rightarrow> nat \<Rightarrow> u8 list option" where
  "c_string m a = (if m a = 0 then Some [] else do { cs \<leftarrow> c_string m (a + 1); Some (m a # cs) })"

text \<open>\<open>copy_ok\<close> is whether \<open>copy_to_user\<close> succeeds; the result is what the user's buffer gets.\<close>

definition pmfs_readlink_copy :: "bool \<Rightarrow> nat \<Rightarrow> u8 list \<Rightarrow> errno + u8 list" where
  "pmfs_readlink_copy copy_ok buflen link =
     (let len = (if length link > buflen then buflen else length link)
      in if copy_ok then Inr (take len link) else Inl EFAULT)"

definition pmfs_readlink :: "bool \<Rightarrow> vinode \<Rightarrow> nat \<Rightarrow> fs \<Rightarrow> (errno + u8 list) option" where
  "pmfs_readlink copy_ok inode buflen s = do {
     block \<leftarrow> pmfs_find_data_block inode 0 s;
     let blockp = pmfs_get_block s block;
     if blockp = 0 then None
     else do { link \<leftarrow> c_string (mem s) blockp; Some (pmfs_readlink_copy copy_ok buflen link) } }"

definition pmfs_get_link :: "vinode \<Rightarrow> fs \<Rightarrow> nat option" where
  "pmfs_get_link inode s = do { block \<leftarrow> pmfs_find_data_block inode 0 s; Some (pmfs_get_block s block) }"

section \<open>Creating\<close>

text \<open>The variable \<open>err\<close> of \<open>pmfs_create\<close> and \<open>pmfs_mknod\<close> starts as \<open>PTR_ERR(NULL)\<close>, which is 0, and is not
  set when \<open>pmfs_new_inode\<close> fails. The result is the return value, the new inode, the directory and the
  state.\<close>

definition pmfs_create ::
  "vfs \<Rightarrow> vinode \<Rightarrow> u8 list \<Rightarrow> u16 \<Rightarrow> fs \<Rightarrow> ((errno + unit) \<times> vinode option \<times> vinode \<times> fs) option" where
  "pmfs_create v dir name mode' s = do {
     (t, s1) \<leftarrow> pmfs_new_transaction (MAX_INODE_LENTRIES * 2 + MAX_DIRENTRY_LENTRIES) s;
     case t of
       Inl e \<Rightarrow> Some (Inl e, None, dir, s1)
     | Inr tr \<Rightarrow> do {
         (r, s2) \<leftarrow> pmfs_new_inode v (Some tr) dir mode' s1;
         case r of
           Inl e \<Rightarrow> do { s3 \<leftarrow> pmfs_abort_transaction (Some tr) s2; Some (Inr (), None, dir, s3) }
         | Inr inode \<Rightarrow> do {
             (err, inode', dir', s3) \<leftarrow> pmfs_add_nondir (Some tr) dir name inode s2;
             if err \<noteq> Inr () then do {
               s4 \<leftarrow> pmfs_abort_transaction (Some tr) s3; Some (err, None, dir', s4)
             }
             else Some (Inr (), Some inode', dir', pmfs_commit_transaction (Some tr) s3)
           }
       } }"

definition pmfs_mknod ::
  "vfs \<Rightarrow> vinode \<Rightarrow> u8 list \<Rightarrow> u16 \<Rightarrow> u32 \<Rightarrow> fs \<Rightarrow> ((errno + unit) \<times> vinode option \<times> vinode \<times> fs) option" where
  "pmfs_mknod v dir name mode' rdev s = do {
     (t, s1) \<leftarrow> pmfs_new_transaction (MAX_INODE_LENTRIES * 2 + MAX_DIRENTRY_LENTRIES) s;
     case t of
       Inl e \<Rightarrow> Some (Inl e, None, dir, s1)
     | Inr tr \<Rightarrow> do {
         (r, s2) \<leftarrow> pmfs_new_inode v (Some tr) dir mode' s1;
         case r of
           Inl e \<Rightarrow> do { s3 \<leftarrow> pmfs_abort_transaction (Some tr) s2; Some (Inr (), None, dir, s3) }
         | Inr inode0 \<Rightarrow> do {
             let inode = init_special_inode v inode0 mode' rdev;
             pi \<leftarrow> pmfs_get_inode s2 (i_ino inode);
             s3 \<leftarrow> (if S_ISCHR (i_mode inode) \<or> S_ISBLK (i_mode inode)
                   then if pi = 0 then None else Some (upd_mem (wr32 (pi + 64) (i_rdev inode)) s2)
                   else Some s2);
             (err, inode', dir', s4) \<leftarrow> pmfs_add_nondir (Some tr) dir name inode s3;
             if err \<noteq> Inr () then do {
               s5 \<leftarrow> pmfs_abort_transaction (Some tr) s4; Some (err, None, dir', s5)
             }
             else Some (Inr (), Some inode', dir', pmfs_commit_transaction (Some tr) s4)
           }
       } }"

definition pmfs_symlink ::
  "vfs \<Rightarrow> vinode \<Rightarrow> u8 list \<Rightarrow> u8 list \<Rightarrow> fs \<Rightarrow> ((errno + unit) \<times> vinode option \<times> vinode \<times> fs) option" where
  "pmfs_symlink v dir name symname s =
     (if length symname + 1 > unat (s_blocksize s) then Some (Inl ENAMETOOLONG, None, dir, s)
      else do {
        (t, s1) \<leftarrow> pmfs_new_transaction (MAX_INODE_LENTRIES * 2 + MAX_DIRENTRY_LENTRIES) s;
        case t of
          Inl e \<Rightarrow> Some (Inl e, None, dir, s1)
        | Inr tr \<Rightarrow> do {
            (r, s2) \<leftarrow> pmfs_new_inode v (Some tr) dir (S_IFLNK OR 0x1FF) s1;
            case r of
              Inl e \<Rightarrow> do { s3 \<leftarrow> pmfs_abort_transaction (Some tr) s2; Some (Inl e, None, dir, s3) }
            | Inr inode \<Rightarrow> do {
                pi \<leftarrow> pmfs_get_inode s2 (i_ino inode);
                (err, inode1, s3) \<leftarrow> pmfs_block_symlink inode symname s2;
                if err \<noteq> Inr () then do {
                  (inode2, s4) \<leftarrow> pmfs_dec_count inode1 pi s3;
                  s5 \<leftarrow> iput inode2 s4;
                  s6 \<leftarrow> pmfs_abort_transaction (Some tr) s5;
                  Some (err, None, dir, s6)
                }
                else if pi = 0 then None
                else do {
                  let inode2 = inode1\<lparr>i_size := of_nat (length symname)\<rparr>;
                  let s4 = upd_mem (pmfs_update_isize inode2 pi) s3;
                  (err2, inode3, dir', s5) \<leftarrow> pmfs_add_nondir (Some tr) dir name inode2 s4;
                  if err2 \<noteq> Inr () then do {
                    s6 \<leftarrow> pmfs_abort_transaction (Some tr) s5; Some (err2, None, dir', s6)
                  }
                  else Some (Inr (), Some inode3, dir', pmfs_commit_transaction (Some tr) s5)
                }
              }
          }
      })"

text \<open>The first block of a new directory, with the entries for the directory itself and its parent.\<close>

definition write_dots :: "nat \<Rightarrow> u64 \<Rightarrow> u64 \<Rightarrow> u64 \<Rightarrow> mem \<Rightarrow> mem" where
  "write_dots blk_base ino parent bsize m =
     (let m1 = wr8 (blk_base + 11) T_DIR (memput (blk_base + 12) [46, 0]
                 (wr16 (blk_base + 8) (of_nat (PMFS_DIR_REC_LEN 1)) (wr8 (blk_base + 10) 1 (wr64 blk_base ino m))));
          de = pmfs_next_entry blk_base m1
      in wr8 (de + 11) T_DIR (memput (de + 12) [46, 46, 0] (wr8 (de + 10) 2
           (wr16 (de + 8) (ucast bsize - of_nat (PMFS_DIR_REC_LEN 1)) (wr64 de parent m1)))))"

definition pmfs_mkdir ::
  "vfs \<Rightarrow> vinode \<Rightarrow> u8 list \<Rightarrow> u16 \<Rightarrow> fs \<Rightarrow> ((errno + unit) \<times> vinode option \<times> vinode \<times> fs) option" where
  "pmfs_mkdir v dir name mode' s =
     (if i_nlink dir \<ge> PMFS_LINK_MAX then Some (Inl EMLINK, None, dir, s)
      else do {
        (t, s1) \<leftarrow> pmfs_new_transaction (MAX_INODE_LENTRIES * 2 + MAX_DIRENTRY_LENTRIES) s;
        case t of
          Inl e \<Rightarrow> Some (Inl e, None, dir, s1)
        | Inr tr \<Rightarrow> do {
            (r, s2) \<leftarrow> pmfs_new_inode v (Some tr) dir (S_IFDIR OR mode') s1;
            case r of
              Inl e \<Rightarrow> do { s3 \<leftarrow> pmfs_abort_transaction (Some tr) s2; Some (Inl e, None, dir, s3) }
            | Inr inode \<Rightarrow> do {
                let clear_inode = (\<lambda>err inode' dir' s'. do {
                  s'' \<leftarrow> iput (inode'\<lparr>i_nlink := 0\<rparr>) s';
                  s''' \<leftarrow> pmfs_abort_transaction (Some tr) s'';
                  Some (err, None, dir', s''')
                });
                (err, inode1, s3) \<leftarrow> pmfs_alloc_blocks None inode 0 1 False s2;
                if err \<noteq> Inr () then clear_inode err inode1 dir s3
                else do {
                  let inode2 = inode1\<lparr>i_size := s_blocksize s3\<rparr>;
                  bp \<leftarrow> pmfs_find_data_block inode2 0 s3;
                  let blk_base = pmfs_get_block s3 bp;
                  if blk_base = 0 then None
                  else do {
                    let s4 = upd_mem (write_dots blk_base (i_ino inode2) (i_ino dir) (s_blocksize s3)) s3;
                    let inode3 = inode2\<lparr>i_nlink := 2\<rparr>;
                    (err2, dir1, s5) \<leftarrow> pmfs_add_entry (Some tr) name (Some inode3) dir s4;
                    if err2 \<noteq> Inr () then clear_inode err2 inode3 dir1 s5
                    else do {
                      pi \<leftarrow> pmfs_get_inode s5 (i_ino inode3);
                      if pi = 0 then None
                      else do {
                        let s6 = upd_mem (\<lambda>m. wr64 (pi + 16) (i_size inode3) (wr16 (pi + 38) (ucast (i_nlink inode3)) m)) s5;
                        pidir \<leftarrow> pmfs_get_inode s6 (i_ino dir1);
                        (dir2, s7) \<leftarrow> pmfs_inc_count dir1 pidir s6;
                        Some (Inr (), Some inode3, dir2, pmfs_commit_transaction (Some tr) s7)
                      }
                    }
                  }
                }
              }
          }
      })"

section \<open>Linking and removing\<close>

definition pmfs_link ::
  "vinode \<Rightarrow> vinode \<Rightarrow> u8 list \<Rightarrow> fs \<Rightarrow> ((errno + unit) \<times> vinode \<times> vinode \<times> fs) option" where
  "pmfs_link inode dir name s = do {
     pi \<leftarrow> pmfs_get_inode s (i_ino inode);
     if i_nlink inode \<ge> PMFS_LINK_MAX then Some (Inl EMLINK, inode, dir, s)
     else do {
       (t, s1) \<leftarrow> pmfs_new_transaction (MAX_INODE_LENTRIES * 2 + MAX_DIRENTRY_LENTRIES) s;
       case t of
         Inl e \<Rightarrow> Some (Inl e, inode, dir, s1)
       | Inr tr \<Rightarrow> do {
           let s2 = snd (pmfs_add_logentry (Some tr) pi 48 0 s1);
           (err, dir', s3) \<leftarrow> pmfs_add_entry (Some tr) name (Some inode) dir s2;
           if err = Inr () then
             let inode' = inode\<lparr>i_ctime := now s3, i_nlink := i_nlink inode + 1\<rparr>
             in if pi = 0 then None
                else Some (Inr (), inode', dir', pmfs_commit_transaction (Some tr)
                  (upd_mem (\<lambda>m. wr16 (pi + 38) (ucast (i_nlink inode')) (wr32 (pi + 24) (i_ctime inode') m)) s3))
           else do { s4 \<leftarrow> pmfs_abort_transaction (Some tr) s3; Some (err, inode, dir', s4) }
         }
     } }"

definition pmfs_unlink ::
  "vinode \<Rightarrow> vinode \<Rightarrow> u8 list \<Rightarrow> fs \<Rightarrow> ((errno + unit) \<times> vinode \<times> vinode \<times> fs) option" where
  "pmfs_unlink inode dir name s = do {
     pi \<leftarrow> pmfs_get_inode s (i_ino inode);
     (t, s1) \<leftarrow> pmfs_new_transaction (MAX_INODE_LENTRIES * 2 + MAX_DIRENTRY_LENTRIES) s;
     case t of
       Inl e \<Rightarrow> Some (Inl e, inode, dir, s1)
     | Inr tr \<Rightarrow> do {
         let s2 = snd (pmfs_add_logentry (Some tr) pi 48 0 s1);
         (err, dir', s3) \<leftarrow> pmfs_remove_entry (Some tr) name dir s2;
         if err \<noteq> Inr () then do { s4 \<leftarrow> pmfs_abort_transaction (Some tr) s3; Some (err, inode, dir', s4) }
         else do {
           s4 \<leftarrow> (if i_nlink inode = 1 then pmfs_truncate_add inode (i_size inode) s3 else Some s3);
           if pi = 0 then None
           else let inode1 = inode\<lparr>i_ctime := i_ctime dir'\<rparr>;
                    (inode2, s5) = (if i_nlink inode1 \<noteq> 0
                      then let i2 = inode1\<lparr>i_nlink := i_nlink inode1 - 1\<rparr>
                           in (i2, upd_mem (wr16 (pi + 38) (ucast (i_nlink i2))) s4)
                      else (inode1, s4));
                    s6 = upd_mem (wr32 (pi + 24) (i_ctime inode2)) s5
                in Some (Inr (), inode2, dir', pmfs_commit_transaction (Some tr) s6)
         }
       } }"

text \<open>\<open>strcmp\<close> of a record's name with \<open>"."\<close> and \<open>".."\<close>, and the loop of \<open>pmfs_empty_dir\<close>: \<open>False\<close> at the
  first record in use.\<close>

definition is_dot :: "mem \<Rightarrow> nat \<Rightarrow> bool" where
  "is_dot m de \<longleftrightarrow> m (de + 12) = 46 \<and> m (de + 13) = 0"

definition is_dotdot :: "mem \<Rightarrow> nat \<Rightarrow> bool" where
  "is_dotdot m de \<longleftrightarrow> m (de + 12) = 46 \<and> m (de + 13) = 46 \<and> m (de + 14) = 0"

partial_function (option) empty_dir_loop :: "vinode \<Rightarrow> u64 \<Rightarrow> nat \<Rightarrow> nat \<Rightarrow> fs \<Rightarrow> bool option" where
  "empty_dir_loop inode offset de blk_base s =
     (if \<not> offset < i_size inode then Some True
      else do {
        (b, d) \<leftarrow>
          (if blk_base = 0 \<or> de \<ge> blk_base + unat (s_blocksize s) then do {
             bp \<leftarrow> pmfs_find_data_block inode (drop_bit (s_blocksize_bits s) offset) s;
             Some (pmfs_get_block s bp, pmfs_get_block s bp)
           }
           else Some (blk_base, de));
        if b = 0 then empty_dir_loop inode (offset + s_blocksize s) de 0 s
        else if \<not> pmfs_check_dir_entry d b s then
          empty_dir_loop inode ((offset OR (s_blocksize s - 1)) + 1) (b + unat (s_blocksize s)) b s
        else if de_ino (rd_direntry (mem s) d) \<noteq> 0 then Some False
        else empty_dir_loop inode (offset + ucast (de_len (rd_direntry (mem s) d))) (pmfs_next_entry d (mem s)) b s
      })"

definition pmfs_empty_dir :: "vinode \<Rightarrow> fs \<Rightarrow> bool option" where
  "pmfs_empty_dir inode s =
     (if i_size inode < of_nat (PMFS_DIR_REC_LEN 1 + PMFS_DIR_REC_LEN 2) then Some True
      else do {
        bp \<leftarrow> pmfs_find_data_block inode 0 s;
        let blk_base = pmfs_get_block s bp;
        if blk_base = 0 then Some True
        else let de = blk_base; de1 = pmfs_next_entry de (mem s)
             in if de_ino (rd_direntry (mem s) de) \<noteq> i_ino inode \<or> de_ino (rd_direntry (mem s) de1) = 0
                   \<or> \<not> is_dot (mem s) de \<or> \<not> is_dotdot (mem s) de1
                then Some True
                else empty_dir_loop inode
                       (ucast (de_len (rd_direntry (mem s) de)) + ucast (de_len (rd_direntry (mem s) de1)))
                       (pmfs_next_entry de1 (mem s)) blk_base s
      })"

definition pmfs_rmdir ::
  "vinode \<Rightarrow> vinode \<Rightarrow> u8 list \<Rightarrow> fs \<Rightarrow> ((errno + unit) \<times> vinode \<times> vinode \<times> fs) option" where
  "pmfs_rmdir inode dir name s = do {
     pi \<leftarrow> pmfs_get_inode s (i_ino inode);
     (ino, _, dir0) \<leftarrow> pmfs_inode_by_name name dir s;
     if ino = 0 then Some (Inl ENOENT, inode, dir0, s)
     else do {
       em \<leftarrow> pmfs_empty_dir inode s;
       if \<not> em then Some (Inl ENOTEMPTY, inode, dir0, s)
       else do {
         (t, s1) \<leftarrow> pmfs_new_transaction (MAX_INODE_LENTRIES * 2 + MAX_DIRENTRY_LENTRIES) s;
         case t of
           Inl e \<Rightarrow> Some (Inl e, inode, dir0, s1)
         | Inr tr \<Rightarrow> do {
             let s2 = snd (pmfs_add_logentry (Some tr) pi 48 0 s1);
             (err, dir1, s3) \<leftarrow> pmfs_remove_entry (Some tr) name dir0 s2;
             if err \<noteq> Inr () then do { s4 \<leftarrow> pmfs_abort_transaction (Some tr) s3; Some (err, inode, dir1, s4) }
             else if pi = 0 then None
             else do {
               let inode1 = inode\<lparr>i_nlink := 0, i_ctime := i_ctime dir1\<rparr>;
               let s4 = upd_mem (\<lambda>m. wr32 (pi + 24) (i_ctime inode1) (wr16 (pi + 38) (ucast (i_nlink inode1)) m)) s3;
               s5 \<leftarrow> pmfs_truncate_add inode1 (i_size inode1) s4;
               pidir \<leftarrow> pmfs_get_inode s5 (i_ino dir1);
               (dir2, s6) \<leftarrow> pmfs_dec_count dir1 pidir s5;
               Some (Inr (), inode1, dir2, pmfs_commit_transaction (Some tr) s6)
             }
           }
       }
     } }"

section \<open>Renaming\<close>

text \<open>The two directories may be the same VFS inode: what happens to one then shows in the other
  (\<open>same_dir\<close>). The result is the return value, the target inode, the two directories and the state.\<close>

definition same_dir :: "vinode \<Rightarrow> vinode \<Rightarrow> vinode" where
  "same_dir new old = (if i_ino new = i_ino old then new else old)"

text \<open>The part after the entry has moved: the replaced inode loses its links, or the parents' link
  counts change when a directory moved.\<close>

definition rename_links ::
  "pmfs_transaction \<Rightarrow> vinode \<Rightarrow> vinode option \<Rightarrow> vinode \<Rightarrow> vinode \<Rightarrow> fs
     \<Rightarrow> (vinode option \<times> vinode \<times> vinode \<times> fs) option" where
  "rename_links tr old_inode target old_dir new_dir s =
     (case target of
        Some ni \<Rightarrow> do {
          pi \<leftarrow> pmfs_get_inode s (i_ino ni);
          let s1 = snd (pmfs_add_logentry (Some tr) pi 48 0 s);
          if pi = 0 then None
          else do {
            let drop = (\<lambda>i. if i_nlink i \<noteq> 0 then i\<lparr>i_nlink := i_nlink i - 1\<rparr> else i);
            let n1 = ni\<lparr>i_ctime := now s1\<rparr>;
            let n2 = (if S_ISDIR (i_mode old_inode) then drop n1 else n1);
            let n3 = drop n2;
            let s2 = upd_mem (\<lambda>m. wr16 (pi + 38) (ucast (i_nlink n3)) (wr32 (pi + 24) (i_ctime n2) m)) s1;
            s3 \<leftarrow> (if i_nlink n3 = 0 then pmfs_truncate_add n3 (i_size n3) s2 else Some s2);
            Some (Some n3, old_dir, new_dir, s3)
          }
        }
      | None \<Rightarrow>
          if S_ISDIR (i_mode old_inode) then do {
            new_pidir \<leftarrow> pmfs_get_inode s (i_ino new_dir);
            (nd, s1) \<leftarrow> pmfs_inc_count new_dir new_pidir s;
            old_pidir \<leftarrow> pmfs_get_inode s1 (i_ino old_dir);
            (od, s2) \<leftarrow> pmfs_dec_count (same_dir nd old_dir) old_pidir s1;
            Some (None, od, same_dir od nd, s2)
          }
          else Some (None, old_dir, new_dir, s))"

definition pmfs_rename ::
  "vinode \<Rightarrow> vinode \<Rightarrow> u8 list \<Rightarrow> vinode option \<Rightarrow> vinode \<Rightarrow> u8 list \<Rightarrow> fs
     \<Rightarrow> ((errno + unit) \<times> vinode option \<times> vinode \<times> vinode \<times> fs) option" where
  "pmfs_rename old_inode old_dir0 old_name target new_dir0 new_name s = do {
     (_, new_de, nd0) \<leftarrow> pmfs_inode_by_name new_name new_dir0 s;
     (_, _, od) \<leftarrow> pmfs_inode_by_name old_name (same_dir nd0 old_dir0) s;
     let nd = same_dir od nd0;
     (t, s1) \<leftarrow> pmfs_new_transaction (MAX_INODE_LENTRIES * 4 + MAX_DIRENTRY_LENTRIES * 2) s;
     case t of
       Inl e \<Rightarrow> Some (Inl e, target, od, nd, s1)
     | Inr tr \<Rightarrow> do {
         let out = (\<lambda>err od' nd' s'. do {
           s'' \<leftarrow> pmfs_abort_transaction (Some tr) s'; Some (err, target, od', nd', s'') });
         err0 \<leftarrow> (case target of
             Some ni \<Rightarrow>
               if S_ISDIR (i_mode old_inode) then do {
                 em \<leftarrow> pmfs_empty_dir ni s1; Some (if em then None else Some ENOTEMPTY)
               }
               else Some None
           | None \<Rightarrow> Some (if S_ISDIR (i_mode old_inode) \<and> i_nlink nd \<ge> PMFS_LINK_MAX then Some EMLINK else None));
         case err0 of
           Some e \<Rightarrow> out (Inl e) od nd s1
         | None \<Rightarrow> do {
             new_pidir \<leftarrow> pmfs_get_inode s1 (i_ino nd);
             pi \<leftarrow> pmfs_get_inode s1 (i_ino old_inode);
             let s2 = snd (pmfs_add_logentry (Some tr) pi 48 0 s1);
             (err, nd1, s3) \<leftarrow> (case new_de of
                 None \<Rightarrow> pmfs_add_entry (Some tr) new_name (Some old_inode) nd s2
               | Some de \<Rightarrow>
                   let s3 = upd_mem (wr64 de (i_ino old_inode)) (snd (pmfs_add_logentry (Some tr) de 8 0 s2));
                       s4 = snd (pmfs_add_logentry (Some tr) new_pidir 48 0 s3);
                       nd1 = nd\<lparr>i_ctime := now s4, i_mtime := now s4\<rparr>
                   in if new_pidir = 0 then None
                      else Some (Inr (), nd1, upd_mem (pmfs_update_time nd1 new_pidir) s4));
             if err \<noteq> Inr () then out err (same_dir nd1 od) nd1 s3
             else do {
               (err2, od1, s4) \<leftarrow> pmfs_remove_entry (Some tr) old_name (same_dir nd1 od) s3;
               if err2 \<noteq> Inr () then out err2 od1 (same_dir od1 nd1) s4
               else do {
                 (ni, od2, nd2, s5) \<leftarrow> rename_links tr old_inode target od1 (same_dir od1 nd1) s4;
                 Some (Inr (), ni, od2, nd2, pmfs_commit_transaction (Some tr) s5)
               }
             }
           }
       } }"

end
