(* ===== verification/Super.thy ===== *)
theory Super
  imports Bbuild Namei
begin

text \<open>
  Mounting and unmounting (\<open>super.c\<close>, and \<open>pmfs_sync_super\<close> of \<open>wprotect.h\<close>): mount options, formatting,
  the integrity check of the super block with its redundant copy, recovery of the truncate list, the
  mount itself, remounting, unmounting and \<open>statfs\<close>. The kernel's \<open>crc16\<close> is the parameter \<open>crc16\<close>, and
  the tokens of the option string are what the kernel's parser makes of it.
\<close>

section \<open>Sizes\<close>

abbreviation (input) PMFS_MOUNT_PROTECT :: u64 where "PMFS_MOUNT_PROTECT \<equiv> 0x1"
abbreviation (input) PMFS_MOUNT_POSIX_ACL :: u64 where "PMFS_MOUNT_POSIX_ACL \<equiv> 0x4"
abbreviation (input) PMFS_MOUNT_XIP :: u64 where "PMFS_MOUNT_XIP \<equiv> 0x8"
abbreviation (input) PMFS_MOUNT_HUGEMMAP :: u64 where "PMFS_MOUNT_HUGEMMAP \<equiv> 0x80"
abbreviation (input) PMFS_MOUNT_HUGEIOREMAP :: u64 where "PMFS_MOUNT_HUGEIOREMAP \<equiv> 0x100"
abbreviation (input) PMFS_MOUNT_PROTECT_OLD :: u64 where "PMFS_MOUNT_PROTECT_OLD \<equiv> 0x200"
abbreviation (input) PMFS_MINIMUM_JOURNAL_SIZE :: u32 where "PMFS_MINIMUM_JOURNAL_SIZE \<equiv> 0x10000"
abbreviation (input) PMFS_DEFAULT_JOURNAL_SIZE :: u32 where "PMFS_DEFAULT_JOURNAL_SIZE \<equiv> 0x400000"
abbreviation (input) MS_POSIXACL :: u64 where "MS_POSIXACL \<equiv> 0x10000"
abbreviation (input) MS_NOSEC :: u64 where "MS_NOSEC \<equiv> 0x10000000"

text \<open>\<open>fls\<close>: one more than the position of the highest bit, 0 for 0.\<close>

fun fls :: "nat \<Rightarrow> nat" where
  "fls n = (if n = 0 then 0 else Suc (fls (n div 2)))"

declare fls.simps [simp del]

text \<open>A block size of 0 shifts by a negative amount, which C leaves undefined.\<close>

definition pmfs_set_blocksize :: "u64 \<Rightarrow> fs \<Rightarrow> fs option" where
  "pmfs_set_blocksize sz s =
     (let w = unat (ucast sz :: u32)
      in if w = 0 then None
         else let bits = fls w - 1
              in Some (s\<lparr>s_blocksize_bits := bits, s_blocksize := scast (push_bit bits (1 :: u32))\<rparr>))"

text \<open>\<open>direct_access\<close> is the block device's answer: \<open>None\<close> without the method, else the size it returns.\<close>

definition pmfs_get_block_info :: "int option \<Rightarrow> fs \<Rightarrow> (errno + unit) \<times> fs" where
  "pmfs_get_block_info direct_access s =
     (case direct_access of
        None \<Rightarrow> (Inl EINVAL, s)
      | Some sz \<Rightarrow> if sz \<le> 0 then (Inl EINVAL, s)
                  else (Inr (), upd_sbi (\<lambda>b. b\<lparr>initsize := of_int sz\<rparr>) s))"

definition pmfs_max_size :: "nat \<Rightarrow> u64" where
  "pmfs_max_size bits =
     (let res = push_bit (3 * 9 + bits) 1 - 1 :: u64
      in if res > 0x7FFFFFFFFFFFFFFF then 0x7FFFFFFFFFFFFFFF else res)"

definition pmfs_check_size :: "u64 \<Rightarrow> fs \<Rightarrow> bool" where
  "pmfs_check_size sz s =
     (let num_blocks = (if num_inodes (sbi s) > 0
                        then drop_bit (s_blocksize_bits s - PMFS_INODE_BITS) (num_inodes (sbi s)) + 1 else 1);
          minimum_size = scast (push_bit (s_blocksize_bits s) (2 :: u32)) + push_bit (s_blocksize_bits s) num_blocks
            + ucast (jsize (sbi s))
      in \<not> sz < minimum_size)"

section \<open>Mount options\<close>

text \<open>A token of the option string with its argument: \<open>None\<close> where \<open>match_int\<close> or \<open>match_octal\<close> fails. For
  \<open>jsize\<close>, whether the argument starts with a digit, and what \<open>memparse\<close> makes of it.\<close>

datatype mount_opt =
    Opt_bpi "u32 option" | Opt_uid "u32 option" | Opt_gid "u32 option" | Opt_mode "u32 option" | Opt_init
  | Opt_jsize bool u64 | Opt_num_inodes "u32 option" | Opt_err_panic | Opt_err_ro | Opt_err_cont | Opt_wprotect
  | Opt_wprotectold | Opt_hugemmap | Opt_nohugeioremap | Opt_dbgmask "u32 option" | Opt_bs | Opt_err

definition set_opt :: "u64 \<Rightarrow> pmfs_sb_info \<Rightarrow> pmfs_sb_info" where
  "set_opt o1 b = b\<lparr>s_mount_opt := s_mount_opt b OR o1\<rparr>"

definition clear_opt :: "u64 \<Rightarrow> pmfs_sb_info \<Rightarrow> pmfs_sb_info" where
  "clear_opt o1 b = b\<lparr>s_mount_opt := s_mount_opt b AND NOT o1\<rparr>"

text \<open>One token: \<open>False\<close> is a jump to \<open>bad_opt\<close> or \<open>bad_val\<close>. The debug mask is a global that only selects
  what is printed.\<close>

definition parse_option :: "bool \<Rightarrow> mount_opt \<Rightarrow> pmfs_sb_info \<Rightarrow> bool \<times> pmfs_sb_info" where
  "parse_option remount opt b =
     (case opt of
        Opt_bpi v \<Rightarrow> if remount then (False, b)
          else (case v of None \<Rightarrow> (False, b) | Some n \<Rightarrow> (True, b\<lparr>bpi := scast n\<rparr>))
      | Opt_uid v \<Rightarrow> if remount then (False, b)
          else (case v of None \<Rightarrow> (False, b) | Some n \<Rightarrow> (True, b\<lparr>sbi_uid := n\<rparr>))
      | Opt_gid v \<Rightarrow> (case v of None \<Rightarrow> (False, b) | Some n \<Rightarrow> (True, b\<lparr>sbi_gid := n\<rparr>))
      | Opt_mode v \<Rightarrow> (case v of None \<Rightarrow> (False, b) | Some n \<Rightarrow> (True, b\<lparr>sbi_mode := ucast (n AND 0x3FF)\<rparr>))
      | Opt_init \<Rightarrow> if remount then (False, b) else (True, set_opt PMFS_MOUNT_FORMAT b)
      | Opt_jsize digit n \<Rightarrow> if remount then (False, b) else if \<not> digit then (False, b)
          else (let js = ucast n :: u32; b' = b\<lparr>jsize := js\<rparr>
                in (\<not> (js AND (js - 1) \<noteq> 0 \<or> js < PMFS_MINIMUM_JOURNAL_SIZE), b'))
      | Opt_num_inodes v \<Rightarrow> if remount then (False, b)
          else (case v of None \<Rightarrow> (False, b) | Some n \<Rightarrow> (True, b\<lparr>num_inodes := scast n\<rparr>))
      | Opt_err_panic \<Rightarrow> (True, set_opt PMFS_MOUNT_ERRORS_PANIC
          (clear_opt PMFS_MOUNT_ERRORS_RO (clear_opt PMFS_MOUNT_ERRORS_CONT b)))
      | Opt_err_ro \<Rightarrow> (True, set_opt PMFS_MOUNT_ERRORS_RO
          (clear_opt PMFS_MOUNT_ERRORS_PANIC (clear_opt PMFS_MOUNT_ERRORS_CONT b)))
      | Opt_err_cont \<Rightarrow> (True, set_opt PMFS_MOUNT_ERRORS_CONT
          (clear_opt PMFS_MOUNT_ERRORS_PANIC (clear_opt PMFS_MOUNT_ERRORS_RO b)))
      | Opt_wprotect \<Rightarrow> if remount then (False, b) else (True, set_opt PMFS_MOUNT_PROTECT b)
      | Opt_wprotectold \<Rightarrow> if remount then (False, b) else (True, set_opt PMFS_MOUNT_PROTECT_OLD b)
      | Opt_hugemmap \<Rightarrow> if remount then (False, b) else (True, set_opt PMFS_MOUNT_HUGEMMAP b)
      | Opt_nohugeioremap \<Rightarrow> if remount then (False, b) else (True, clear_opt PMFS_MOUNT_HUGEIOREMAP b)
      | Opt_dbgmask v \<Rightarrow> (case v of None \<Rightarrow> (False, b) | Some n \<Rightarrow> (True, b))
      | Opt_bs \<Rightarrow> (False, b)
      | Opt_err \<Rightarrow> (False, b))"

fun pmfs_parse_options :: "bool \<Rightarrow> mount_opt list \<Rightarrow> pmfs_sb_info \<Rightarrow> (errno + unit) \<times> pmfs_sb_info" where
  "pmfs_parse_options remount [] b = (Inr (), b)"
| "pmfs_parse_options remount (opt # opts) b =
     (case parse_option remount opt b of
        (ok, b') \<Rightarrow> if ok then pmfs_parse_options remount opts b' else (Inl EINVAL, b'))"

definition set_default_opts :: "pmfs_sb_info \<Rightarrow> pmfs_sb_info" where
  "set_default_opts b =
     (set_opt PMFS_MOUNT_ERRORS_CONT (set_opt PMFS_MOUNT_HUGEIOREMAP b))\<lparr>jsize := PMFS_DEFAULT_JOURNAL_SIZE\<rparr>"

section \<open>The super block and its copy\<close>

definition pmfs_calc_checksum :: "(u16 \<Rightarrow> u8 list \<Rightarrow> u16) \<Rightarrow> nat \<Rightarrow> nat \<Rightarrow> mem \<Rightarrow> bool" where
  "pmfs_calc_checksum crc16 data n m \<longleftrightarrow> rd16 m data \<noteq> crc16 (NOT 0) (bytes_at m (data + 2) (n - 2))"

definition pmfs_sync_super :: "(u16 \<Rightarrow> u8 list \<Rightarrow> u16) \<Rightarrow> nat \<Rightarrow> u32 \<Rightarrow> mem \<Rightarrow> mem" where
  "pmfs_sync_super crc16 ps t m =
     (let m1 = wr16 ps 0 (wr32 (ps + 60) t m);
          crc = crc16 (NOT 0) (bytes_at m1 (ps + 2) (SB_STATIC_SIZE - 2))
      in memcpy (ps + PMFS_SB_SIZE) ps SUPER_BLOCK_SIZEOF (wr16 ps crc m1))"

text \<open>\<open>True\<close> for the return value 1.\<close>

definition pmfs_check_integrity :: "(u16 \<Rightarrow> u8 list \<Rightarrow> u16) \<Rightarrow> nat \<Rightarrow> mem \<Rightarrow> bool \<times> mem" where
  "pmfs_check_integrity crc16 super m =
     (let super_redund = super + PMFS_SB_SIZE;
          magic_bad = (\<lambda>p. s_magic (rd_super m p) \<noteq> PMFS_SUPER_MAGIC)
      in if magic_bad super \<and> magic_bad super_redund then (False, m)
         else let m1 = (if magic_bad super then memcpy super super_redund SUPER_BLOCK_SIZEOF m else m)
              in if pmfs_calc_checksum crc16 super SB_STATIC_SIZE m1 then
                   if pmfs_calc_checksum crc16 super_redund SB_STATIC_SIZE m1 then (False, m1)
                   else (True, memcpy super super_redund SUPER_BLOCK_SIZEOF m1)
                 else (True, m1))"

section \<open>Formatting\<close>

text \<open>The offsets that \<open>pmfs_init\<close> computes: \<open>sizeof(struct pmfs_super_block)\<close> is 136 and
  \<open>sizeof(pmfs_journal_t)\<close> is 32, and a cache line has 64 bytes.\<close>

definition align_up :: "nat \<Rightarrow> nat \<Rightarrow> nat" where
  "align_up a n = (n + a - 1) div a * a"

definition journal_meta_start :: nat where "journal_meta_start = align_up 64 SUPER_BLOCK_SIZEOF"
definition inode_table_start :: nat where "inode_table_start = align_up 64 (journal_meta_start + 32)"
definition journal_data_start :: nat where "journal_data_start = align_up 4096 (PMFS_SB_SIZE * 2)"

definition root_dots :: "nat \<Rightarrow> u64 \<Rightarrow> mem \<Rightarrow> mem" where
  "root_dots de0 bsize m =
     (let m1 = memput (de0 + 12) [46, 0] (wr16 (de0 + 8) (of_nat (PMFS_DIR_REC_LEN 1))
            (wr8 (de0 + 10) 1 (wr64 de0 PMFS_ROOT_INO m)));
          de = de0 + unat (de_len (rd_direntry m1 de0))
      in memput (de + 12) [46, 46, 0] (wr8 (de + 10) 2
           (wr16 (de + 8) (ucast bsize - of_nat (PMFS_DIR_REC_LEN 1)) (wr64 de PMFS_ROOT_INO m1))))"

definition root_inode :: "nat \<Rightarrow> u64 \<Rightarrow> fs \<Rightarrow> mem \<Rightarrow> mem" where
  "root_inode r blocknr s m =
     (let b = sbi s; t = now s
      in wr8 (r + 2) 0 (wr64 (r + 8) (pmfs_get_block_off blocknr) (wr32 (r + 60) t (wr32 (r + 28) t (wr32 (r + 24) t
           (wr64 (r + 16) (s_blocksize s) (wr64 (r + 40) 1 (wr32 (r + 4) 0 (wr8 (r + 3) PMFS_BLOCK_TYPE_4K
           (wr16 (r + 38) 2 (wr32 (r + 52) (sbi_gid b) (wr32 (r + 48) (sbi_uid b)
           (wr16 (r + 36) (sbi_mode b OR S_IFDIR) m)))))))))))))"

text \<open>\<open>virt_ok\<close>: the device is mapped; \<open>started\<close>: the log cleaner thread starts. The result of
  \<open>pmfs_new_block\<close> for the root directory is not checked: on failure the code uses an uninitialised
  block number.\<close>

definition pmfs_init ::
  "(u16 \<Rightarrow> u8 list \<Rightarrow> u16) \<Rightarrow> bool \<Rightarrow> bool \<Rightarrow> u64 \<Rightarrow> fs \<Rightarrow> ((errno + nat) \<times> fs) option" where
  "pmfs_init crc16 virt_ok started sz s =
     (let n = drop_bit PAGE_SHIFT sz;
          s1 = upd_sbi (\<lambda>b. b\<lparr>block_start := 0, block_end := n, num_free_blocks := n\<rparr>) s
      in if \<not> virt_ok then Some (Inl EINVAL, s1)
         else do {
           s2 \<leftarrow> pmfs_set_blocksize 4096 (upd_sbi (\<lambda>b. b\<lparr>blocksize := 4096\<rparr>) s1);
           if \<not> pmfs_check_size sz s2 then Some (Inl EINVAL, s2)
           else if inode_table_start + 80 > PMFS_SB_SIZE then Some (Inl EINVAL, s2)
           else do {
             let super = pmfs_get_super s2;
             let s3 = upd_mem (\<lambda>m. wr64 (super + 128) 0 (wr64 (super + 120) 1 (wr64 (super + 112) 1
                    (wr64 (super + 104) 1 (wr64 (super + 96) 0
                    (wr64 (super + 40) (of_nat inode_table_start) (wr64 (super + 32) (of_nat journal_meta_start)
                    (wr16 (super + 2) PMFS_SUPER_MAGIC (wr32 (super + 4) (ucast (s_blocksize s2))
                    (wr64 (super + 8) sz (memset super 0 journal_data_start m))))))))))) s2;
             s4 \<leftarrow> pmfs_init_blockmap (of_nat journal_data_start + ucast (jsize (sbi s3))) s3;
             (r, s5) \<leftarrow> pmfs_journal_hard_init started (of_nat journal_data_start) (jsize (sbi s4)) s4;
             if r \<noteq> Inr () then Some (Inl EINVAL, s5)
             else do {
               (r2, s6) \<leftarrow> pmfs_init_inode_table s5;
               if r2 \<noteq> Inr () then Some (Inl EINVAL, s6)
               else do {
                 let s7 = upd_mem (pmfs_sync_super crc16 super (now s6)) s6;
                 (r3, s8) \<leftarrow> pmfs_new_block PMFS_BLOCK_TYPE_4K True s7;
                 case r3 of
                   Inl e \<Rightarrow> None
                 | Inr blocknr \<Rightarrow> do {
                     root_i \<leftarrow> pmfs_get_inode s8 PMFS_ROOT_INO;
                     if root_i = 0 then None
                     else let s9 = upd_mem (root_inode root_i blocknr s8) s8;
                              de = pmfs_get_block s9 (pmfs_get_block_off blocknr)
                          in if de = 0 then None
                             else Some (Inr root_i, upd_mem (root_dots de (s_blocksize s9)) s9)
                   }
               }
             }
           }
         })"

section \<open>Mounting and unmounting\<close>

partial_function (option) recover_truncate_loop :: "vfs \<Rightarrow> u64 \<Rightarrow> fs \<Rightarrow> fs option" where
  "recover_truncate_loop v ino_next s =
     (if ino_next = 0 then Some s
      else do {
        pi \<leftarrow> pmfs_get_inode s ino_next;
        r \<leftarrow> pmfs_iget v ino_next s;
        case r of
          Inl e \<Rightarrow> Some s
        | Inr inode \<Rightarrow>
            if pi = 0 then None
            else do {
              (inode', s1) \<leftarrow>
                (if i_nlink inode \<noteq> 0 then do {
                   let tsz = i_truncatesize (rd_truncate_item (mem s) (pi + 80));
                   let s1 = pmfs_set_blocksize_hint pi tsz s;
                   (inode', s2) \<leftarrow> pmfs_setsize inode tsz s1;
                   Some (inode', upd_mem (pmfs_update_isize inode' pi) s2)
                 }
                 else Some (inode, s));
              s2 \<leftarrow> iput inode' s1;
              recover_truncate_loop v (i_next_truncate (rd_truncate_item (mem s2) (pi + 80))) s2
            }
      })"

definition pmfs_recover_truncate_list :: "vfs \<Rightarrow> fs \<Rightarrow> fs option" where
  "pmfs_recover_truncate_list v s =
     (let head = pmfs_get_truncate_list_head s;
          ino_next = i_next_truncate (rd_truncate_item (mem s) head)
      in if ino_next = 0 then Some s
         else do {
           s1 \<leftarrow> recover_truncate_loop v ino_next s;
           Some (upd_mem (wr64 (head + 8) 0) s1)
         })"

text \<open>The eight bytes of mount and write time.\<close>

definition write_mount_time :: "fs \<Rightarrow> fs" where
  "write_mount_time s =
     (let t = ucast (now s) :: u64 in upd_mem (wr64 (pmfs_get_super s + 56) (t OR push_bit 32 t)) s)"

text \<open>What \<open>pmfs_fill_super\<close> gets from its surroundings: whether \<open>kzalloc\<close> and \<open>d_make_root\<close> succeed, the
  device, the random start of the generation numbers, the mounting user, the options, whether the
  cleaner thread starts, and whether the bitmaps can be allocated.\<close>

record mount_env =
  kzalloc_ok :: bool
  direct_access :: "int option"
  virt_ok :: bool
  random :: u32
  fsuid :: u32
  fsgid :: u32
  options :: "mount_opt list"
  cleaner_started :: bool
  make_root_ok :: bool
  bitmaps_ok :: bool

definition pmfs_fill_super ::
  "(u16 \<Rightarrow> u8 list \<Rightarrow> u16) \<Rightarrow> vfs \<Rightarrow> mount_env \<Rightarrow> fs \<Rightarrow> ((errno + unit) \<times> fs) option" where
  "pmfs_fill_super crc16 v env s =
     (if \<not> kzalloc_ok env then Some (Inl ENOMEM, s)
      else let s1 = s\<lparr>sbi := set_default_opts (blank_sbi\<lparr>blocksize := 0\<rparr>)\<rparr>
           in case pmfs_get_block_info (direct_access env) s1 of
                (Inl e, s2) \<Rightarrow> Some (Inl EINVAL, s2)
              | (Inr _, s2) \<Rightarrow>
                  let b = set_opt PMFS_MOUNT_HUGEIOREMAP (clear_opt PMFS_MOUNT_PROTECT (set_opt PMFS_MOUNT_XIP
                        ((sbi s2)\<lparr>next_generation := random env, block_inuse_head := [], sbi_mode := 0x16D OR 0x80,
                          sbi_uid := fsuid env, sbi_gid := fsgid env, s_truncate := []\<rparr>)))
                  in case pmfs_parse_options False (options env) b of
                       (Inl e, b') \<Rightarrow> Some (Inl EINVAL, s2\<lparr>sbi := b'\<rparr>)
                     | (Inr _, b') \<Rightarrow>
                         let s3 = s2\<lparr>sbi := set_opt PMFS_MOUNT_MOUNTING b'\<rparr>
                         in do {
                              (r, s4) \<leftarrow>
                                (if s_mount_opt (sbi s3) AND PMFS_MOUNT_FORMAT \<noteq> 0 then do {
                                   (r, s4) \<leftarrow> pmfs_init crc16 (virt_ok env) (cleaner_started env) (initsize (sbi s3)) s3;
                                   Some (case r of Inl e \<Rightarrow> Inl EINVAL | Inr _ \<Rightarrow> Inr (), s4)
                                 }
                                 else case pmfs_journal_soft_init (cleaner_started env) s3 of
                                   (Inl e, s4) \<Rightarrow> Some (Inl EINVAL, s4)
                                 | (Inr _, s4) \<Rightarrow> do {
                                     s5 \<leftarrow> pmfs_recover_journal s4;
                                     let (ok, m) = pmfs_check_integrity crc16 (pmfs_get_super s5) (mem s5);
                                     let s6 = s5\<lparr>mem := m\<rparr>;
                                     if \<not> ok then Some (Inl EINVAL, s6)
                                     else do {
                                       s7 \<leftarrow> pmfs_set_blocksize (ucast (s_blocksize_le (rd_super (mem s6) (pmfs_get_super s6)))) s6;
                                       root_pi \<leftarrow> pmfs_get_inode s7 PMFS_ROOT_INO;
                                       if root_pi = 0 then None else Some (Inr (), s7)
                                     }
                                   });
                              case r of
                                Inl e \<Rightarrow> Some (Inl e, s4)
                              | Inr _ \<Rightarrow> do {
                                  let s5 = s4\<lparr>s_flags := s_flags s4 OR MS_NOSEC\<rparr>;
                                  root_i \<leftarrow> pmfs_iget v PMFS_ROOT_INO s5;
                                  case root_i of
                                    Inl e \<Rightarrow> Some (Inl e, s5)
                                  | Inr _ \<Rightarrow>
                                      if \<not> make_root_ok env then Some (Inl ENOMEM, s5)
                                      else do {
                                        s6 \<leftarrow> pmfs_recover_truncate_list v s5;
                                        s7 \<leftarrow> (if s_mount_opt (sbi s6) AND PMFS_MOUNT_FORMAT = 0
                                              then pmfs_setup_blocknode_map (bitmaps_ok env) s6 else Some s6);
                                        let s8 = (if s_flags s7 AND MS_RDONLY = 0 then write_mount_time s7 else s7);
                                        Some (Inr (), s8\<lparr>sbi := clear_opt PMFS_MOUNT_MOUNTING (sbi s8)\<rparr>)
                                      }
                                }
                            })"

text \<open>\<open>struct kstatfs\<close>.\<close>

record kstatfs =
  f_type :: u64
  f_bsize :: u64
  f_blocks :: u64
  f_bfree :: u64
  f_bavail :: u64
  f_files :: u64
  f_ffree :: u64
  f_namelen :: u64

definition pmfs_statfs :: "fs \<Rightarrow> kstatfs" where
  "pmfs_statfs s =
     \<lparr>f_type = ucast PMFS_SUPER_MAGIC, f_bsize = s_blocksize s, f_blocks = block_end (sbi s),
      f_bfree = pmfs_count_free_blocks s, f_bavail = pmfs_count_free_blocks s,
      f_files = ucast (s_inodes_count (sbi s)), f_ffree = ucast (s_free_inodes_count (sbi s)),
      f_namelen = of_nat PMFS_NAME_LEN\<rparr>"

definition pmfs_remount :: "u64 \<Rightarrow> mount_opt list \<Rightarrow> fs \<Rightarrow> (errno + unit) \<times> fs" where
  "pmfs_remount mntflags data s =
     (case pmfs_parse_options True data (sbi s) of
        (Inl e, b) \<Rightarrow> (Inl EINVAL, s\<lparr>sbi := b\<lparr>s_mount_opt := s_mount_opt (sbi s)\<rparr>, s_flags := s_flags s\<rparr>)
      | (Inr _, b) \<Rightarrow>
          let s1 = s\<lparr>sbi := b, s_flags := (s_flags s AND NOT MS_POSIXACL)
                 OR (if s_mount_opt b AND PMFS_MOUNT_POSIX_ACL \<noteq> 0 then MS_POSIXACL else 0)\<rparr>
          in (Inr (), if mntflags AND MS_RDONLY \<noteq> s_flags s1 AND MS_RDONLY then write_mount_time s1 else s1))"

text \<open>The nodes of the list are freed one by one.\<close>

definition pmfs_put_super :: "fs \<Rightarrow> fs option" where
  "pmfs_put_super s = do {
     s1 \<leftarrow> pmfs_save_blocknode_mappings s;
     Some (fold (\<lambda>i s. pmfs_free_blocknode s) (block_inuse_head (sbi s1))
             (upd_sbi (\<lambda>b. b\<lparr>block_inuse_head := []\<rparr>) s1)) }"

definition pmfs_nfs_get_inode :: "vfs \<Rightarrow> u64 \<Rightarrow> u32 \<Rightarrow> fs \<Rightarrow> ((errno + vinode) \<times> fs) option" where
  "pmfs_nfs_get_inode v ino generation s =
     (if ino < PMFS_ROOT_INO then Some (Inl ESTALE, s)
      else if drop_bit PMFS_INODE_BITS ino > ucast (s_inodes_count (sbi s)) then Some (Inl ESTALE, s)
      else do {
        r \<leftarrow> pmfs_iget v ino s;
        case r of
          Inl e \<Rightarrow> Some (Inl e, s)
        | Inr inode \<Rightarrow>
            if generation \<noteq> 0 \<and> i_generation inode \<noteq> generation then do {
              s' \<leftarrow> iput inode s; Some (Inl ESTALE, s')
            }
            else Some (Inr inode, s)
      })"

end
