(* ===== verification/Xip.thy ===== *)
theory Xip
  imports Inode
begin

text \<open>
  Reading and writing file data in place (\<open>xip.c\<close>), the other file operations (\<open>file.c\<close>) and \<open>ioctl.c\<close>.
  A user buffer is its list of bytes. Whether a copy to user space succeeds, and how many bytes a copy
  from user space transfers, are parameters, as are the checks of the VFS.
\<close>

abbreviation (input) MAX_PTRS_PER_LENTRY :: u64 where "MAX_PTRS_PER_LENTRY \<equiv> 6"
abbreviation (input) MAX_METABLOCK_LENTRIES :: u64 where "MAX_METABLOCK_LENTRIES \<equiv> 256"

section \<open>Finding or allocating a block\<close>

text \<open>A running transaction is passed on to \<open>pmfs_alloc_blocks\<close>, which uses it for logging only, and that
  does not look at it; so its fields do not matter here.\<close>

definition pmfs_find_and_alloc_blocks ::
  "vinode \<Rightarrow> u64 \<Rightarrow> bool \<Rightarrow> fs \<Rightarrow> ((errno + u64) \<times> vinode \<times> fs) option" where
  "pmfs_find_and_alloc_blocks inode iblock create s = do {
     block \<leftarrow> pmfs_find_data_block inode iblock s;
     if block \<noteq> 0 then Some (Inr block, inode, s)
     else if \<not> create then Some (Inl ENODATA, inode, s)
     else do {
       pi \<leftarrow> pmfs_get_inode s (i_ino inode);
       (err, inode1, s1) \<leftarrow>
         (case pmfs_current_transaction s of
            Some _ \<Rightarrow> pmfs_alloc_blocks None inode iblock 1 True s
          | None \<Rightarrow> do {
              (t, s1) \<leftarrow> pmfs_new_transaction MAX_INODE_LENTRIES s;
              case t of
                Inl e \<Rightarrow> Some (Inl e, inode, s1)
              | Inr tr \<Rightarrow> do {
                  let s2 = snd (pmfs_add_logentry (Some tr) pi 48 0 s1);
                  (err, inode1, s3) \<leftarrow> pmfs_alloc_blocks (Some tr) inode iblock 1 True s2;
                  Some (err, inode1, pmfs_commit_transaction (Some tr) s3)
                }
            });
       case err of
         Inl e \<Rightarrow> Some (Inl e, inode1, s1)
       | Inr _ \<Rightarrow> do {
           block' \<leftarrow> pmfs_find_data_block inode1 iblock s1;
           Some (if block' = 0 then Inl ENODATA else Inr block', inode1, s1)
         }
     } }"

definition raw_pmfs_get_block :: "vinode \<Rightarrow> u64 \<Rightarrow> bool \<Rightarrow> fs \<Rightarrow> ((errno + u64) \<times> vinode \<times> fs) option" where
  "raw_pmfs_get_block inode pgoff create s = pmfs_find_and_alloc_blocks inode pgoff create s"

text \<open>The address of the block; the page frame number it also gives is for the page tables.\<close>

definition pmfs_get_xip_mem :: "vinode \<Rightarrow> u64 \<Rightarrow> bool \<Rightarrow> fs \<Rightarrow> ((errno + nat) \<times> vinode \<times> fs) option" where
  "pmfs_get_xip_mem inode pgoff create s = do {
     (rc, inode', s') \<leftarrow> raw_pmfs_get_block inode pgoff create s;
     Some (case rc of Inl e \<Rightarrow> Inl e | Inr block \<Rightarrow> Inr (pmfs_get_block s' block), inode', s') }"

section \<open>Reading\<close>

text \<open>The loop of \<open>do_xip_mapping_read\<close>. \<open>user_ok c n\<close>: the copy of \<open>n\<close> bytes to offset \<open>c\<close> of the user's buffer
  succeeds. The result is the error (0 or the last one) and the bytes copied.\<close>

partial_function (option) xip_read_loop ::
  "(nat \<Rightarrow> nat \<Rightarrow> bool) \<Rightarrow> vinode \<Rightarrow> u64 \<Rightarrow> u64 \<Rightarrow> nat \<Rightarrow> u64 \<Rightarrow> u64 \<Rightarrow> u8 list \<Rightarrow> fs
     \<Rightarrow> (errno option \<times> u8 list) option" where
  "xip_read_loop user_ok inode isize end_index len index offset out s =
     (let nr0 = (if index = end_index then ((isize - 1) AND 0xFFF) + 1 else 0x1000)
      in if index > end_index then Some (None, out)
         else if index = end_index \<and> nr0 \<le> offset then Some (None, out)
         else let nr1 = unat (nr0 - offset);
                  nr = (if nr1 > len - length out then len - length out else nr1)
              in do {
                   (rc, _, _) \<leftarrow> pmfs_get_xip_mem inode index False s;
                   case rc of
                     Inl e \<Rightarrow>
                       if e \<noteq> ENODATA then Some (Some e, out)
                       else if \<not> user_ok (length out) nr then Some (Some EFAULT, out)
                       else let out' = out @ replicate nr 0; off' = offset + of_nat nr
                            in if length out' < len
                               then xip_read_loop user_ok inode isize end_index len (index + drop_bit PAGE_SHIFT off') (off' AND 0xFFF) out' s
                               else Some (Some ENODATA, out')
                   | Inr xip_mem \<Rightarrow>
                       if \<not> user_ok (length out) nr then Some (Some EFAULT, out)
                       else let out' = out @ bytes_at (mem s) (xip_mem + unat offset) nr; off' = offset + of_nat nr
                            in if length out' < len
                               then xip_read_loop user_ok inode isize end_index len (index + drop_bit PAGE_SHIFT off') (off' AND 0xFFF) out' s
                               else Some (None, out')
                 })"

text \<open>The return value is the number of bytes, or the error when none was copied.\<close>

definition do_xip_mapping_read ::
  "(nat \<Rightarrow> nat \<Rightarrow> bool) \<Rightarrow> vinode \<Rightarrow> nat \<Rightarrow> u64 \<Rightarrow> fs \<Rightarrow> ((errno + nat) \<times> u8 list \<times> u64) option" where
  "do_xip_mapping_read user_ok inode len pos s =
     (let isize = i_size inode
      in if isize = 0 then Some (Inr 0, [], pos)
         else do {
           (err, out) \<leftarrow> xip_read_loop user_ok inode isize (drop_bit PAGE_SHIFT (isize - 1)) len
             (drop_bit PAGE_SHIFT pos) (pos AND 0xFFF) [] s;
           Some (if out \<noteq> [] then Inr (length out) else case err of None \<Rightarrow> Inr 0 | Some e \<Rightarrow> Inl e,
                 out, pos + of_nat (length out))
         })"

definition xip_file_read ::
  "bool \<Rightarrow> (nat \<Rightarrow> nat \<Rightarrow> bool) \<Rightarrow> vinode \<Rightarrow> nat \<Rightarrow> u64 \<Rightarrow> fs \<Rightarrow> ((errno + nat) \<times> u8 list \<times> u64) option" where
  "xip_file_read access_ok user_ok inode len pos s =
     (if \<not> access_ok then Some (Inl EFAULT, [], pos) else do_xip_mapping_read user_ok inode len pos s)"

definition pmfs_xip_file_read ::
  "bool \<Rightarrow> (nat \<Rightarrow> nat \<Rightarrow> bool) \<Rightarrow> vinode \<Rightarrow> nat \<Rightarrow> u64 \<Rightarrow> fs \<Rightarrow> ((errno + nat) \<times> u8 list \<times> u64) option" where
  "pmfs_xip_file_read access_ok user_ok inode len pos s = xip_file_read access_ok user_ok inode len pos s"

section \<open>Writing\<close>

text \<open>\<open>ucopy w n\<close>: how many of \<open>n\<close> bytes at offset \<open>w\<close> of the user's buffer can be read. The result is the number
  copied.\<close>

definition memcpy_to_nvmm :: "(nat \<Rightarrow> nat \<Rightarrow> nat) \<Rightarrow> nat \<Rightarrow> nat \<Rightarrow> u8 list \<Rightarrow> nat \<Rightarrow> nat \<Rightarrow> mem \<Rightarrow> nat \<times> mem" where
  "memcpy_to_nvmm ucopy km offset buf w bytes m =
     (let copied = min (ucopy w bytes) bytes
      in (copied, memput (km + offset) (take copied (drop w buf)) m))"

text \<open>The loop of \<open>__pmfs_xip_file_write\<close> with \<open>written\<close> bytes done: the status when it is left and the
  number written.\<close>

partial_function (option) xip_write_loop ::
  "(nat \<Rightarrow> nat \<Rightarrow> nat) \<Rightarrow> u8 list \<Rightarrow> vinode \<Rightarrow> nat \<Rightarrow> u64 \<Rightarrow> fs \<Rightarrow> (errno option \<times> nat \<times> u64 \<times> vinode \<times> fs) option" where
  "xip_write_loop ucopy buf inode written pos s =
     (let offset = pos AND (s_blocksize s - 1);
          index = drop_bit (s_blocksize_bits s) pos;
          count = length buf - written;
          bytes = (if unat (s_blocksize s - offset) > count then count else unat (s_blocksize s - offset))
      in do {
           (st, inode1, s1) \<leftarrow> pmfs_get_xip_mem inode index True s;
           case st of
             Inl e \<Rightarrow> Some (Some e, written, pos, inode1, s1)
           | Inr xmem \<Rightarrow>
               let (copied, m) = memcpy_to_nvmm ucopy xmem (unat offset) buf written bytes (mem s1);
                   s2 = s1\<lparr>mem := m\<rparr>; written' = written + copied; pos' = pos + of_nat copied
               in if copied \<noteq> bytes then Some (Some EFAULT, written', pos', inode1, s2)
                  else if written' < length buf then xip_write_loop ucopy buf inode1 written' pos' s2
                  else Some (None, written', pos', inode1, s2)
         })"

text \<open>The results of a write: the return value, the new position, the inode and the state.\<close>

definition raw_pmfs_xip_file_write ::
  "(nat \<Rightarrow> nat \<Rightarrow> nat) \<Rightarrow> u8 list \<Rightarrow> vinode \<Rightarrow> u64 \<Rightarrow> fs \<Rightarrow> ((errno + nat) \<times> u64 \<times> vinode \<times> fs) option" where
  "raw_pmfs_xip_file_write ucopy buf inode pos s = do {
     pi \<leftarrow> pmfs_get_inode s (i_ino inode);
     (st, written, pos', inode1, s1) \<leftarrow> xip_write_loop ucopy buf inode 0 pos s;
     let r = (if written \<noteq> 0 then Inr written else case st of Some e \<Rightarrow> Inl e | None \<Rightarrow> Inr 0);
     if pos' > i_size inode1 then
       let inode2 = inode1\<lparr>i_size := pos'\<rparr>
       in if pi = 0 then None else Some (r, pos', inode2, upd_mem (pmfs_update_isize inode2 pi) s1)
     else Some (r, pos', inode1, s1) }"

definition pmfs_update_time_and_size :: "vinode \<Rightarrow> nat \<Rightarrow> mem \<Rightarrow> mem" where
  "pmfs_update_time_and_size inode pi m =
     wr32 (pi + 28) (i_mtime inode) (wr32 (pi + 24) (i_ctime inode) (wr64 (pi + 16) (i_size inode) m))"

definition pmfs_file_write_fast ::
  "(nat \<Rightarrow> nat \<Rightarrow> nat) \<Rightarrow> u8 list \<Rightarrow> vinode \<Rightarrow> nat \<Rightarrow> u64 \<Rightarrow> u64 \<Rightarrow> fs \<Rightarrow> ((errno + nat) \<times> u64 \<times> vinode \<times> fs) option" where
  "pmfs_file_write_fast ucopy buf inode pi pos block s =
     (let xmem = pmfs_get_block s block;
          offset = pos AND (s_blocksize s - 1);
          (copied, m) = memcpy_to_nvmm ucopy xmem (unat offset) buf 0 (length buf) (mem s);
          s1 = s\<lparr>mem := m\<rparr>;
          pos' = pos + of_nat copied;
          r = (if copied \<noteq> length buf \<and> copied = 0 then Inl EFAULT else Inr copied);
          inode1 = inode\<lparr>i_ctime := now s, i_mtime := now s\<rparr>
      in if xmem = 0 \<or> pi = 0 then None
         else if pos' > i_size inode1 then
           let inode2 = inode1\<lparr>i_size := pos'\<rparr>
           in Some (r, pos', inode2, upd_mem (pmfs_update_time_and_size inode2 pi) s1)
         else let t = ucast (i_ctime inode1) :: u64
              in Some (r, pos', inode1, upd_mem (wr64 (pi + 24) (t OR push_bit 32 t)) s1))"

text \<open>\<open>memset_nt\<close> stores 64, 8 and 4 bytes at a time: a remainder below 4 bytes is left as it is.\<close>

definition memset_nt :: "nat \<Rightarrow> nat \<Rightarrow> mem \<Rightarrow> mem" where
  "memset_nt dest len m = memset dest 0 (len div 4 * 4) m"

definition pmfs_clear_edge_blk :: "nat \<Rightarrow> bool \<Rightarrow> u64 \<Rightarrow> nat \<Rightarrow> bool \<Rightarrow> fs \<Rightarrow> fs option" where
  "pmfs_clear_edge_blk pi new_blk block blk_off is_end_blk s =
     (if \<not> new_blk then Some s
      else let blknr = drop_bit (pmfs_inode_blk_shift s pi - s_blocksize_bits s) block
           in do {
                bp \<leftarrow> raw_pmfs_find_data_block s pi blknr;
                let ptr = pmfs_get_block s bp;
                if ptr = 0 then Some s
                else if is_end_blk then
                  Some (upd_mem (memset_nt (ptr + blk_off - blk_off mod 8)
                    (unat (pmfs_inode_blk_size s pi) - blk_off + blk_off mod 8)) s)
                else Some (upd_mem (memset_nt ptr (blk_off + (8 - blk_off mod 8))) s)
              })"

text \<open>\<open>remove_privs\<close> is the result of \<open>file_remove_privs\<close>.\<close>

definition pmfs_xip_file_write ::
  "bool \<Rightarrow> (errno + unit) \<Rightarrow> (nat \<Rightarrow> nat \<Rightarrow> nat) \<Rightarrow> u8 list \<Rightarrow> vinode \<Rightarrow> u64 \<Rightarrow> fs
     \<Rightarrow> ((errno + nat) \<times> u64 \<times> vinode \<times> fs) option" where
  "pmfs_xip_file_write access_ok remove_privs ucopy buf inode pos s =
     (if \<not> access_ok then Some (Inl EFAULT, pos, inode, s)
      else if buf = [] then Some (Inr 0, pos, inode, s)
      else do {
        pi \<leftarrow> pmfs_get_inode s (i_ino inode);
        if pi = 0 then None
        else do {
          let count = (of_nat (length buf) :: u64);
          let num_blocks = drop_bit (s_blocksize_bits s) (count + (pos AND (s_blocksize s - 1)) - 1) + 1;
          let bsize = (ucast (pmfs_inode_blk_size s pi) :: u64);
          let offset = pos AND (bsize - 1);
          let start_blk = drop_bit (s_blocksize_bits s) pos;
          let end_blk = start_blk + num_blocks - 1;
          block \<leftarrow> pmfs_find_data_block inode start_blk s;
          let same_block = (drop_bit (pmfs_inode_blk_shift s pi) (count + offset - 1) = 0);
          if block \<noteq> 0 \<and> same_block then pmfs_file_write_fast ucopy buf inode pi pos block s
          else do {
            let max_logentries = (let n = num_blocks div MAX_PTRS_PER_LENTRY + 2
                                  in if n > MAX_METABLOCK_LENTRIES then MAX_METABLOCK_LENTRIES else n);
            (t, s1) \<leftarrow> pmfs_new_transaction (MAX_INODE_LENTRIES + ucast max_logentries) s;
            case t of
              Inl e \<Rightarrow> Some (Inl e, pos, inode, s1)
            | Inr tr \<Rightarrow> do {
                let s2 = snd (pmfs_add_logentry (Some tr) pi 48 0 s1);
                if remove_privs \<noteq> Inr () then do {
                  s3 \<leftarrow> pmfs_abort_transaction (Some tr) s2;
                  Some (case remove_privs of Inl e \<Rightarrow> Inl e | Inr _ \<Rightarrow> Inr 0, pos, inode, s3)
                }
                else do {
                  let inode1 = inode\<lparr>i_ctime := now s2, i_mtime := now s2\<rparr>;
                  let s3 = upd_mem (pmfs_update_time inode1 pi) s2;
                  b1 \<leftarrow> pmfs_find_data_block inode1 start_blk s3;
                  let new_sblk = (offset \<noteq> 0 \<and> b1 = 0);
                  let eblk_offset = (pos + count) AND (bsize - 1);
                  b2 \<leftarrow> (if eblk_offset \<noteq> 0 then pmfs_find_data_block inode1 end_blk s3 else Some 1);
                  let new_eblk = (eblk_offset \<noteq> 0 \<and> b2 = 0);
                  (_, inode2, s4) \<leftarrow> pmfs_alloc_blocks (Some tr) inode1 start_blk (ucast num_blocks) False s3;
                  s5 \<leftarrow> pmfs_clear_edge_blk pi new_sblk start_blk (unat offset) False s4;
                  s6 \<leftarrow> pmfs_clear_edge_blk pi new_eblk end_blk (unat eblk_offset) True s5;
                  (r, pos', inode3, s7) \<leftarrow> raw_pmfs_xip_file_write ucopy buf inode2 pos s6;
                  Some (r, pos', inode3, pmfs_commit_transaction (Some tr) s7)
                }
              }
          }
        }
      })"

section \<open>Faults and direct I/O\<close>

datatype fault_result = VM_FAULT_SIGBUS | VM_FAULT_NOPAGE

text \<open>\<open>insert_err\<close> is the outcome of \<open>vm_insert_mixed\<close>: \<open>None\<close> for success, else the error.\<close>

definition raw_pmfs_xip_file_fault ::
  "errno option \<Rightarrow> vinode \<Rightarrow> u64 \<Rightarrow> fs \<Rightarrow> (fault_result \<times> vinode \<times> fs) option" where
  "raw_pmfs_xip_file_fault insert_err inode pgoff s =
     (let npages = drop_bit PAGE_SHIFT (i_size inode + 0x1000 - 1)
      in if pgoff \<ge> npages then Some (VM_FAULT_SIGBUS, inode, s)
         else do {
           (rc, inode', s') \<leftarrow> pmfs_get_xip_mem inode pgoff True s;
           case rc of
             Inl e \<Rightarrow> Some (VM_FAULT_SIGBUS, inode', s')
           | Inr _ \<Rightarrow>
               if insert_err = Some ENOMEM then Some (VM_FAULT_SIGBUS, inode', s')
               else if insert_err \<noteq> None \<and> insert_err \<noteq> Some EBUSY then None
               else Some (VM_FAULT_NOPAGE, inode', s')
         })"

text \<open>The segments of a direct read or write, in order. A segment is the user's buffer: for a read only
  its length counts.\<close>

fun direct_io_loop ::
  "bool \<Rightarrow> (nat \<Rightarrow> nat \<Rightarrow> bool) \<Rightarrow> (nat \<Rightarrow> nat \<Rightarrow> nat) \<Rightarrow> (errno + unit) \<Rightarrow> u8 list list \<Rightarrow> nat \<Rightarrow> u64 \<Rightarrow> vinode \<Rightarrow> fs
     \<Rightarrow> ((errno + nat) \<times> u64 \<times> vinode \<times> fs) option" where
  "direct_io_loop write user_ok ucopy privs [] total_n pos inode s = Some (Inr total_n, pos, inode, s)"
| "direct_io_loop write user_ok ucopy privs (seg # segs) total_n pos inode s = do {
     (r, pos', inode', s') \<leftarrow>
       (if write then pmfs_xip_file_write True privs ucopy seg inode pos s
        else do {
          (r, _, pos') \<leftarrow> pmfs_xip_file_read True user_ok inode (length seg) pos s;
          Some (r, pos', inode, s)
        });
     case r of
       Inl e \<Rightarrow> Some (Inl e, pos', inode', s')
     | Inr n \<Rightarrow> direct_io_loop write user_ok ucopy privs segs (total_n + n) pos' inode' s' }"

definition pmfs_direct_IO ::
  "bool \<Rightarrow> (nat \<Rightarrow> nat \<Rightarrow> bool) \<Rightarrow> (nat \<Rightarrow> nat \<Rightarrow> nat) \<Rightarrow> (errno + unit) \<Rightarrow> u8 list list \<Rightarrow> u64 \<Rightarrow> vinode \<Rightarrow> fs
     \<Rightarrow> ((errno + nat) \<times> u64 \<times> vinode \<times> fs) option" where
  "pmfs_direct_IO write user_ok ucopy privs iov pos inode s =
     (let end_pos = foldl (\<lambda>e seg. e + of_nat (length seg)) pos iov
      in if write \<and> end_pos > i_size inode then Some (Inl EINVAL, pos, inode, s)
         else direct_io_loop write user_ok ucopy privs iov 0 pos inode s)"

end
