(* ===== verification/File_Ops.thy ===== *)
theory File_Ops
  imports Xip
begin

text \<open>
  The file operations of \<open>file.c\<close> other than reading and writing (\<open>pmfs_fallocate\<close>, \<open>pmfs_llseek\<close>, \<open>pmfs_fsync\<close>,
  \<open>pmfs_flush\<close>) and \<open>pmfs_ioctl\<close>. The answers of the VFS and of user space are parameters.
\<close>

section \<open>Space reservation\<close>

abbreviation (input) FALLOC_FL_KEEP_SIZE :: u32 where "FALLOC_FL_KEEP_SIZE \<equiv> 1"

definition pmfs_fallocate ::
  "(vinode \<Rightarrow> u64 \<Rightarrow> errno + unit) \<Rightarrow> vinode \<Rightarrow> u32 \<Rightarrow> u64 \<Rightarrow> u64 \<Rightarrow> fs \<Rightarrow> ((errno + unit) \<times> vinode \<times> fs) option" where
  "pmfs_fallocate inode_newsize_ok inode mode' offset len s =
     (if mode' AND NOT FALLOC_FL_KEEP_SIZE \<noteq> 0 then Some (Inl EOPNOTSUPP, inode, s)
      else if S_ISDIR (i_mode inode) then Some (Inl ENODEV, inode, s)
      else
        let new_size = len + offset;
            keep = (mode' AND FALLOC_FL_KEEP_SIZE \<noteq> 0);
            ok = (if \<not> keep \<and> new_size > i_size inode then inode_newsize_ok inode new_size else Inr ())
        in case ok of
             Inl e \<Rightarrow> Some (Inl e, inode, s)
           | Inr _ \<Rightarrow> do {
               pi \<leftarrow> pmfs_get_inode s (i_ino inode);
               if pi = 0 then Some (Inl EACCES, inode, s)
               else do {
                 (t, s1) \<leftarrow> pmfs_new_transaction (MAX_INODE_LENTRIES + ucast MAX_METABLOCK_LENTRIES) s;
                 case t of
                   Inl e \<Rightarrow> Some (Inl e, inode, s1)
                 | Inr tr \<Rightarrow> do {
                     let s2 = snd (pmfs_add_logentry (Some tr) pi 48 0 s1);
                     let s3 = pmfs_set_blocksize_hint pi new_size s2;
                     let mask' = s_blocksize s3 - 1;
                     let blocknr = drop_bit (s_blocksize_bits s3) offset;
                     let blockoff = offset AND mask';
                     let num_blocks = (ucast (drop_bit (s_blocksize_bits s3) (blockoff + len + mask')) :: u32);
                     (ret, inode1, s4) \<leftarrow> pmfs_alloc_blocks (Some tr) inode blocknr num_blocks True s3;
                     let inode2 = inode1\<lparr>i_mtime := now s4, i_ctime := now s4\<rparr>;
                     let s5 = (if ret \<noteq> Inr () \<or> keep
                               then upd_mem (\<lambda>m. wr32 (pi + 4) (pi_flags (rd_inode m pi) OR PMFS_EOFBLOCKS_FL) m) s4 else s4);
                     let grow = (\<not> keep \<and> new_size > i_size inode2);
                     let inode3 = (if grow then inode2\<lparr>i_size := new_size\<rparr> else inode2);
                     let s6 = (if grow then upd_mem (wr64 (pi + 16) new_size) s5 else s5);
                     let s7 = upd_mem (\<lambda>m. wr32 (pi + 24) (i_ctime inode3) (wr32 (pi + 28) (i_mtime inode3) m)) s6;
                     Some (ret, inode3, pmfs_commit_transaction (Some tr) s7)
                   }
               }
             })"

section \<open>Seeking data and holes\<close>

datatype seek_origin = SEEK_DATA | SEEK_HOLE | SEEK_OTHER

text \<open>The value is the return value of the call and the new file position. \<open>generic\<close> is \<open>generic_file_llseek\<close>. The
  result of \<open>pmfs_find_region\<close> is kept in an \<open>int\<close>, so only its low 32 bits count.\<close>

definition pmfs_llseek ::
  "(u64 \<Rightarrow> (errno + u64) \<times> u64) \<Rightarrow> bool \<Rightarrow> u64 \<Rightarrow> vinode \<Rightarrow> u64 \<Rightarrow> u64 \<Rightarrow> seek_origin \<Rightarrow> fs \<Rightarrow> ((errno + u64) \<times> u64) option" where
  "pmfs_llseek generic unsigned_offset s_maxbytes inode f_pos offset origin s =
     (if origin = SEEK_OTHER then Some (generic offset)
      else do {
        (rv, offset') \<leftarrow> pmfs_find_region inode offset (origin = SEEK_HOLE) s;
        case rv of
          Inl e \<Rightarrow> Some (Inl e, f_pos)
        | Inr r \<Rightarrow>
            let retval = (ucast r :: u32)
            in if retval \<noteq> 0 then Some (Inr (scast retval), f_pos)
               else if (sint offset' < 0 \<and> \<not> unsigned_offset) \<or> sint offset' > sint s_maxbytes then Some (Inl EINVAL, f_pos)
               else Some (Inr offset', offset')
      })"

section \<open>Flushing\<close>

text \<open>The ranges (address and length) that \<open>pmfs_fsync\<close> hands to \<open>pmfs_flush_buffer\<close> are collected in a list.
  The loop ends at the first hole.\<close>

partial_function (option) fsync_loop ::
  "vinode \<Rightarrow> u64 \<Rightarrow> u64 \<Rightarrow> (nat \<times> u64) list \<Rightarrow> fs \<Rightarrow> (nat \<times> u64) list option" where
  "fsync_loop inode start end_pos fl s =
     (let pgoff = drop_bit PAGE_SHIFT start; offset = start AND 0xFFF;
          nr = (if 0x1000 - offset > end_pos - start then end_pos - start else 0x1000 - offset)
      in do {
           block \<leftarrow> pmfs_find_data_block inode pgoff s;
           if block = 0 then Some fl
           else let fl' = fl @ [(pmfs_get_block s block + unat offset, nr)]; start' = start + nr
                in if start' < end_pos then fsync_loop inode start' end_pos fl' s else Some fl'
         })"

definition pmfs_fsync :: "bool \<Rightarrow> vinode \<Rightarrow> u64 \<Rightarrow> u64 \<Rightarrow> fs \<Rightarrow> ((errno + unit) \<times> (nat \<times> u64) list) option" where
  "pmfs_fsync mapped inode start end_incl s =
     (if \<not> mapped then Some (Inr (), [])
      else
        let isize = i_size inode;
            end1 = (if end_incl + 1 > isize then isize else end_incl + 1)
        in if isize = 0 \<or> sint start \<ge> sint end1 then Some (Inl ENODATA, [])
           else do {
             fl \<leftarrow> fsync_loop inode (start AND NOT 0x3F) ((end1 + 0x3F) AND NOT 0x3F) [] s;
             Some (Inr (), fl)
           })"

text \<open>\<open>pmfs_flush\<close> only fences, so it has no effect on the state.\<close>

definition pmfs_flush :: "bool \<Rightarrow> fs \<Rightarrow> (errno + unit) \<times> fs" where
  "pmfs_flush opened_for_write s = (Inr (), s)"

section \<open>ioctl\<close>

abbreviation (input) FS_FL_USER_VISIBLE :: u32 where "FS_FL_USER_VISIBLE \<equiv> 0x0003DFFF"
abbreviation (input) FS_FL_USER_MODIFIABLE :: u32 where "FS_FL_USER_MODIFIABLE \<equiv> 0x000380FF"
abbreviation (input) PMFS_FL_USER_VISIBLE :: u32 where "PMFS_FL_USER_VISIBLE \<equiv> FS_FL_USER_VISIBLE OR PMFS_EOFBLOCKS_FL"

text \<open>A command with what \<open>get_user\<close> or \<open>copy_from_user\<close> read for it (\<open>None\<close>: the access failed).\<close>

datatype ioctl_cmd =
    FS_IOC_GETFLAGS | FS_IOC_SETFLAGS "u32 option" | FS_IOC_GETVERSION | FS_IOC_SETVERSION "u32 option"
  | FS_PMFS_FSYNC u64 u64 | PMFS_PRINT_TIMING | PMFS_CLEAR_STATS | OTHER_CMD

record ioctl_env =
  put_user_ok :: bool
  mnt_want_write_file :: "errno + unit"
  inode_owner_or_capable :: bool
  capable_linux_immutable :: bool
  mapping_mapped :: bool

definition ioctl_setflags :: "ioctl_env \<Rightarrow> nat \<Rightarrow> vinode \<Rightarrow> u32 option \<Rightarrow> fs \<Rightarrow> ((errno + u32) \<times> vinode \<times> fs) option" where
  "ioctl_setflags env pi inode arg s =
     (case mnt_want_write_file env of
        Inl e \<Rightarrow> Some (Inl e, inode, s)
      | Inr _ \<Rightarrow>
          if \<not> inode_owner_or_capable env then Some (Inl EPERM, inode, s)
          else (case arg of
            None \<Rightarrow> Some (Inl EFAULT, inode, s)
          | Some flags \<Rightarrow>
              let oldflags = pi_flags (rd_inode (mem s) pi)
              in if (flags XOR oldflags) AND (FS_APPEND_FL OR FS_IMMUTABLE_FL) \<noteq> 0 \<and> \<not> capable_linux_immutable env
                 then Some (Inl EPERM, inode, s)
                 else
                   let f1 = (if S_ISDIR (i_mode inode) then flags else flags AND NOT FS_DIRSYNC_FL);
                       f2 = (f1 AND FS_FL_USER_MODIFIABLE) OR (oldflags AND NOT FS_FL_USER_MODIFIABLE);
                       inode1 = inode\<lparr>i_ctime := now s\<rparr>
                   in do {
                        (t, s1) \<leftarrow> pmfs_new_transaction MAX_INODE_LENTRIES s;
                        case t of
                          Inl e \<Rightarrow> Some (Inl e, inode1, s1)
                        | Inr tr \<Rightarrow> do {
                            let s2 = snd (pmfs_add_logentry (Some tr) pi 48 0 s1);
                            let s3 = upd_mem (\<lambda>m. wr32 (pi + 24) (i_ctime inode1) (wr32 (pi + 4) f2 m)) s2;
                            let inode2 = pmfs_set_inode_flags inode1 pi (mem s3);
                            Some (Inr 0, inode2, pmfs_commit_transaction (Some tr) s3)
                          }
                      }))"

definition ioctl_setversion :: "ioctl_env \<Rightarrow> nat \<Rightarrow> vinode \<Rightarrow> u32 option \<Rightarrow> fs \<Rightarrow> ((errno + u32) \<times> vinode \<times> fs) option" where
  "ioctl_setversion env pi inode arg s =
     (if \<not> inode_owner_or_capable env then Some (Inl EPERM, inode, s)
      else case mnt_want_write_file env of
        Inl e \<Rightarrow> Some (Inl e, inode, s)
      | Inr _ \<Rightarrow>
          (case arg of
            None \<Rightarrow> Some (Inl EFAULT, inode, s)
          | Some gen \<Rightarrow> do {
              (t, s1) \<leftarrow> pmfs_new_transaction MAX_INODE_LENTRIES s;
              case t of
                Inl e \<Rightarrow> Some (Inl e, inode, s1)
              | Inr tr \<Rightarrow> do {
                  let s2 = snd (pmfs_add_logentry (Some tr) pi 80 0 s1);
                  let inode1 = inode\<lparr>i_ctime := now s2, i_generation := gen\<rparr>;
                  let s3 = upd_mem (\<lambda>m. wr32 (pi + 56) gen (wr32 (pi + 24) (i_ctime inode1) m)) s2;
                  Some (Inr 0, inode1, pmfs_commit_transaction (Some tr) s3)
                }
            }))"

definition pmfs_ioctl :: "ioctl_env \<Rightarrow> vinode \<Rightarrow> ioctl_cmd \<Rightarrow> fs \<Rightarrow> ((errno + u32) \<times> vinode \<times> fs) option" where
  "pmfs_ioctl env inode cmd s = do {
     pi \<leftarrow> pmfs_get_inode s (i_ino inode);
     if pi = 0 then Some (Inl EACCES, inode, s)
     else case cmd of
       FS_IOC_GETFLAGS \<Rightarrow>
         Some (if put_user_ok env then Inr (pi_flags (rd_inode (mem s) pi) AND PMFS_FL_USER_VISIBLE) else Inl EFAULT, inode, s)
     | FS_IOC_SETFLAGS arg \<Rightarrow> ioctl_setflags env pi inode arg s
     | FS_IOC_GETVERSION \<Rightarrow> Some (if put_user_ok env then Inr (i_generation inode) else Inl EFAULT, inode, s)
     | FS_IOC_SETVERSION arg \<Rightarrow> ioctl_setversion env pi inode arg s
     | FS_PMFS_FSYNC off len \<Rightarrow> do {
         _ \<leftarrow> pmfs_fsync (mapping_mapped env) inode off (off + len) s;
         Some (Inr 0, inode, s)
       }
     | PMFS_PRINT_TIMING \<Rightarrow> Some (Inr 0, inode, s)
     | PMFS_CLEAR_STATS \<Rightarrow> Some (Inr 0, inode, s)
     | OTHER_CMD \<Rightarrow> Some (Inl ENOTTY, inode, s) }"

end
