(* ===== verification/Sync_Meta.thy ===== *)
theory Sync_Meta
  imports Namei Xip
begin

text \<open>
  The user-level extension of \<open>sync_meta.c\<close>: a library in user space keeps a log of metadata changes in a
  file, and the calls of this file apply that log to the inodes and directories (\<open>syscall_sync_inodelog\<close>), hand out
  ranges of device blocks and inode numbers (\<open>alloc_addr_info\<close>), and read inodes and directory entries.
  The system call table they are installed in is not modelled; the log file is given by its inode.

  Several functions return a local variable that some paths never assign. Such an indeterminate result is
  \<open>None\<close> of type \<open>retval\<close>; where the code branches on one, the outcome of the whole call is undefined, which is
  the outer \<open>None\<close>.
\<close>

type_synonym retval = "(errno + unit) option"

section \<open>Log entries\<close>

datatype nova_entry_type = PADDING | FILE_WRITE | DIR_LOG | SET_ATTR | LINK_CHANGE

definition entry_type_of :: "u8 \<Rightarrow> nova_entry_type option" where
  "entry_type_of t =
     (if t = 0 then Some PADDING else if t = 1 then Some FILE_WRITE else if t = 2 then Some DIR_LOG
      else if t = 3 then Some SET_ATTR else if t = 4 then Some LINK_CHANGE else None)"

record kernelfs_extent =
  ext_ino :: u32
  entry_type :: u8
  device_id :: u8
  blkoff_hi :: u8
  isappend :: u8
  ext_mtime :: u32
  ext_block :: u32
  ext_len :: u16
  ext_start_hi :: u16
  ext_start_lo :: u32
  ext_size :: u32
  blkoff_lo :: u32

definition rd_extent :: "mem \<Rightarrow> nat \<Rightarrow> kernelfs_extent" where
  "rd_extent m a =
     \<lparr> ext_ino = rd32 m a, entry_type = rd8 m (a + 4), device_id = rd8 m (a + 5), blkoff_hi = rd8 m (a + 6),
       isappend = rd8 m (a + 7), ext_mtime = rd32 m (a + 8), ext_block = rd32 m (a + 12), ext_len = rd16 m (a + 16),
       ext_start_hi = rd16 m (a + 18), ext_start_lo = rd32 m (a + 20), ext_size = rd32 m (a + 24),
       blkoff_lo = rd32 m (a + 28) \<rparr>"

record kernelfs_dentry =
  kd_ino :: u32
  kd_file_type :: u8
  kd_addordel :: u8
  kd_mtime :: u32
  kd_invalid :: u8
  kd_fino :: u64
  kd_name :: "u8 list"

text \<open>The name as the code copies it: \<open>name_len\<close> bytes from the start of \<open>name\<close>.\<close>

definition rd_kdentry :: "mem \<Rightarrow> nat \<Rightarrow> kernelfs_dentry" where
  "rd_kdentry m a =
     \<lparr> kd_ino = rd32 m a, kd_file_type = rd8 m (a + 6), kd_addordel = rd8 m (a + 7), kd_mtime = rd32 m (a + 8),
       kd_invalid = rd8 m (a + 12), kd_fino = rd64 m (a + 16), kd_name = bytes_at m (a + 32) (unat (rd8 m (a + 5))) \<rparr>"

record setattr_entry =
  sa_mode :: u16
  sa_mtime :: u32
  sa_isdel :: u16
  sa_ctime :: u32
  sa_uid :: u32
  sa_gid :: u32
  sa_size :: u32

definition rd_setattr :: "mem \<Rightarrow> nat \<Rightarrow> setattr_entry" where
  "rd_setattr m a =
     \<lparr> sa_mode = rd16 m (a + 6), sa_mtime = rd32 m (a + 8), sa_isdel = rd16 m (a + 12), sa_ctime = rd32 m (a + 16),
       sa_uid = rd32 m (a + 20), sa_gid = rd32 m (a + 24), sa_size = rd32 m (a + 28) \<rparr>"

record link_change_entry =
  lc_links :: u16
  lc_flags :: u32
  lc_generation :: u32

definition rd_link_change :: "mem \<Rightarrow> nat \<Rightarrow> link_change_entry" where
  "rd_link_change m a =
     \<lparr> lc_links = rd16 m (a + 6), lc_flags = rd32 m (a + 16), lc_generation = rd32 m (a + 20) \<rparr>"

record kernelfs_addr_info =
  nvm_block_addr :: u64
  ssd1_block_addr :: u64
  ssd2_block_addr :: u64
  ssd3_block_addr :: u64
  ai_u_free_inode_base :: u64

definition rd_addr_info :: "mem \<Rightarrow> nat \<Rightarrow> kernelfs_addr_info" where
  "rd_addr_info m a =
     \<lparr> nvm_block_addr = rd64 m a, ssd1_block_addr = rd64 m (a + 8), ssd2_block_addr = rd64 m (a + 16),
       ssd3_block_addr = rd64 m (a + 24), ai_u_free_inode_base = rd64 m (a + 32) \<rparr>"

section \<open>Handing out addresses\<close>

text \<open>The loop grows the inode table until it has enough free inodes; it ignores errors.\<close>

partial_function (option) grow_table_loop :: "u32 \<Rightarrow> fs \<Rightarrow> fs option" where
  "grow_table_loop num s =
     (if s_free_inodes_count (sbi s) < num
      then do { (_, s') \<leftarrow> pmfs_increase_inode_table_size s; grow_table_loop num s' }
      else Some s)"

definition alloc_addr_info :: "u32 \<Rightarrow> fs \<Rightarrow> (u64 \<times> kernelfs_addr_info \<times> fs) option" where
  "alloc_addr_info num s = do {
     let ps = pmfs_get_super s;
     let s1 = (if rd64 (mem s) (ps + 96) = 0 then upd_mem (wr64 (ps + 96) (1024 * 1024)) s else s);
     s3 \<leftarrow> (if rd64 (mem s1) (ps + 128) = 0 then do {
              s2 \<leftarrow> grow_table_loop num s1;
              Some (upd_mem (wr64 (ps + 128) (ucast (push_bit PMFS_INODE_BITS (s_free_inode_hint (sbi s2)))))
                (upd_sbi (\<lambda>b. b\<lparr>s_free_inode_hint := num + 1\<rparr>) s2))
            }
            else Some s1);
     let sb = rd_super (mem s3) ps;
     let info = \<lparr> nvm_block_addr = free_nvm_blockaddr sb, ssd1_block_addr = free_ssd1_blockaddr sb,
                  ssd2_block_addr = free_ssd2_blockaddr sb, ssd3_block_addr = free_ssd3_blockaddr sb,
                  ai_u_free_inode_base = u_free_inode_base sb \<rparr>;
     Some (u_free_inode_base sb + 100, info,
       upd_mem (\<lambda>m. wr64 (ps + 128) (u_free_inode_base sb + 100) (wr64 (ps + 120) (free_ssd3_blockaddr sb + 1048576)
         (wr64 (ps + 112) (free_ssd2_blockaddr sb + 1048576) (wr64 (ps + 104) (free_ssd1_blockaddr sb + 1048576)
           (wr64 (ps + 96) (free_nvm_blockaddr sb + 524288) m))))) s3) }"

text \<open>The fields of \<open>struct tmpinode\<close> that \<open>fetch_inode_ino\<close> sets.\<close>

record tmpinode =
  t_height :: u8
  t_root :: u64
  t_size :: u64
  t_mode :: u16
  t_flags :: u32
  t_nlink :: u32
  t_atime :: u32
  t_mtime :: u32
  t_ctime :: u32
  t_blocks :: u64
  t_blk_type :: u8
  t_nvmblock :: u32
  t_blkoff :: u64

definition fetch_inode_ino :: "u64 \<Rightarrow> fs \<Rightarrow> (u64 \<times> tmpinode) option" where
  "fetch_inode_ino ino s = do {
     pi \<leftarrow> pmfs_fetch_inode s ino;
     if pi = 0 then None
     else let p = rd_inode (mem s) pi
          in Some (ino, \<lparr> t_height = pi_height p, t_root = pi_root p, t_size = pi_size p, t_mode = pi_mode p,
                         t_flags = pi_flags p, t_nlink = ucast (pi_links_count p), t_atime = pi_atime p,
                         t_mtime = pi_mtime p, t_ctime = pi_ctime p, t_blocks = pi_blocks p,
                         t_blk_type = pi_blk_type p, t_nvmblock = pi_nvmblock p, t_blkoff = pi_blkoff p \<rparr>) }"

section \<open>Indexing extents\<close>

text \<open>The stores of an extent into a leaf table: the entries \<open>js\<close> of \<open>node\<close> get the block \<open>addr j\<close>.\<close>

definition fill_leaf :: "nat \<Rightarrow> (nat \<Rightarrow> u64) \<Rightarrow> nat list \<Rightarrow> mem \<Rightarrow> mem" where
  "fill_leaf node addr js m = fold (\<lambda>j m. if rd64 m (node + 8 * j) \<noteq> addr j then wr64 (node + 8 * j) (addr j) m else m) js m"

definition add_nvmblock :: "nat \<Rightarrow> u32 \<Rightarrow> mem \<Rightarrow> mem" where
  "add_nvmblock pi n m = wr32 (pi + 68) (rd32 m (pi + 68) + n) m"

abbreviation (input) devid_of :: "u64 \<Rightarrow> u64" where "devid_of b \<equiv> drop_bit 62 b"

text \<open>An iteration at the level above the leaf tables. Loop state: \<open>errval\<close> and the file system; the flag says
  that the loop is left (\<open>goto fail\<close>).\<close>

definition index_leaf ::
  "nat \<Rightarrow> nat \<Rightarrow> u64 \<Rightarrow> u32 \<Rightarrow> u16 \<Rightarrow> nat \<Rightarrow> retval \<times> fs \<Rightarrow> ((retval \<times> fs) \<times> bool) option" where
  "index_leaf pi node blocknr eblock elen i = (\<lambda>(err, s).
     let p = rd64 (mem s) (node + 8 * i)
     in if devid_of blocknr = 0 \<or> (p \<noteq> 0 \<and> devid_of p = 0) then do {
          (err1, s1) \<leftarrow>
            (if p = 0 then do {
               (b, s1) \<leftarrow> pmfs_new_block PMFS_BLOCK_TYPE_4K True s;
               case b of
                 Inl e \<Rightarrow> Some (Some (Inl e), s1)
               | Inr blockn \<Rightarrow> Some (Some (Inr ()), upd_mem (wr64 (node + 8 * i) (pmfs_get_block_off blockn)) s1)
             }
             else Some (err, s));
          if p = 0 \<and> err1 \<noteq> Some (Inr ()) then Some ((err1, s1), True)
          else
            let leafnode = pmfs_get_block s1 (rd64 (mem s1) (node + 8 * i));
                findex = unat (eblock AND 0x1FF);
                lindex = findex + unat elen;
                s2 = upd_mem (fill_leaf leafnode (\<lambda>j. blocknr + push_bit PAGE_SHIFT (of_nat j)) [findex..<lindex]) s1;
                s3 = (if devid_of blocknr = 0 then upd_mem (add_nvmblock pi (of_nat (lindex - findex + 1))) s2 else s2)
            in if leafnode = 0 then None else Some ((err1, s3), False)
        }
        else if p = 0 then Some ((err, upd_mem (wr64 (node + 8 * i) blocknr) s), False)
        else if p = blocknr AND NOT (mask 21) then Some ((err, s), False)
        else Some ((err, s), True))"

definition index_inner ::
  "(u64 \<Rightarrow> u64 \<Rightarrow> u64 \<Rightarrow> fs \<Rightarrow> (retval \<times> fs) option) \<Rightarrow> nat \<Rightarrow> u64 \<Rightarrow> u64 \<Rightarrow> nat \<Rightarrow> nat \<Rightarrow> retval \<times> fs
     \<Rightarrow> ((retval \<times> fs) \<times> bool) option" where
  "index_inner rec h lo hi node i = (\<lambda>(err, s). do {
     (err1, s1) \<leftarrow>
       (if rd64 (mem s) (node + 8 * i) = 0 then do {
          (b, s1) \<leftarrow> pmfs_new_block PMFS_BLOCK_TYPE_4K True s;
          case b of
            Inl e \<Rightarrow> Some (Inl e, s1)
          | Inr blockn \<Rightarrow> Some (Inr (), upd_mem (wr64 (node + 8 * i) (pmfs_get_block_off blockn)) s1)
        }
        else Some (Inr (), s));
     case err1 of
       Inl e \<Rightarrow> Some ((Some (Inl e), s1), True)
     | Inr _ \<Rightarrow> do {
         (r, s2) \<leftarrow> rec (rd64 (mem s1) (node + 8 * i)) (first_blk h lo i) (last_blk h hi i) s1;
         case r of
           None \<Rightarrow> None
         | Some (Inl e) \<Rightarrow> Some ((r, s2), True)
         | Some (Inr _) \<Rightarrow> Some ((r, s2), False)
       } })"

text \<open>Without a \<open>goto fail\<close> the result is 0. The argument \<open>new_node\<close> of the code only decides about a cache flush.\<close>

primrec recursive_index_blocks ::
  "nat \<Rightarrow> nat \<Rightarrow> u64 \<Rightarrow> u32 \<Rightarrow> u16 \<Rightarrow> u64 \<Rightarrow> u64 \<Rightarrow> u64 \<Rightarrow> fs \<Rightarrow> (retval \<times> fs) option" where
  "recursive_index_blocks 0 = (\<lambda>pi blocknr eblock elen block lo hi s. None)"
| "recursive_index_blocks (Suc h) = (\<lambda>pi blocknr eblock elen block lo hi s.
     let node = pmfs_get_block s block
     in if node = 0 then None
        else do {
          (failed, err, s') \<leftarrow> for_loop
            (\<lambda>i (failed, st). do {
               (st', stop) \<leftarrow>
                 (if h = 0 then index_leaf pi node blocknr eblock elen i st
                  else index_inner (recursive_index_blocks h pi blocknr eblock elen) h lo hi node i st);
               Some ((stop, st'), stop) })
            [blk_index h lo..<Suc (blk_index h hi)] (False, None, s);
          Some (if failed then err else Some (Inr ()), s')
        })"

text \<open>The address an extent starts at, with the device in the two top bits.\<close>

definition extent_blocknr :: "kernelfs_extent \<Rightarrow> u64" where
  "extent_blocknr e =
     (let b = ucast (ext_start_lo e) OR push_bit 1 (push_bit 31 (ucast (ext_start_hi e)))
      in push_bit PAGE_SHIFT (drop_bit PAGE_SHIFT b) OR push_bit 62 (ucast (device_id e)))"

text \<open>The tree changes of \<open>add_inode_index\<close>: the error or indeterminate value of \<open>errval\<close> and whether the function
  returns at once.\<close>

definition index_small_root :: "nat \<Rightarrow> u64 \<Rightarrow> kernelfs_extent \<Rightarrow> bool \<Rightarrow> fs \<Rightarrow> fs option" where
  "index_small_root pi blocknr e count_changed s =
     (let node = pmfs_get_block s (pi_root (rd_inode (mem s) pi));
          first_index = ext_block e;
          last_index = first_index + ucast (ext_len e) - 1;
          addr = (\<lambda>i. blocknr + push_bit PAGE_SHIFT (of_nat (i - unat first_index)));
          js = [unat first_index..<Suc (unat last_index)];
          changed = filter (\<lambda>i. rd64 (mem s) (node + 8 * i) \<noteq> addr i) js;
          n = (if count_changed then length changed else unat (last_index - first_index + 1))
      in if node = 0 \<or> last_index = - 1 then None
         else Some (upd_mem (\<lambda>m. let m1 = fill_leaf node addr js m
                                 in if device_id e = 0 then add_nvmblock pi (of_nat n) m1 else m1) s))"

definition add_inode_index_tree :: "nat \<Rightarrow> kernelfs_extent \<Rightarrow> fs \<Rightarrow> (bool \<times> retval \<times> fs) option" where
  "add_inode_index_tree pi e s =
     (let blocknr = extent_blocknr e;
          p = rd_inode (mem s) pi;
          offset = drop_bit 9 (ext_block e);
          endoff = drop_bit 9 ((if ext_len e > 0 then ext_block e + ucast (ext_len e) - 1 else ext_block e + ucast (ext_len e)) OR 0x1FF);
          len = endoff - offset + 1;
          blk_shift = unat (pi_height p) * META_BLK_SHIFT;
          grow = (ucast endoff :: u64) > push_bit blk_shift 1 - 1;
          height = (if grow then unat (pi_height p) + tree_height (unat (drop_bit blk_shift (ucast endoff :: u64)))
                    else unat (pi_height p))
      in if grow \<and> height > 3 then Some (True, Some (Inl ENOSPC), s)
         else if height = 0 \<and> len \<le> 1 then
           if pi_root p = 0 then
             if device_id e = 0 then do {
               (b, s1) \<leftarrow> pmfs_new_block PMFS_BLOCK_TYPE_4K True s;
               case b of
                 Inl err \<Rightarrow> Some (True, Some (Inl err), s1)
               | Inr blockn \<Rightarrow> do {
                   s2 \<leftarrow> index_small_root pi blocknr e False
                     (upd_mem (\<lambda>m. wr8 (pi + 2) 0 (wr64 (pi + 8) (pmfs_get_block_off blockn) m)) s1);
                   Some (False, Some (Inr ()), s2)
                 }
             }
             else Some (False, None, upd_mem (\<lambda>m. wr8 (pi + 2) 0 (wr64 (pi + 8) (blocknr OR push_bit 62 (ucast (device_id e))) m)) s)
           else if devid_of (pi_root p) = 0 then do {
             s1 \<leftarrow> index_small_root pi blocknr e True s;
             Some (False, None, s1)
           }
           else if pi_root p = blocknr AND NOT (mask 21) then Some (False, None, s)
           else Some (True, Some (Inl EPERM), s)
         else do {
           (r, s1) \<leftarrow> (if pi_root p = 0 \<or> height > unat (pi_height p) then pmfs_increase_btree_height pi height s
                       else Some (Inr (), s));
           case r of
             Inl err \<Rightarrow> Some (True, Some (Inl err), s1)
           | Inr _ \<Rightarrow> do {
               let p1 = rd_inode (mem s1) pi;
               (r2, s2) \<leftarrow> recursive_index_blocks (if pi_root p = 0 then unat (pi_height p1) else height) pi blocknr
                 (ext_block e) (ext_len e) (pi_root p1) (ucast offset) (ucast endoff) s1;
               case r2 of
                 None \<Rightarrow> None
               | Some (Inl err) \<Rightarrow> Some (True, r2, s2)
               | Some (Inr _) \<Rightarrow> Some (False, r2, s2)
             }
         })"

definition add_inode_index :: "nat \<Rightarrow> kernelfs_extent \<Rightarrow> fs \<Rightarrow> (retval \<times> fs) option" where
  "add_inode_index pi e s = do {
     (returned, err, s1) \<leftarrow> add_inode_index_tree pi e s;
     if returned then Some (err, s1)
     else
       let fileoff = ucast (push_bit PAGE_SHIFT (ext_block e)) + (ucast (ext_start_lo e) AND 0xFFF) :: u64;
           end_off = fileoff + ucast (ext_size e);
           s2 = (if end_off > pi_size (rd_inode (mem s1) pi) then upd_mem (wr64 (pi + 16) end_off) s1 else s1);
           s3 = upd_mem (wr32 (pi + 28) (ext_mtime e)) s2;
           blkoff = ucast (blkoff_lo e) OR push_bit 1 (push_bit 31 (ucast (blkoff_hi e))) :: u64
       in Some (err, if blkoff \<noteq> 0 then upd_mem (wr64 (pi + 72) (blkoff OR push_bit 62 (ucast (device_id e)))) s3 else s3) }"

definition truncate_inode_index :: "nat \<Rightarrow> kernelfs_extent \<Rightarrow> fs \<Rightarrow> bool \<times> fs" where
  "truncate_inode_index pi e s =
     (if pi_size (rd_inode (mem s) pi) \<le> ucast (ext_size e) then (False, s)
      else (True, upd_mem (\<lambda>m. wr32 (pi + 24) (ext_mtime e) (wr32 (pi + 28) (ext_mtime e) m)) s))"

section \<open>Truncation\<close>

definition pmfs_sparse_last_blockn :: "nat \<Rightarrow> u64 \<Rightarrow> u64" where
  "pmfs_sparse_last_blockn height last_blocknr =
     (let limit = push_bit (height * META_BLK_SHIFT) 1 in if last_blocknr \<ge> limit then limit - 1 else last_blocknr)"

definition raw_pmfs_truncate_block :: "nat \<Rightarrow> u64 \<Rightarrow> u64 \<Rightarrow> fs \<Rightarrow> fs option" where
  "raw_pmfs_truncate_block pi start end_off s =
     (let i = rd_inode (mem s) pi;
          data_bits = blk_type_to_shift (pi_blk_type i);
          first_blocknr = drop_bit data_bits (start + push_bit data_bits 1 - 1);
          eof = (pi_flags i AND PMFS_EOFBLOCKS_FL \<noteq> 0);
          last_blocknr = (if eof then push_bit (unat (pi_height i) * META_BLK_SHIFT) 1 - 1
                          else pmfs_sparse_last_blockn (unat (pi_height i)) (drop_bit data_bits (end_off - 1)))
      in if pi_root i = 0 \<or> \<not> eof \<and> end_off = 0 \<or> first_blocknr > last_blocknr then Some s
         else do {
           (root, s1) \<leftarrow>
             (if pi_height i = 0 then do {
                s1 \<leftarrow> pmfs_free_block (pmfs_get_blocknr (pi_root i)) (pi_blk_type i) s;
                Some (0, s1)
              }
              else do {
                (_, mpty, s1) \<leftarrow> recursive_truncate_blocks (unat (pi_height i)) (pi_root i)
                  (pi_blk_type i) first_blocknr last_blocknr s;
                if mpty then do {
                  s2 \<leftarrow> pmfs_free_block (pmfs_get_blocknr (pi_root i)) PMFS_BLOCK_TYPE_4K s1;
                  Some (0, s2)
                }
                else Some (pi_root i, s1)
              });
           pmfs_decrease_btree_height pi start root s1
         })"

definition pmfs_truncate_block :: "nat \<Rightarrow> u64 \<Rightarrow> u64 \<Rightarrow> fs \<Rightarrow> fs option" where
  "pmfs_truncate_block pi start end_off s = raw_pmfs_truncate_block pi start end_off s"

section \<open>Directory entries\<close>

definition pmfs_find_block :: "u64 \<Rightarrow> u64 \<Rightarrow> fs \<Rightarrow> u64 option" where
  "pmfs_find_block ino file_blocknr s = do {
     pi \<leftarrow> pmfs_get_inode s ino;
     if pi = 0 then None
     else let i = rd_inode (mem s) pi;
              blk_shift = blk_type_to_shift (pi_blk_type i) - s_blocksize_bits s;
              blk_offset = file_blocknr AND (push_bit blk_shift 1 - 1);
              blocknr = drop_bit blk_shift file_blocknr
          in if blocknr \<ge> push_bit (unat (pi_height i) * META_BLK_SHIFT) 1 then Some 0
             else do {
               bp \<leftarrow> raw_pmfs_find_data_block s pi blocknr;
               Some (if bp = 0 then 0 else bp + push_bit (s_blocksize_bits s) blk_offset)
             } }"

text \<open>Unlike \<open>__pmfs_alloc_blocks\<close> this takes a block of 4K for a tree of height 0, whatever the inode's block size.\<close>

definition pmfs_alloc_block :: "nat \<Rightarrow> u64 \<Rightarrow> u32 \<Rightarrow> bool \<Rightarrow> fs \<Rightarrow> ((errno + unit) \<times> fs) option" where
  "pmfs_alloc_block pi file_blocknr num zero s =
     (let i = rd_inode (mem s) pi;
          blk_shift = blk_type_to_shift (pi_blk_type i) - s_blocksize_bits s;
          first_blocknr = drop_bit blk_shift file_blocknr;
          last_blocknr = drop_bit blk_shift (file_blocknr + ucast num - 1);
          tree_bits = unat (pi_height i) * META_BLK_SHIFT;
          grow = last_blocknr > push_bit tree_bits 1 - 1;
          height = (if grow then unat (pi_height i) + tree_height (unat (drop_bit tree_bits last_blocknr))
                    else unat (pi_height i))
      in if grow \<and> height > 3 then Some (Inl ENOSPC, s)
         else if pi_root i = 0 then
           if height = 0 then do {
             (b, s1) \<leftarrow> pmfs_new_block PMFS_BLOCK_TYPE_4K zero s;
             case b of
               Inl e \<Rightarrow> Some (Inl e, s1)
             | Inr blocknr \<Rightarrow>
                 Some (Inr (), upd_mem (\<lambda>m. wr8 (pi + 2) (of_nat height)
                   (wr64 (pi + 8) (pmfs_get_block_off blocknr) m)) s1)
           }
           else do {
             (r, s1) \<leftarrow> pmfs_increase_btree_height pi height s;
             case r of
               Inl e \<Rightarrow> Some (Inl e, s1)
             | Inr _ \<Rightarrow>
                 let i1 = rd_inode (mem s1) pi
                 in recursive_alloc_blocks (unat (pi_height i1)) None pi zero (pi_root i1)
                      first_blocknr last_blocknr True s1
           }
         else if height = 0 then Some (Inr (), s)
         else do {
           (r, s1) \<leftarrow> (if height > unat (pi_height i) then pmfs_increase_btree_height pi height s
                       else Some (Inr (), s));
           case r of
             Inl e \<Rightarrow> Some (Inl e, s1)
           | Inr _ \<Rightarrow> recursive_alloc_blocks height None pi zero (pi_root (rd_inode (mem s1) pi))
                        first_blocknr last_blocknr False s1
         })"

text \<open>The new directory that an added entry of type \<open>T_DIR\<close> names.\<close>

definition log_new_dir :: "kernelfs_dentry \<Rightarrow> u64 \<Rightarrow> nat \<Rightarrow> fs \<Rightarrow> (bool \<times> fs) option" where
  "log_new_dir d ino pidir s = do {
     (b, s1) \<leftarrow> pmfs_new_block PMFS_BLOCK_TYPE_4K True s;
     case b of
       Inl e \<Rightarrow> Some (False, s1)
     | Inr nr \<Rightarrow> do {
         pin \<leftarrow> pmfs_get_inode s1 ino;
         let blocknr = pmfs_get_block_off nr;
         let root = pmfs_get_block s1 blocknr;
         if pin = 0 \<or> root = 0 then None
         else do {
           let s2 = upd_mem (\<lambda>m. wr64 (pin + 16) (rd64 m (pin + 16) + 4096) (wr64 (pin + 8) blocknr (wr16 (pin + 36) 16877
                      (wr32 (pin + 4) (pmfs_mask_flags 16877 (pi_flags (rd_inode m pidir))) (wr8 (pin + 3) PMFS_BLOCK_TYPE_4K m))))) s1;
           Some (True, upd_mem (write_dots root ino (ucast (kd_ino d)) (s_blocksize s2)) s2)
         }
       } }"

definition kernelfs_add_dirent :: "kernelfs_dentry \<Rightarrow> nat \<Rightarrow> nat option \<Rightarrow> nat \<Rightarrow> fs \<Rightarrow> ((errno + unit) \<times> fs) option" where
  "kernelfs_add_dirent d blk_base de0 pidir s =
     (let reclen = PMFS_DIR_REC_LEN (length (kd_name d)); last_de = blk_base + 4096 - reclen
      in do {
           r \<leftarrow> (case de0 of
                   Some de \<Rightarrow> Some (Inr de)
                 | None \<Rightarrow> do {
                     de \<leftarrow> find_room last_de reclen blk_base (mem s);
                     Some (if de > last_de then Inl ENOSPC else Inr de)
                   });
           case r of
             Inl e \<Rightarrow> Some (Inl e, s)
           | Inr de \<Rightarrow> do {
               let (de', m1) = dirent_split de (mem s);
               let s1 = s\<lparr>mem := memput (de' + 12) (kd_name d) (wr8 (de' + 11) (kd_file_type d)
                          (wr8 (de' + 10) (of_nat (length (kd_name d))) (wr64 de' (kd_fino d) m1)))\<rparr>;
               (ok, s2) \<leftarrow> (if kd_file_type d = T_DIR then log_new_dir d (kd_fino d) pidir s1 else Some (True, s1));
               if \<not> ok then Some (Inl EPERM, s2)
               else Some (Inr (), upd_mem (wr32 (pidir + 28) (kd_mtime d)) s2)
             }
         })"

text \<open>The loop over the blocks of the directory: \<open>None\<close> as result when no block has room.\<close>

fun add_direntry_loop :: "kernelfs_dentry \<Rightarrow> nat \<Rightarrow> u64 list \<Rightarrow> fs \<Rightarrow> (bool \<times> (errno + unit) option \<times> fs) option" where
  "add_direntry_loop d pidir [] s = Some (False, None, s)"
| "add_direntry_loop d pidir (block # blocks) s = do {
     b \<leftarrow> pmfs_find_block (ucast (kd_ino d)) block s;
     let blk_base = pmfs_get_block s b;
     if blk_base = 0 then Some (True, Some (Inl EIO), s)
     else do {
       (r, s1) \<leftarrow> kernelfs_add_dirent d blk_base None pidir s;
       if r = Inl ENOSPC then add_direntry_loop d pidir blocks s1 else Some (False, Some r, s1)
     } }"

definition log_init_inode :: "nat \<Rightarrow> nat \<Rightarrow> mem \<Rightarrow> mem" where
  "log_init_inode pi pidir m =
     (let m1 = wr8 (pi + 3) PMFS_BLOCK_TYPE_4K m;
          m2 = wr32 (pi + 4) (pmfs_mask_flags 33188 (pi_flags (rd_inode m1 pidir))) m1
      in wr64 (pi + 72) 0 (wr32 (pi + 68) 0 (wr64 (pi + 40) 0 (wr32 (pi + 32) 0 (wr8 (pi + 2) 0 (wr16 (pi + 36) 33188 m2))))))"

definition log_finish_inode :: "nat \<Rightarrow> kernelfs_dentry \<Rightarrow> mem \<Rightarrow> mem" where
  "log_finish_inode pi d m =
     wr16 (pi + 38) 1 (wr32 (pi + 28) (kd_mtime d) (wr32 (pi + 24) (kd_mtime d) (wr32 (pi + 60) (kd_mtime d) m)))"

definition add_direntry :: "nat \<Rightarrow> kernelfs_dentry \<Rightarrow> fs \<Rightarrow> ((errno + unit) \<times> fs) option" where
  "add_direntry pidir d s = do {
     pi \<leftarrow> pmfs_get_inode s (kd_fino d);
     if pi = 0 \<or> pidir = 0 then None
     else do {
       let s1 = upd_mem (log_init_inode pi pidir) s;
       let blocks = drop_bit (s_blocksize_bits s1) (pi_size (rd_inode (mem s1) pidir));
       (returned, r, s2) \<leftarrow> add_direntry_loop d pidir (map of_nat [0..<unat blocks]) s1;
       case r of
         Some v \<Rightarrow> Some (v, if returned then s2 else upd_mem (log_finish_inode pi d) s2)
       | None \<Rightarrow> do {
           (a, s3) \<leftarrow> pmfs_alloc_block pidir blocks 1 False s2;
           case a of
             Inl e \<Rightarrow> Some (Inl e, s3)
           | Inr _ \<Rightarrow> do {
               let s4 = upd_mem (\<lambda>m. wr64 (pidir + 16) (rd64 m (pidir + 16) + s_blocksize s3) m) s3;
               b \<leftarrow> pmfs_find_block (ucast (kd_ino d)) blocks s4;
               let blk_base = pmfs_get_block s4 b;
               if blk_base = 0 then None
               else do {
                 let s5 = upd_mem (\<lambda>m. wr16 (blk_base + 8) (ucast (s_blocksize s4)) (wr64 blk_base 0 m)) s4;
                 (v, s6) \<leftarrow> kernelfs_add_dirent d blk_base (Some blk_base) pidir s5;
                 Some (v, upd_mem (log_finish_inode pi d) s6)
               }
             }
         }
     } }"

text \<open>The search without the check of the record that \<open>pmfs_search_dirblock\<close> makes.\<close>

function search_dir_loop :: "u8 list \<Rightarrow> nat \<Rightarrow> nat option \<Rightarrow> nat \<Rightarrow> mem \<Rightarrow> search_result" where
  "search_dir_loop name dlimit pde de m =
     (if \<not> de < dlimit then Not_found
      else if de + length name \<le> dlimit \<and> pmfs_match name de m then Found de pde
      else let len = unat (de_len (rd_direntry m de))
           in if len = 0 then Bad_block else search_dir_loop name dlimit (Some de) (de + len) m)"
  by pat_completeness auto
termination
  by (relation "measure (\<lambda>(name, dlimit, pde, de, m). dlimit - de)") auto

declare search_dir_loop.simps [simp del]

definition pmfs_search_dir_block :: "nat \<Rightarrow> u8 list \<Rightarrow> fs \<Rightarrow> search_result" where
  "pmfs_search_dir_block blk_base name s = search_dir_loop name (blk_base + unat (s_blocksize s)) None blk_base (mem s)"

fun remove_direntry_loop :: "kernelfs_dentry \<Rightarrow> u64 list \<Rightarrow> fs \<Rightarrow> (nat \<times> nat option) option option" where
  "remove_direntry_loop d [] s = Some None"
| "remove_direntry_loop d (block # blocks) s = do {
     b \<leftarrow> pmfs_find_block (ucast (kd_ino d)) block s;
     let blk_base = pmfs_get_block s b;
     if blk_base = 0 then Some None
     else case pmfs_search_dir_block blk_base (kd_name d) s of
            Found de pde \<Rightarrow> Some (Some (de, pde))
          | _ \<Rightarrow> remove_direntry_loop d blocks s }"

definition remove_direntry :: "nat \<Rightarrow> kernelfs_dentry \<Rightarrow> fs \<Rightarrow> ((errno + unit) \<times> fs) option" where
  "remove_direntry pidir d s =
     (let blocks = drop_bit (s_blocksize_bits s) (pi_size (rd_inode (mem s) pidir))
      in if pidir = 0 then None
         else do {
           r \<leftarrow> remove_direntry_loop d (map of_nat [0..<unat blocks]) s;
           Some (case r of
              None \<Rightarrow> (Inl EINVAL, s)
            | Some (de, pde) \<Rightarrow> (Inr (), upd_mem (\<lambda>m. wr32 (pidir + 28) (kd_mtime d) (dirent_unlink de pde m)) s))
         })"

section \<open>Applying the log\<close>

text \<open>The attribute and link entries, on the inode at \<open>pi\<close>.\<close>

definition apply_setattr :: "nat \<Rightarrow> u32 \<Rightarrow> setattr_entry \<Rightarrow> fs \<Rightarrow> fs" where
  "apply_setattr pi ino a s =
     (if sa_isdel a = 0 then
        upd_mem (\<lambda>m. wr64 (pi + 16) (ucast (sa_size a)) (wr32 (pi + 24) (sa_ctime a) (wr32 (pi + 28) (sa_mtime a)
          (wr32 (pi + 60) (sa_mtime a) (wr32 (pi + 52) (sa_gid a) (wr32 (pi + 48) (sa_uid a) (wr16 (pi + 36) (sa_mode a) m))))))) s
      else
        let s1 = upd_mem (\<lambda>m. wr32 (pi + 32) (now s) (wr64 (pi + 16) 0 (wr16 (pi + 38) 0 (wr64 (pi + 8) 0 m)))) s;
            inode_nr = drop_bit PMFS_INODE_BITS ino
        in upd_sbi (\<lambda>b. let b1 = (if inode_nr < s_free_inode_hint b then b\<lparr>s_free_inode_hint := inode_nr\<rparr> else b);
                            b2 = b1\<lparr>s_free_inodes_count := s_free_inodes_count b1 + 1\<rparr>
                        in if s_free_inodes_count b2 = s_inodes_count b2 - PMFS_FREE_INODE_HINT_START
                           then b2\<lparr>s_free_inode_hint := PMFS_FREE_INODE_HINT_START\<rparr> else b2) s1)"

definition apply_link_change :: "nat \<Rightarrow> link_change_entry \<Rightarrow> mem \<Rightarrow> mem" where
  "apply_link_change pi c m = wr32 (pi + 56) (lc_generation c) (wr32 (pi + 4) (lc_flags c) (wr16 (pi + 38) (lc_links c) m))"

text \<open>One log entry at address \<open>a\<close>: the new value of \<open>error\<close>, the size of the entry and the state; \<open>None\<close> in the
  second place stops the call with -1. \<open>full_page\<close> tells the loop over a full page of the log from the one over its
  last page: they differ in the field that makes a directory entry an addition.\<close>

definition sync_entry :: "bool \<Rightarrow> nat \<Rightarrow> retval \<Rightarrow> fs \<Rightarrow> (retval \<times> nat option \<times> fs) option" where
  "sync_entry full_page a err s =
     (let e = rd_extent (mem s) a
      in do {
           pi \<leftarrow> pmfs_get_inode s (ucast (ext_ino e));
           case entry_type_of (entry_type e) of
             None \<Rightarrow> Some (Some (Inl EPERM), None, s)
           | Some PADDING \<Rightarrow> Some (err, Some 32, s)
           | Some FILE_WRITE \<Rightarrow>
               if isappend e = 1 then
                 if pi = 0 then None else do { (r, s1) \<leftarrow> add_inode_index pi e s; Some (r, Some 32, s1) }
               else Some (err, Some 32, s)
           | Some DIR_LOG \<Rightarrow> do {
               let d = rd_kdentry (mem s) a;
               (r, s1) \<leftarrow> (if (if full_page then kd_addordel d = 1 else kd_invalid d \<noteq> 0)
                           then add_direntry pi d s else remove_direntry pi d s);
               Some (Some r, Some 64, s1)
             }
           | Some SET_ATTR \<Rightarrow> if pi = 0 then None else Some (err, Some 32, apply_setattr pi (ext_ino e) (rd_setattr (mem s) a) s)
           | Some LINK_CHANGE \<Rightarrow>
               if pi = 0 then None else Some (err, Some 32, upd_mem (apply_link_change pi (rd_link_change (mem s) a)) s)
         })"

text \<open>The entries of one page, from \<open>offset\<close> up to \<open>limit\<close>; the flag says that the call is left.\<close>

function sync_page :: "bool \<Rightarrow> nat \<Rightarrow> nat \<Rightarrow> nat \<Rightarrow> retval \<Rightarrow> fs \<Rightarrow> (bool \<times> retval \<times> fs) option" where
  "sync_page full_page xip_mem limit offset err s =
     (if offset < limit then
        case sync_entry full_page (xip_mem + offset) err s of
          None \<Rightarrow> None
        | Some (err', None, s') \<Rightarrow> Some (True, err', s')
        | Some (err', Some n, s') \<Rightarrow> if n = 0 then None else sync_page full_page xip_mem limit (offset + n) err' s'
      else Some (False, err, s))"
  by pat_completeness auto
termination
  by (relation "measure (\<lambda>(full_page, xip_mem, limit, offset, err, s). limit - offset)") auto

declare sync_page.simps [simp del]

text \<open>The pages, \<open>n\<close> to go; the last one is read up to \<open>eoffset\<close>. The result has the address of the last page.\<close>

abbreviation (input) logblock :: u64 where "logblock \<equiv> 1024"

fun sync_pages :: "nat \<Rightarrow> vinode \<Rightarrow> u64 \<Rightarrow> nat \<Rightarrow> nat \<Rightarrow> fs \<Rightarrow> (bool \<times> retval \<times> nat \<times> fs) option" where
  "sync_pages n inode index offset eoffset s = do {
     (rc, _, _) \<leftarrow> pmfs_get_xip_mem inode (index mod logblock) False s;
     case rc of
       Inl e \<Rightarrow> Some (True, Some (Inl EPERM), 0, s)
     | Inr xip_mem \<Rightarrow> do {
         (stop, err', s') \<leftarrow> sync_page (n \<noteq> 0) xip_mem (if n = 0 then eoffset else 4096) offset
           (Some (Inr ())) s;
         if stop \<or> n = 0 then Some (stop, err', xip_mem, s')
         else sync_pages (n - 1) inode (index + 1) 0 eoffset s'
       } }"

declare sync_pages.simps [simp del]

definition apply_addr_info :: "kernelfs_addr_info \<Rightarrow> nat \<Rightarrow> mem \<Rightarrow> mem" where
  "apply_addr_info a ps m =
     wr64 (ps + 128) (ai_u_free_inode_base a) (wr64 (ps + 120) (ssd3_block_addr a) (wr64 (ps + 112) (ssd2_block_addr a)
       (wr64 (ps + 104) (ssd1_block_addr a) (wr64 (ps + 96) (nvm_block_addr a) m))))"

definition syscall_sync_inodelog :: "vinode \<Rightarrow> u64 \<Rightarrow> u64 \<Rightarrow> fs \<Rightarrow> (retval \<times> fs) option" where
  "syscall_sync_inodelog inode startaddr endaddr s =
     (let index = drop_bit PAGE_SHIFT startaddr;
          eoffset = unat (endaddr AND 0xFFF);
          end0 = drop_bit PAGE_SHIFT endaddr;
          end_index = (if end0 < index then end0 + logblock else end0)
      in if end_index < index then None
         else do {
           (stop, err, xip_mem, s1) \<leftarrow> sync_pages (unat (end_index - index)) inode index (unat (startaddr AND 0xFFF))
             eoffset s;
           if stop then Some (err, s1)
           else do {
             r \<leftarrow> (if eoffset > 4096 - 40 then do {
                     (rc, _, _) \<leftarrow> pmfs_get_xip_mem inode ((end_index + 1) mod logblock) False s1;
                     Some (case rc of Inl e \<Rightarrow> None | Inr x \<Rightarrow> Some (x, Some (Inr ())))
                   }
                   else Some (Some (xip_mem + eoffset, err)));
             case r of
               None \<Rightarrow> Some (Some (Inl EPERM), s1)
             | Some (a, err') \<Rightarrow> Some (err', upd_mem (apply_addr_info (rd_addr_info (mem s1) a) (pmfs_get_super s1)) s1)
           }
         })"

section \<open>Reading directories\<close>

text \<open>The value is -1 (a null inode or a bad record), an error, 0 or the number of the inode with the type in
  its low bits, cut to 32 bits.\<close>

fun fetchdentry_loop :: "u64 \<Rightarrow> u8 list \<Rightarrow> u64 list \<Rightarrow> fs \<Rightarrow> (errno + u32) option" where
  "fetchdentry_loop ino name [] s = Some (Inr 0)"
| "fetchdentry_loop ino name (block # blocks) s = do {
     b \<leftarrow> pmfs_find_block ino block s;
     let blk_base = pmfs_get_block s b;
     if blk_base = 0 then Some (Inl EIO)
     else case pmfs_search_dir_block blk_base name s of
            Found de _ \<Rightarrow> Some (Inr (ucast (rd64 (mem s) de OR ucast (rd8 (mem s) (de + 11)))))
          | Bad_block \<Rightarrow> Some (Inl EPERM)
          | Not_found \<Rightarrow> fetchdentry_loop ino name blocks s }"

definition syscall_fetchdentry :: "u64 \<Rightarrow> u8 list \<Rightarrow> fs \<Rightarrow> (errno + u32) option" where
  "syscall_fetchdentry ino name s = do {
     pi \<leftarrow> pmfs_get_inode s ino;
     let p = rd_inode (mem s) pi;
     if pi = 0 \<or> pi_size p = 0 \<or> pi_root p = 0 then Some (Inl EPERM)
     else fetchdentry_loop ino name (map of_nat [0..<unat (drop_bit (s_blocksize_bits s) (pi_size p))]) s }"

definition syscall_fetchdirblock :: "u64 \<Rightarrow> fs \<Rightarrow> (errno + nat) option" where
  "syscall_fetchdirblock ino s = do {
     b \<leftarrow> pmfs_find_block ino 0 s;
     Some (if pmfs_get_block s b = 0 then Inl EIO else Inr (pmfs_get_block s b)) }"

end
