(* ===== verification/Dir_Block.thy ===== *)
theory Dir_Block
  imports Dirent
begin

text \<open>
  The records of one directory block as a table of names: a well-formed block, its entries, and what the
  search, the insertion and the removal of \<open>dir.c\<close> and \<open>namei.c\<close> do to them.
\<close>

section \<open>A directory block as a name table\<close>

text \<open>The records of a block from \<open>de\<close> up to \<open>lim\<close>, and what makes them well-formed: each is aligned, long
  enough for its name, ends inside the block, and is named when it is in use.\<close>

abbreviation rec_len :: "mem \<Rightarrow> nat \<Rightarrow> nat" where "rec_len m de \<equiv> unat (rd16 m (de + 8))"
abbreviation rec_nlen :: "mem \<Rightarrow> nat \<Rightarrow> nat" where "rec_nlen m de \<equiv> PMFS_DIR_REC_LEN (unat (rd8 m (de + 10)))"

definition rec_live :: "mem \<Rightarrow> nat \<Rightarrow> bool" where
  "rec_live m de \<longleftrightarrow> rd64 m de \<noteq> 0"

definition rec_name :: "mem \<Rightarrow> nat \<Rightarrow> u8 list" where
  "rec_name m de = bytes_at m (de + 12) (unat (rd8 m (de + 10)))"

definition rec_ok :: "mem \<Rightarrow> nat \<Rightarrow> nat \<Rightarrow> bool" where
  "rec_ok m lim de \<longleftrightarrow> 16 \<le> rec_len m de \<and> rec_len m de mod 4 = 0 \<and> rec_nlen m de \<le> rec_len m de
     \<and> de + rec_len m de \<le> lim \<and> (rec_live m de \<longrightarrow> rec_name m de \<noteq> [])"

function dir_recs :: "mem \<Rightarrow> nat \<Rightarrow> nat \<Rightarrow> nat list" where
  "dir_recs m lim de = (if de < lim \<and> 0 < rec_len m de then de # dir_recs m lim (de + rec_len m de) else [])"
  by pat_completeness auto
termination
  by (relation "measure (\<lambda>(m, lim, de). lim - de)") auto

declare dir_recs.simps [simp del]

primrec dir_chain :: "mem \<Rightarrow> nat \<Rightarrow> nat \<Rightarrow> nat list \<Rightarrow> bool" where
  "dir_chain m lim de [] \<longleftrightarrow> de = lim"
| "dir_chain m lim de (r # rs) \<longleftrightarrow> r = de \<and> rec_ok m lim de \<and> dir_chain m lim (de + rec_len m de) rs"

definition dir_live :: "mem \<Rightarrow> nat list \<Rightarrow> (u8 list \<times> u64) list" where
  "dir_live m rs = map (\<lambda>d. (rec_name m d, rd64 m d)) (filter (rec_live m) rs)"

definition dir_ok :: "mem \<Rightarrow> nat \<Rightarrow> nat \<Rightarrow> bool" where
  "dir_ok m base lim \<longleftrightarrow> dir_chain m lim base (dir_recs m lim base)"

definition dir_list :: "mem \<Rightarrow> nat \<Rightarrow> nat \<Rightarrow> (u8 list \<times> u64) list" where
  "dir_list m base lim = dir_live m (dir_recs m lim base)"

lemma rec_ok_pos: "rec_ok m lim de \<Longrightarrow> de < lim \<and> 0 < rec_len m de"
  by (auto simp: rec_ok_def)

lemma dir_chain_recs: "dir_chain m lim de rs \<Longrightarrow> dir_recs m lim de = rs"
proof (induction rs arbitrary: de)
  case Nil
  then show ?case by (simp add: dir_recs.simps)
next
  case (Cons r rs)
  then show ?case using rec_ok_pos[of m lim de] by (simp add: dir_recs.simps[of m lim de])
qed

lemma dir_chain_dir: 
  assumes "dir_chain m lim de rs"
  shows "dir_ok m de lim" "dir_list m de lim = dir_live m rs"
  using assms dir_chain_recs[OF assms] by (simp_all add: dir_ok_def dir_list_def)

lemma dir_live_simps [simp]:
  "dir_live m [] = []"
  "dir_live m (d # rs) = (if rec_live m d then [(rec_name m d, rd64 m d)] else []) @ dir_live m rs"
  "dir_live m (rs @ rs') = dir_live m rs @ dir_live m rs'"
  by (simp_all add: dir_live_def)

text \<open>A record depends on its own bytes only.\<close>

lemma rec_nlen_bounds: "12 + unat (rd8 m (de + 10)) \<le> rec_nlen m de"
  by (simp add: PMFS_DIR_REC_LEN_def)

lemma rec_agree:
  assumes "rec_ok m lim de" "\<And>x. de \<le> x \<Longrightarrow> x < de + rec_len m de \<Longrightarrow> m' x = m x"
  shows "rd64 m' de = rd64 m de" "rd16 m' (de + 8) = rd16 m (de + 8)" "rd8 m' (de + 10) = rd8 m (de + 10)"
    "rec_name m' de = rec_name m de" "rec_live m' de = rec_live m de"
proof -
  have len: "16 \<le> rec_len m de" and n: "12 + unat (rd8 m (de + 10)) \<le> rec_len m de"
    using assms(1) rec_nlen_bounds[of m de] by (auto simp: rec_ok_def)
  show i: "rd64 m' de = rd64 m de" by (rule rdw_cong) (use assms(2) len in auto)
  show "rd16 m' (de + 8) = rd16 m (de + 8)" by (rule rdw_cong) (use assms(2) len in auto)
  show b: "rd8 m' (de + 10) = rd8 m (de + 10)" by (rule rdw_cong) (use assms(2) len in auto)
  show "rec_name m' de = rec_name m de"
    unfolding rec_name_def b by (rule bytes_at_cong) (use assms(2) n in auto)
  show "rec_live m' de = rec_live m de" by (simp add: rec_live_def i)
qed

lemma rec_ok_agree:
  assumes "rec_ok m lim de" "\<And>x. de \<le> x \<Longrightarrow> x < de + rec_len m de \<Longrightarrow> m' x = m x"
  shows "rec_ok m' lim de"
  using assms(1) by (simp add: rec_ok_def rec_agree[OF assms])

lemma dir_chain_agree:
  assumes "dir_chain m lim de rs" "\<And>x. de \<le> x \<Longrightarrow> x < lim \<Longrightarrow> m' x = m x"
  shows "dir_chain m' lim de rs \<and> dir_live m' rs = dir_live m rs"
  using assms
proof (induction rs arbitrary: de)
  case (Cons r rs)
  have ok: "r = de" "rec_ok m lim de" "dir_chain m lim (de + rec_len m de) rs" using Cons.prems(1) by auto
  have lim: "de + rec_len m de \<le> lim" using ok(2) by (simp add: rec_ok_def)
  have ag: "\<And>x. de \<le> x \<Longrightarrow> x < de + rec_len m de \<Longrightarrow> m' x = m x" using Cons.prems(2) lim by simp
  have IH: "dir_chain m' lim (de + rec_len m de) rs \<and> dir_live m' rs = dir_live m rs"
    using Cons.IH[OF ok(3)] Cons.prems(2) by simp
  show ?case using IH ok(1) rec_ok_agree[OF ok(2) ag] rec_agree[OF ok(2) ag] by simp
qed simp

lemma dir_chain_le: "dir_chain m lim de rs \<Longrightarrow> de \<le> lim"
  by (cases rs) (auto simp: rec_ok_def)

lemma dir_chain_split:
  "dir_chain m lim de (rs1 @ d # rs2) \<longleftrightarrow>
     dir_chain m d de rs1 \<and> rec_ok m lim d \<and> dir_chain m lim (d + rec_len m d) rs2"
proof (induction rs1 arbitrary: de)
  case Nil
  then show ?case by auto
next
  case (Cons r rs1)
  have "rec_ok m lim de \<Longrightarrow> de + rec_len m de \<le> d \<Longrightarrow> rec_ok m d de" by (simp add: rec_ok_def)
  moreover have "rec_ok m d de \<Longrightarrow> rec_ok m lim d \<Longrightarrow> rec_ok m lim de" by (auto simp: rec_ok_def)
  ultimately show ?case using Cons.IH[of "de + rec_len m de"] dir_chain_le[of m d "de + rec_len m de" rs1]
    by auto
qed

lemma dir_chain_mem: "dir_chain m lim de rs \<Longrightarrow> d \<in> set rs \<Longrightarrow> de \<le> d \<and> rec_ok m lim d"
proof (induction rs arbitrary: de)
  case (Cons r rs)
  show ?case
  proof (cases "d \<in> set rs")
    case True
    then show ?thesis using Cons.IH[of "de + rec_len m de"] Cons.prems(1) by simp
  qed (use Cons.prems in auto)
qed simp

section \<open>Search\<close>

lemma pmfs_match_name: "pmfs_match name de m \<longleftrightarrow> rec_live m de \<and> rec_name m de = name"
  by (auto simp: pmfs_match_def rec_live_def rec_name_def rd_direntry_def)

lemma rec_ok_check:
  assumes "rec_ok (mem s) (base + unat (s_blocksize s)) de" "base \<le> de"
  shows "pmfs_check_dir_entry de base s"
proof -
  have "de - base + rec_len (mem s) de \<le> unat (s_blocksize s)" using assms by (auto simp: rec_ok_def)
  moreover have "PMFS_DIR_REC_LEN 1 = 16" by (simp add: PMFS_DIR_REC_LEN_def)
  ultimately show ?thesis using assms by (simp add: pmfs_check_dir_entry_def rec_ok_def rd_direntry_def)
qed

lemma search_step:
  assumes "rec_ok (mem s) (base + unat (s_blocksize s)) de" "base \<le> de"
  shows "search_dirblock_loop name base (base + unat (s_blocksize s)) pde de s =
    (if rec_live (mem s) de \<and> rec_name (mem s) de = name then Found de pde
     else search_dirblock_loop name base (base + unat (s_blocksize s)) (Some de) (de + rec_len (mem s) de) s)"
proof -
  have "length (rec_name (mem s) de) + 12 \<le> rec_len (mem s) de"
    using assms(1) rec_nlen_bounds[of "mem s" de] by (auto simp: rec_ok_def rec_name_def)
  then have "rec_name (mem s) de = name \<Longrightarrow> de + length name \<le> base + unat (s_blocksize s)"
    using assms(1) by (auto simp: rec_ok_def)
  then show ?thesis
    using rec_ok_pos[OF assms(1)] rec_ok_check[OF assms]
    by (subst search_dirblock_loop.simps) (auto simp: pmfs_match_name rd_direntry_def)
qed

lemma search_not_found:
  assumes "dir_chain (mem s) (base + unat (s_blocksize s)) de rs" "base \<le> de"
    "\<And>d. d \<in> set rs \<Longrightarrow> \<not> (rec_live (mem s) d \<and> rec_name (mem s) d = name)"
  shows "search_dirblock_loop name base (base + unat (s_blocksize s)) pde de s = Not_found"
  using assms
proof (induction rs arbitrary: de pde)
  case Nil
  then show ?case by (simp add: search_dirblock_loop.simps)
next
  case (Cons r rs)
  have ok: "rec_ok (mem s) (base + unat (s_blocksize s)) de" "r = de"
    "dir_chain (mem s) (base + unat (s_blocksize s)) (de + rec_len (mem s) de) rs" using Cons.prems(1) by auto
  show ?case using Cons.IH[OF ok(3)] Cons.prems(2,3) ok(2) by (simp add: search_step[OF ok(1)])
qed

lemma search_found:
  assumes "dir_chain (mem s) (base + unat (s_blocksize s)) de (rs1 @ d # rs2)" "base \<le> de"
    "\<And>d. d \<in> set rs1 \<Longrightarrow> \<not> (rec_live (mem s) d \<and> rec_name (mem s) d = name)" "rec_live (mem s) d" "rec_name (mem s) d = name"
  shows "search_dirblock_loop name base (base + unat (s_blocksize s)) pde de s
    = Found d (if rs1 = [] then pde else Some (last rs1))"
  using assms
proof (induction rs1 arbitrary: de pde)
  case Nil
  then show ?case by (simp add: search_step)
next
  case (Cons r rs)
  have ok: "rec_ok (mem s) (base + unat (s_blocksize s)) de" "r = de"
    "dir_chain (mem s) (base + unat (s_blocksize s)) (de + rec_len (mem s) de) (rs @ d # rs2)" using Cons.prems(1) by auto
  have "\<not> (rec_live (mem s) de \<and> rec_name (mem s) de = name)" using Cons.prems(3)[of de] ok(2) by simp
  then show ?case using Cons.IH[OF ok(3)] Cons.prems(2-5) ok(2) by (auto simp: search_step[OF ok(1)])
qed


section \<open>Insertion\<close>

definition has_room :: "mem \<Rightarrow> nat \<Rightarrow> nat \<Rightarrow> bool" where
  "has_room m reclen d \<longleftrightarrow> (if rec_live m d then rec_nlen m d else 0) + reclen \<le> rec_len m d"

lemma find_room_step:
  assumes "rec_ok m lim de" "0 < reclen" "reclen \<le> lim"
  shows "find_room (lim - reclen) reclen de m =
    (if has_room m reclen de then Some de
     else if de \<le> lim - reclen then find_room (lim - reclen) reclen (de + rec_len m de) m else Some de)"
proof -
  have "has_room m reclen de \<Longrightarrow> de \<le> lim - reclen"
    using assms by (auto simp: has_room_def rec_ok_def split: if_splits)
  then show ?thesis
    by (subst find_room.simps) (auto simp: has_room_def rec_live_def rd_direntry_def)
qed

lemma find_room_none:
  assumes "dir_chain m lim de rs" "0 < reclen" "reclen \<le> lim" "\<And>d. d \<in> set rs \<Longrightarrow> \<not> has_room m reclen d"
  shows "\<exists>d. find_room (lim - reclen) reclen de m = Some d \<and> d > lim - reclen"
  using assms
proof (induction rs arbitrary: de)
  case Nil
  then show ?case by (auto simp: find_room.simps)
next
  case (Cons r rs)
  then have "\<exists>d. find_room (lim - reclen) reclen (de + rec_len m de) m = Some d \<and> d > lim - reclen" by simp
  then show ?case using Cons.prems find_room_step[of m lim de reclen] by auto
qed

lemma find_room_first:
  assumes "dir_chain m lim de (rs1 @ d # rs2)" "0 < reclen" "reclen \<le> lim" "has_room m reclen d"
    "\<And>d. d \<in> set rs1 \<Longrightarrow> \<not> has_room m reclen d"
  shows "find_room (lim - reclen) reclen de m = Some d \<and> d \<le> lim - reclen"
  using assms
proof (induction rs1 arbitrary: de)
  case Nil
  have "d + rec_len m d \<le> lim" "reclen \<le> rec_len m d"
    using Nil by (auto simp: has_room_def rec_ok_def split: if_splits)
  then show ?case using Nil find_room_step[of m lim de reclen] by auto
next
  case (Cons r rs)
  have ok: "rec_ok m lim de" "dir_chain m lim (de + rec_len m de) (rs @ d # rs2)" "r = de" using Cons.prems(1) by auto
  have IH: "find_room (lim - reclen) reclen (de + rec_len m de) m = Some d \<and> d \<le> lim - reclen"
    using Cons.IH[OF ok(2)] Cons.prems by simp
  have "de + rec_len m de \<le> d"
    using dir_chain_split[THEN iffD1, OF ok(2)] dir_chain_le by blast
  then have "de \<le> lim - reclen" using IH by simp
  then show ?case using IH find_room_step[OF ok(1) Cons.prems(2,3)] Cons.prems(5) ok(3) by simp
qed

lemma REC_LEN_bounds:
  "12 + n \<le> PMFS_DIR_REC_LEN n" "PMFS_DIR_REC_LEN n \<le> n + 15" "PMFS_DIR_REC_LEN n mod 4 = 0"
  "1 \<le> n \<Longrightarrow> 16 \<le> PMFS_DIR_REC_LEN n"
  by (simp_all add: PMFS_DIR_REC_LEN_def)

text \<open>The record that takes the new entry, and what its bytes are afterwards.\<close>

definition slot_of :: "mem \<Rightarrow> nat \<Rightarrow> nat" where
  "slot_of m d = (if rec_live m d then d + rec_nlen m d else d)"

lemma dirent_write_outside:
  assumes "has_room m (PMFS_DIR_REC_LEN (length name)) d" "x < d \<or> d + rec_len m d \<le> x"
  shows "dirent_write name ino d m x = m x"
proof -
  have "12 + length name \<le> PMFS_DIR_REC_LEN (length name)" "12 \<le> rec_nlen m d"
    using REC_LEN_bounds(1)[of "length name"] REC_LEN_bounds(1)[of "unat (rd8 m (d + 10))"] by simp_all
  then show ?thesis
    using assms
    by (auto simp: dirent_write_def dirent_split_def rd_direntry_def has_room_def rec_live_def memput_def Let_def
        wrw_apply_other split: if_splits)
qed


text \<open>The fields of the two records after the stores.\<close>

lemma unat_of_nat_16: "n < 65536 \<Longrightarrow> unat (of_nat n :: u16) = n"
  by (simp add: unat_of_nat)

lemma unat_of_nat_8: "n < 256 \<Longrightarrow> unat (of_nat n :: u8) = n"
  by (simp add: unat_of_nat)

lemma dirent_write_live:
  fixes ino :: u64
  assumes "rec_live m d" "has_room m (PMFS_DIR_REC_LEN (length name)) d" "length name \<le> 255"
  defines "m' \<equiv> dirent_write name ino d m" and "d' \<equiv> d + rec_nlen m d"
  shows "rd64 m' d = rd64 m d" "rec_len m' d = rec_nlen m d" "rd8 m' (d + 10) = rd8 m (d + 10)"
    "rec_name m' d = rec_name m d"
    "rd64 m' d' = ino" "rec_len m' d' = rec_len m d - rec_nlen m d" "unat (rd8 m' (d' + 10)) = length name"
    "rec_name m' d' = name"
proof -
  let ?n = "rec_nlen m d"
  have n: "12 + unat (rd8 m (d + 10)) \<le> ?n" "?n \<le> unat (rd8 m (d + 10)) + 15"
    using REC_LEN_bounds(1,2) by blast+
  have n2: "?n < 65536" using n(2) unat_less_size[of "rd8 m (d + 10)"] by simp
  have room: "?n \<le> rec_len m d" using assms(1,2) by (simp add: has_room_def)
  have m': "m' = memput (d' + 12) name (wr8 (d' + 10) (of_nat (length name)) (wr64 d' ino
      (wr16 (d + 8) (of_nat ?n) (wr16 (d' + 8) (rd16 m (d + 8) - of_nat ?n) m))))"
    using assms(1) by (simp add: m'_def d'_def dirent_write_def dirent_split_def rd_direntry_def rec_live_def Let_def)
  have d': "d + 12 \<le> d'" using n by (simp add: d'_def)
  show "rd64 m' d = rd64 m d" unfolding m' using d' by simp
  show "rec_len m' d = ?n" unfolding m' using d' n2 by (simp add: unat_of_nat_16)
  show b: "rd8 m' (d + 10) = rd8 m (d + 10)" unfolding m' using d' by simp
  show "rec_name m' d = rec_name m d"
    unfolding rec_name_def b
  proof (rule bytes_at_cong)
    fix x assume "d + 12 \<le> x" "x < d + 12 + unat (rd8 m (d + 10))"
    then have "d + 12 \<le> x" "x < d'" using n(1) by (simp_all add: d'_def)
    then show "m' x = m x" unfolding m' by (simp add: memput_def wrw_apply_other)
  qed
  show "rd64 m' d' = ino" unfolding m' by simp
  show "rec_len m' d' = rec_len m d - ?n"
    unfolding m' using d' n2 room by (simp add: unat_of_nat_16 unat_minus_fits)
  show c: "unat (rd8 m' (d' + 10)) = length name"
    unfolding m' using assms(3) by (simp add: unat_of_nat_8)
  show "rec_name m' d' = name" unfolding rec_name_def c unfolding m' by simp
qed

lemma dirent_write_free:
  fixes ino :: u64
  assumes "\<not> rec_live m d" "length name \<le> 255"
  defines "m' \<equiv> dirent_write name ino d m"
  shows "rd64 m' d = ino" "rec_len m' d = rec_len m d" "unat (rd8 m' (d + 10)) = length name"
    "rec_name m' d = name"
proof -
  have m': "m' = memput (d + 12) name (wr8 (d + 10) (of_nat (length name)) (wr64 d ino m))"
    using assms(1) by (simp add: m'_def dirent_write_def dirent_split_def rd_direntry_def rec_live_def)
  show "rd64 m' d = ino" "rec_len m' d = rec_len m d" unfolding m' by simp_all
  show c: "unat (rd8 m' (d + 10)) = length name" unfolding m' using assms(2) by (simp add: unat_of_nat_8)
  show "rec_name m' d = name" unfolding rec_name_def c unfolding m' by simp
qed

lemma dirent_write_chain:
  assumes chain: "dir_chain m lim de (rs1 @ d # rs2)"
    and room: "has_room m (PMFS_DIR_REC_LEN (length name)) d"
    and arg: "length name \<le> 255" "name \<noteq> []" "ino \<noteq> 0"
  defines "m' \<equiv> dirent_write name ino d m"
  shows "dir_chain m' lim de (rs1 @ (if rec_live m d then [d, d + rec_nlen m d] else [d]) @ rs2)
    \<and> dir_live m' (rs1 @ (if rec_live m d then [d, d + rec_nlen m d] else [d]) @ rs2)
      = dir_live m rs1 @ dir_live m [d] @ (name, ino) # dir_live m rs2"
proof -
  have c: "dir_chain m d de rs1" "rec_ok m lim d" "dir_chain m lim (d + rec_len m d) rs2"
    using chain by (simp_all add: dir_chain_split)
  have out: "x < d \<or> d + rec_len m d \<le> x \<Longrightarrow> m' x = m x" for x
    unfolding m'_def by (rule dirent_write_outside[OF room])
  have l: "dir_chain m' d de rs1 \<and> dir_live m' rs1 = dir_live m rs1"
    by (rule dir_chain_agree[OF c(1)]) (simp add: out)
  have r: "dir_chain m' lim (d + rec_len m d) rs2 \<and> dir_live m' rs2 = dir_live m rs2"
    by (rule dir_chain_agree[OF c(3)]) (simp add: out)
  have nl: "1 \<le> length name" using arg(2) by (cases name) auto
  have rl: "16 \<le> PMFS_DIR_REC_LEN (length name)" using REC_LEN_bounds(4)[OF nl] .
  show ?thesis
  proof (cases "rec_live m d")
    case True
    note w = dirent_write_live[OF True room arg(1), of ino, folded m'_def]
    let ?d' = "d + rec_nlen m d"
    have nn: "1 \<le> unat (rd8 m (d + 10))"
      using c(2) True by (cases "unat (rd8 m (d + 10))") (auto simp: rec_ok_def rec_name_def bytes_at_def)
    have k: "rec_nlen m d + PMFS_DIR_REC_LEN (length name) \<le> rec_len m d" "d + rec_len m d \<le> lim"
      "rec_len m d mod 4 = 0" "rec_name m d \<noteq> []"
      using room True c(2) by (simp_all add: has_room_def rec_ok_def)
    have md: "(rec_len m d - rec_nlen m d) mod 4 = 0"
      using k(3) REC_LEN_bounds(3)[of "unat (rd8 m (d + 10))"] by (metis dvd_diff_nat mod_0_imp_dvd dvd_imp_mod_0)
    have ok1: "rec_ok m' lim d"
      using k w nn REC_LEN_bounds(3,4) by (simp add: rec_ok_def)
    have k2: "PMFS_DIR_REC_LEN (length name) \<le> rec_len m d - rec_nlen m d" using k(1) by linarith
    then have "16 \<le> rec_len m d - rec_nlen m d" using rl by (rule order_trans[rotated])
    with k2 have ok2: "rec_ok m' lim ?d'"
      using k w md arg(2) by (simp add: rec_ok_def)
    have e: "?d' + (rec_len m d - rec_nlen m d) = d + rec_len m d" using k(1) by simp
    show ?thesis
      using l r ok1 ok2 w e True arg(3) by (simp add: dir_chain_split rec_live_def)
  next
    case False
    note w = dirent_write_free[OF False arg(1), of ino, folded m'_def]
    have ok: "rec_ok m' lim d"
      using room False c(2) w arg(2) by (simp add: has_room_def rec_ok_def)
    show ?thesis
      using l r ok w False arg(3) by (simp add: dir_chain_split rec_live_def)
  qed
qed


section \<open>Removal\<close>

lemma dirent_unlink_outside:
  assumes "x < d \<or> d + 10 \<le> x" "\<And>p. prev = Some p \<Longrightarrow> x < p \<or> p + 10 \<le> x"
  shows "dirent_unlink d prev m x = m x"
  using assms by (auto simp: dirent_unlink_def wrw_apply_other split: option.splits)

lemma dirent_unlink_first:
  assumes "dir_chain m lim d (d # rs)"
  shows "dir_chain (dirent_unlink d None m) lim d (d # rs) \<and> dir_live (dirent_unlink d None m) (d # rs) = dir_live m rs"
proof -
  let ?m = "dirent_unlink d None m"
  have m': "?m = wr64 d 0 m" by (simp add: dirent_unlink_def)
  have c: "rec_ok m lim d" "dir_chain m lim (d + rec_len m d) rs" using assms by simp_all
  have len: "16 \<le> rec_len m d" using c(1) by (simp add: rec_ok_def)
  have r: "dir_chain ?m lim (d + rec_len m d) rs \<and> dir_live ?m rs = dir_live m rs"
    by (rule dir_chain_agree[OF c(2)]) (use len in \<open>simp add: m' wrw_apply_other\<close>)
  have f: "rd64 ?m d = 0" "rd16 ?m (d + 8) = rd16 m (d + 8)" "rd8 ?m (d + 10) = rd8 m (d + 10)"
    by (simp_all add: m')
  then have "rec_ok ?m lim d" "\<not> rec_live ?m d" using c(1) by (simp_all add: rec_ok_def rec_live_def)
  then show ?thesis using r f by simp
qed

lemma dirent_unlink_next:
  assumes "dir_chain m lim de (rs1 @ p # d # rs2)" "lim \<le> p + 65535"
  shows "dir_chain (dirent_unlink d (Some p) m) lim de (rs1 @ p # rs2)
    \<and> dir_live (dirent_unlink d (Some p) m) (rs1 @ p # rs2) = dir_live m (rs1 @ p # rs2)"
proof -
  let ?m = "dirent_unlink d (Some p) m"
  have c: "dir_chain m p de rs1" "rec_ok m lim p" "d = p + rec_len m p" "rec_ok m lim d"
    "dir_chain m lim (d + rec_len m d) rs2"
    using assms(1) by (auto simp: dir_chain_split)
  have len: "16 \<le> rec_len m p" "16 \<le> rec_len m d" "d + rec_len m d \<le> lim" using c by (auto simp: rec_ok_def)
  have m': "?m = wr16 (p + 8) (rd16 m (p + 8) + rd16 m (d + 8)) m" by (simp add: dirent_unlink_def rd_direntry_def)
  have l: "dir_chain ?m p de rs1 \<and> dir_live ?m rs1 = dir_live m rs1"
    by (rule dir_chain_agree[OF c(1)]) (simp add: m' wrw_apply_other)
  have r: "dir_chain ?m lim (d + rec_len m d) rs2 \<and> dir_live ?m rs2 = dir_live m rs2"
  proof (rule dir_chain_agree[OF c(5)])
    fix x assume "d + rec_len m d \<le> x"
    then show "?m x = m x" unfolding m' using len c(3) by (intro wrw_apply_other) simp
  qed
  have f: "rd64 ?m p = rd64 m p" "rd8 ?m (p + 10) = rd8 m (p + 10)" "rec_live ?m p = rec_live m p"
    "rec_name ?m p = rec_name m p"
    by (simp_all add: m' rec_live_def rec_name_def)
  have fl: "rec_len ?m p = rec_len m p + rec_len m d"
    unfolding m' using assms(2) len(3) c(3) by (simp add: unat_plus_fits)
  have "rec_ok ?m lim p" using c(2,4) len c(3) f fl by (auto simp: rec_ok_def)
  then show ?thesis using l r f fl c(3) by (simp add: dir_chain_split add.assoc)
qed

end
