(* ===== verification/Inode_Place.thy ===== *)
theory Inode_Place
  imports Btree
begin

text \<open>
  Where an inode and its tree lie in memory, relative to the inode table: the invariant under which an
  inode stays where it is and keeps its block map while other pages are written or its tree grows.
\<close>

section \<open>Inodes in place\<close>

text \<open>The pages that \<open>pmfs_get_inode\<close> reads: the first page, with the superblock and the inode of the inode
  table, and the nodes of the table's tree.\<close>

definition table_pages :: "fs \<Rightarrow> nat set" where
  "table_pages s = insert 0 (file_meta (pmfs_get_inode_table s) (mem s))"

definition ino_block :: "fs \<Rightarrow> u64 \<Rightarrow> nat" where
  "ino_block s ino = unat ino div 2 ^ pmfs_inode_blk_shift s (pmfs_get_inode_table s)"

text \<open>\<open>inode_at inode pi s\<close>: the inode is at \<open>pi\<close>, has a well-formed tree, and table, inode and tree do not
  share pages.\<close>

definition inode_at :: "vinode \<Rightarrow> nat \<Rightarrow> fs \<Rightarrow> bool" where
  "inode_at inode pi s \<longleftrightarrow> (let T = pmfs_get_inode_table s in
     file_ctx T s \<and> T + 128 \<le> 4096 \<and> 0 \<notin> file_meta T (mem s)
     \<and> ino_block s (i_ino inode) < 512 ^ unat (pi_height (rd_inode (mem s) T))
     \<and> file_ctx pi s \<and> pi \<noteq> 0 \<and> pmfs_get_inode s (i_ino inode) = Some pi
     \<and> pi div 4096 \<notin> table_pages s \<and> file_meta pi (mem s) \<inter> table_pages s = {})"

lemma inode_map_fields:
  assumes "\<And>x. pi + 2 \<le> x \<Longrightarrow> x < pi + 16 \<Longrightarrow> m' x = m x"
  shows "pi_height (rd_inode m' pi) = pi_height (rd_inode m pi)"
    "pi_blk_type (rd_inode m' pi) = pi_blk_type (rd_inode m pi)"
    "pi_root (rd_inode m' pi) = pi_root (rd_inode m pi)"
  using assms by (auto simp: rd_inode_def intro!: rdw_cong)

lemma file_ctx_frame:
  assumes ctx: "file_ctx pi s"
    and pi: "\<And>x. pi + 2 \<le> x \<Longrightarrow> x < pi + 16 \<Longrightarrow> mem s' x = mem s x"
    and tree: "\<And>x. x div 4096 \<in> file_meta pi (mem s) \<Longrightarrow> mem s' x = mem s x"
    and bal: "balloc_inv s'" "used_blocks s \<subseteq> used_blocks s'"
  shows "file_ctx pi s'" "file_look pi (mem s') = file_look pi (mem s)" "file_meta pi (mem s') = file_meta pi (mem s)"
proof -
  note f = inode_map_fields[of pi "mem s'" "mem s", OF pi]
  let ?i = "rd_inode (mem s) pi" let ?h = "unat (pi_height ?i)"
  have c: "tree_wf ?h (mem s) (pi_root ?i)" "tree_meta ?h (mem s) (pi_root ?i) \<subseteq> used_blocks s"
    "pi div 4096 \<in> used_blocks s" "pi div 4096 \<notin> tree_meta ?h (mem s) (pi_root ?i)" "pi mod 4096 \<le> 3968"
    "pi_root ?i = 0 \<longrightarrow> pi_height ?i = 0" "pi_height ?i \<le> 3" "pi_blk_type ?i \<le> 2"
    using ctx by (auto simp: file_ctx_def tree_ctx_def Let_def)
  have t: "tree_meta ?h (mem s') (pi_root ?i) = tree_meta ?h (mem s) (pi_root ?i)" "tree_wf ?h (mem s') (pi_root ?i)"
    "\<forall>k<512 ^ ?h. tree_look ?h (mem s') (pi_root ?i) k = tree_look ?h (mem s) (pi_root ?i) k"
    using tree_cong[OF c(1), of "mem s'"] tree by (simp_all add: file_meta_def Let_def)
  show "file_ctx pi s'" using c t bal by (auto simp: file_ctx_def tree_ctx_def Let_def f)
  show "file_look pi (mem s') = file_look pi (mem s)" using t(3) by (auto simp: file_look_def Let_def f fun_eq_iff)
  show "file_meta pi (mem s') = file_meta pi (mem s)" using t(1) by (simp add: file_meta_def Let_def f)
qed

lemma get_inode_reads:
  assumes "file_ctx T s" "T = pmfs_get_inode_table s" "ino_block s ino < 512 ^ unat (pi_height (rd_inode (mem s) T))" "ino \<noteq> 0"
  shows "pmfs_get_inode s ino = (let p = file_look T (mem s) (ino_block s ino)
    in Some (if p = 0 then 0 else unat p + unat (ino AND (ucast (pmfs_inode_blk_size s T) - 1))))"
proof -
  let ?i = "rd_inode (mem s) T" let ?h = "unat (pi_height ?i)"
  have h: "?h = 0 \<or> pi_root ?i \<noteq> 0" using assms(1) by (auto simp: file_ctx_def Let_def)
  have k: "unat (drop_bit (pmfs_inode_blk_shift s T) ino) = ino_block s ino"
    by (simp only: ino_block_def unat_drop_bit_div assms(2))
  have "raw_pmfs_find_data_block s T (drop_bit (pmfs_inode_blk_shift s T) ino) = Some (file_look T (mem s) (ino_block s ino))"
    unfolding raw_pmfs_find_data_block_def Let_def file_look_def
    using find_data_block_look[OF _ h, of "drop_bit (pmfs_inode_blk_shift s T) ino" s] assms(3) by (simp add: k)
  then show ?thesis using assms(2,4) by (simp add: pmfs_get_inode_def Let_def)
qed


lemma inode_atD:
  assumes "inode_at inode pi s"
  shows "file_ctx (pmfs_get_inode_table s) s" "pmfs_get_inode_table s + 128 \<le> 4096"
    "0 \<notin> file_meta (pmfs_get_inode_table s) (mem s)"
    "ino_block s (i_ino inode) < 512 ^ unat (pi_height (rd_inode (mem s) (pmfs_get_inode_table s)))"
    "file_ctx pi s" "pi \<noteq> 0" "pmfs_get_inode s (i_ino inode) = Some pi" "pi div 4096 \<notin> table_pages s"
    "file_meta pi (mem s) \<inter> table_pages s = {}" "i_ino inode \<noteq> 0" "table_pages s \<subseteq> used_blocks s"
    "pi div 4096 \<in> used_blocks s" "pi div 4096 \<notin> file_meta pi (mem s)" "pi mod 4096 \<le> 3968"
    "file_meta pi (mem s) \<subseteq> used_blocks s" "balloc_inv s"
proof -
  show a: "file_ctx (pmfs_get_inode_table s) s" "pmfs_get_inode_table s + 128 \<le> 4096"
    "0 \<notin> file_meta (pmfs_get_inode_table s) (mem s)"
    "ino_block s (i_ino inode) < 512 ^ unat (pi_height (rd_inode (mem s) (pmfs_get_inode_table s)))"
    "file_ctx pi s" "pi \<noteq> 0" "pmfs_get_inode s (i_ino inode) = Some pi" "pi div 4096 \<notin> table_pages s"
    "file_meta pi (mem s) \<inter> table_pages s = {}"
    using assms by (simp_all add: inode_at_def Let_def)
  show "i_ino inode \<noteq> 0" using a(6,7) by (auto simp: pmfs_get_inode_def)
  show "pi div 4096 \<in> used_blocks s" "pi div 4096 \<notin> file_meta pi (mem s)" "pi mod 4096 \<le> 3968"
    "file_meta pi (mem s) \<subseteq> used_blocks s" "balloc_inv s"
    using a(5) by (simp_all add: file_ctx_def tree_ctx_def file_meta_def Let_def)
  have "pmfs_get_inode_table s div 4096 = 0" using a(2) by simp
  then have "0 \<in> used_blocks s" "file_meta (pmfs_get_inode_table s) (mem s) \<subseteq> used_blocks s"
    using a(1) by (simp_all add: file_ctx_def tree_ctx_def file_meta_def Let_def)
  then show "table_pages s \<subseteq> used_blocks s" by (simp add: table_pages_def)
qed

text \<open>The table itself is not affected by stores outside its pages.\<close>

lemma table_frame:
  assumes at: "inode_at inode pi s"
    and same: "\<And>x. x div 4096 \<in> table_pages s \<Longrightarrow> mem s' x = mem s x"
    and bal: "balloc_inv s'" "used_blocks s \<subseteq> used_blocks s'"
  shows "pmfs_get_inode_table s' = pmfs_get_inode_table s" "file_ctx (pmfs_get_inode_table s) s'"
    "table_pages s' = table_pages s" "pmfs_get_inode s' (i_ino inode) = Some pi"
    "ino_block s' (i_ino inode) = ino_block s (i_ino inode)"
    "pi_height (rd_inode (mem s') (pmfs_get_inode_table s)) = pi_height (rd_inode (mem s) (pmfs_get_inode_table s))"
    "file_meta (pmfs_get_inode_table s) (mem s') = file_meta (pmfs_get_inode_table s) (mem s)"
proof -
  note a = inode_atD[OF at]
  let ?T = "pmfs_get_inode_table s"
  have lo: "x < 4096 \<Longrightarrow> mem s' x = mem s x" for x by (rule same) (simp add: table_pages_def)
  show T: "pmfs_get_inode_table s' = ?T"
    using rdw_cong[of 40 "mem s'" "mem s", where 'a=64] lo by (simp add: pmfs_get_inode_table_def rd_super_def)
  have b: "\<And>x. ?T + 2 \<le> x \<Longrightarrow> x < ?T + 16 \<Longrightarrow> mem s' x = mem s x" using a(2) lo by simp
  note f = inode_map_fields[of ?T "mem s'" "mem s", OF b, simplified]
  have tr: "\<And>x. x div 4096 \<in> file_meta ?T (mem s) \<Longrightarrow> mem s' x = mem s x" by (rule same) (simp add: table_pages_def)
  note fr = file_ctx_frame[OF a(1) b tr bal, simplified]
  show "file_ctx ?T s'" by (rule fr)
  show "file_meta ?T (mem s') = file_meta ?T (mem s)" by (rule fr)
  show "table_pages s' = table_pages s" by (simp add: table_pages_def T fr)
  show "pi_height (rd_inode (mem s') ?T) = pi_height (rd_inode (mem s) ?T)" by (rule f)
  show ib: "ino_block s' (i_ino inode) = ino_block s (i_ino inode)" by (simp add: ino_block_def pmfs_inode_blk_shift_def T f)
  have "pmfs_inode_blk_size s' ?T = pmfs_inode_blk_size s ?T" by (simp add: pmfs_inode_blk_size_def f)
  then have "pmfs_get_inode s' (i_ino inode) = pmfs_get_inode s (i_ino inode)"
    using get_inode_reads[OF fr(1) T[symmetric], of "i_ino inode", unfolded ib f(1), OF a(4,10)]
    unfolding get_inode_reads[OF a(1) refl a(4,10)] by (simp only: fr(2))
  then show "pmfs_get_inode s' (i_ino inode) = Some pi" using a(7) by simp
qed

lemma inode_at_frame:
  assumes at: "inode_at inode pi s"
    and same: "\<And>x. x div 4096 \<in> table_pages s \<union> file_meta pi (mem s) \<Longrightarrow> mem s' x = mem s x"
      "\<And>x. pi + 2 \<le> x \<Longrightarrow> x < pi + 16 \<Longrightarrow> mem s' x = mem s x"
    and bal: "balloc_inv s'" "used_blocks s \<subseteq> used_blocks s'"
  shows "inode_at inode pi s'" "file_look pi (mem s') = file_look pi (mem s)" "file_meta pi (mem s') = file_meta pi (mem s)"
    "table_pages s' = table_pages s"
proof -
  note a = inode_atD[OF at]
  note t = table_frame[OF at same(1) bal, simplified]
  have tr: "\<And>x. x div 4096 \<in> file_meta pi (mem s) \<Longrightarrow> mem s' x = mem s x" using same(1) by simp
  note p = file_ctx_frame[OF a(5) same(2) tr bal]
  show "file_look pi (mem s') = file_look pi (mem s)" "file_meta pi (mem s') = file_meta pi (mem s)"
    "table_pages s' = table_pages s" using p t(3) by simp_all
  show "inode_at inode pi s'" using a p t by (simp add: inode_at_def Let_def)
qed


lemma inode_page_le: "pi mod 4096 \<le> 3968 \<Longrightarrow> pi \<le> x \<Longrightarrow> x < pi + 128 \<Longrightarrow> x div 4096 = pi div (4096::nat)"
  using inode_page[of pi "x - pi"] by simp

lemma inode_at_grow:
  assumes at: "inode_at inode pi s" and g: "file_grow pi bt lo hi s s'"
  shows "inode_at inode pi s'" "table_pages s' = table_pages s"
proof -
  note a = inode_atD[OF at] and g = file_growD[OF g]
  have slot: "x \<in> map_bytes pi \<Longrightarrow> x div 4096 = pi div 4096" for x
    by (rule inode_page_le[OF a(14)]) (auto simp: map_bytes_def)
  have same: "mem s' x = mem s x" if "x div 4096 \<in> table_pages s" for x
  proof (rule ccontr)
    assume "mem s' x \<noteq> mem s x"
    from g(5)[OF this] have "x div 4096 \<in> file_meta pi (mem s) \<or> x div 4096 \<notin> used_blocks s \<or> x div 4096 = pi div 4096"
      using slot by blast
    then show False using a(8,9,11) that by (metis disjoint_iff subsetD)
  qed
  have bal: "balloc_inv s'" using g(1) by (simp add: file_ctx_def tree_ctx_def Let_def)
  note t = table_frame[OF at same bal g(3), simplified]
  show "table_pages s' = table_pages s" by (rule t)
  have "file_meta pi (mem s') \<inter> table_pages s = {}" using g(4) a(9,11) by blast
  then show "inode_at inode pi s'" using a t g(1) by (simp add: inode_at_def Let_def)
qed

text \<open>Lookup in a file of 4K blocks.\<close>

lemma find_block_4k:
  assumes "inode_at inode pi s" "s_blocksize_bits s = 12" "pi_blk_type (rd_inode (mem s) pi) = 0"
  shows "pmfs_find_data_block inode k s = Some (file_look pi (mem s) (unat k))"
  using find_data_block_file[OF inode_atD(5,6,7)[OF assms(1)], of k] assms(2,3)
  by (simp add: blk_type_to_shift_def Let_def)

section \<open>What growing a file leaves alone\<close>

text \<open>Of the state outside memory only the list of free blocks changes.\<close>

lemma alloc_rest_mem [simp]: "alloc_rest (s\<lparr>mem := m\<rparr>) = alloc_rest s"
  by (simp add: alloc_rest_def)

lemma new_block_frame: "pmfs_new_block bt z s = Some (r, s') \<Longrightarrow> alloc_frame s s'"
proof -
  assume a: "pmfs_new_block bt z s = Some (r, s')"
  obtain r1 ns s1 where l: "new_block_loop (pmfs_get_numblocks bt) (block_inuse_head (sbi s)) s = (r1, ns, s1)"
    by (cases "new_block_loop (pmfs_get_numblocks bt) (block_inuse_head (sbi s)) s")
  have "alloc_frame s1 s'"
    using a by (auto simp: pmfs_new_block_def l Let_def alloc_rest_def split: option.splits if_splits)
  then show ?thesis using new_block_loop_frame(1)[OF l] by simp
qed

lemma new_data_block_frame: "pmfs_new_data_block pi z s = Some (r, s') \<Longrightarrow> alloc_frame s s'"
  by (auto simp: pmfs_new_data_block_def Let_def dest!: new_block_frame split: Option.bind_splits sum.splits)

lemma increase_loop_frame: "increase_loop n p h s = Some (r, p', h', s') \<Longrightarrow> alloc_frame s s'"
  by (induction n p h s arbitrary: r p' h' s' rule: increase_loop.induct)
    (force simp: Let_def dest!: new_block_frame split: Option.bind_splits sum.splits if_splits)+

lemma increase_height_frame: "pmfs_increase_btree_height pi h s = Some (r, s') \<Longrightarrow> alloc_frame s s'"
  by (auto simp: pmfs_increase_btree_height_def Let_def dest!: increase_loop_frame split: Option.bind_splits)

lemma alloc_save_frame: "alloc_save tr node li i nn js s = (js', s') \<Longrightarrow> alloc_frame s s'"
  by (auto simp: alloc_save_def pmfs_add_logentry_def split: if_splits)

lemma recursive_alloc_frame: "recursive_alloc_blocks h tr pi z b lo hi nn s = Some (r, s') \<Longrightarrow> alloc_frame s s'"
proof (induction h arbitrary: b lo hi nn s r s')
  case (Suc h)
  let ?node = "pmfs_get_block s b" and ?li = "blk_index h hi"
  let ?body = "if h = 0 then alloc_leaf tr pi ?node ?li z else alloc_inner (recursive_alloc_blocks h tr pi z) h lo hi tr ?node"
  let ?I = "\<lambda>(r, nn, js, s1). alloc_frame s s1"
  obtain n1 j1 where l: "for_loop ?body [blk_index h lo..<Suc ?li] (Inr (), nn, False, s) = Some (r, n1, j1, s')"
    using Suc.prems by (auto simp: Let_def split: Option.bind_splits if_splits)
  have "?I (r, n1, j1, s')"
  proof (rule for_loop_invariant[OF l, of ?I])
    fix i a a' brk assume I: "?I a" and b: "?body i a = Some (a', brk)"
    obtain r1 n1 j1 s1 r2 n2 j2 s2 where a: "a = (r1, n1, j1, s1)" "a' = (r2, n2, j2, s2)" by (cases a, cases a') auto
    have "alloc_frame s1 s2"
    proof (cases "h = 0")
      case True
      then show ?thesis using b
        by (auto simp: a alloc_leaf_def Let_def dest!: new_data_block_frame alloc_save_frame
            split: if_splits Option.bind_splits sum.splits prod.splits)
    next
      case False
      then show ?thesis using b
        by (auto simp: a alloc_inner_def Let_def dest!: new_block_frame alloc_save_frame Suc.IH
            split: if_splits Option.bind_splits sum.splits prod.splits)
    qed
    then show "?I a'" using I a by simp
  qed simp
  then show ?case by simp
qed simp

lemma alloc_blocks_frame: "raw_pmfs_alloc_blocks tr pi fb num z s = Some (r, s') \<Longrightarrow> alloc_frame s s'"
  by (auto simp: raw_pmfs_alloc_blocks_def Let_def
      dest!: new_data_block_frame increase_height_frame recursive_alloc_frame
      split: if_splits Option.bind_splits sum.splits)

end
