(* ===== verification/Dir_Map.thy ===== *)
theory Dir_Map
  imports Dir_Block Inode_Place
begin

text \<open>
  A directory as a map from names to inode numbers: what \<open>pmfs_inode_by_name\<close>, \<open>pmfs_add_entry\<close> and
  \<open>pmfs_remove_entry\<close> do to a directory of well-formed blocks, through the block map of its inode and the
  block allocator.
\<close>

section \<open>A directory as a map\<close>

text \<open>The address of block \<open>k\<close> of a directory with its inode at \<open>pi\<close>, the number of its blocks, and its
  entries in the order of the blocks.\<close>

definition dir_base :: "nat \<Rightarrow> mem \<Rightarrow> nat \<Rightarrow> nat" where
  "dir_base pi m k = unat (file_look pi m k)"

definition dir_nblocks :: "vinode \<Rightarrow> nat" where
  "dir_nblocks dir = unat (i_size dir) div 4096"

definition dir_blk_list :: "nat \<Rightarrow> mem \<Rightarrow> nat \<Rightarrow> (u8 list \<times> u64) list" where
  "dir_blk_list pi m k = dir_list m (dir_base pi m k) (dir_base pi m k + 4096)"

definition dir_entries :: "nat \<Rightarrow> mem \<Rightarrow> nat \<Rightarrow> (u8 list \<times> u64) list" where
  "dir_entries pi m n = concat (map (dir_blk_list pi m) [0..<n])"

definition dir_map :: "vinode \<Rightarrow> nat \<Rightarrow> fs \<Rightarrow> u8 list \<rightharpoonup> u64" where
  "dir_map dir pi s = map_of (dir_entries pi (mem s) (dir_nblocks dir))"

text \<open>The block at \<open>a\<close> is a page of its own with well-formed records.\<close>

definition dir_page :: "nat \<Rightarrow> fs \<Rightarrow> nat \<Rightarrow> bool" where
  "dir_page pi s a \<longleftrightarrow> 4096 dvd a \<and> dir_ok (mem s) a (a + 4096)
     \<and> a div 4096 \<in> used_blocks s - (table_pages s \<union> file_meta pi (mem s) \<union> {pi div 4096})"

definition dir_ctx :: "vinode \<Rightarrow> nat \<Rightarrow> fs \<Rightarrow> bool" where
  "dir_ctx dir pi s \<longleftrightarrow>
     inode_at dir pi s \<and> s_blocksize s = 4096 \<and> s_blocksize_bits s = 12 \<and> pi_blk_type (rd_inode (mem s) pi) = 0
     \<and> 4096 dvd unat (i_size dir) \<and> (\<forall>k. file_look pi (mem s) k \<noteq> 0 \<longleftrightarrow> k < dir_nblocks dir)
     \<and> (\<forall>k<dir_nblocks dir. dir_page pi s (dir_base pi (mem s) k))
     \<and> inj_on (dir_base pi (mem s)) {..<dir_nblocks dir}
     \<and> distinct (map fst (dir_entries pi (mem s) (dir_nblocks dir)))"

lemma dir_ctxD:
  assumes "dir_ctx dir pi s"
  shows "inode_at dir pi s" "s_blocksize s = 4096" "s_blocksize_bits s = 12" "pi_blk_type (rd_inode (mem s) pi) = 0"
    "4096 dvd unat (i_size dir)" "file_look pi (mem s) k \<noteq> 0 \<longleftrightarrow> k < dir_nblocks dir"
    "k < dir_nblocks dir \<Longrightarrow> dir_page pi s (dir_base pi (mem s) k)"
    "inj_on (dir_base pi (mem s)) {..<dir_nblocks dir}"
    "distinct (map fst (dir_entries pi (mem s) (dir_nblocks dir)))"
  using assms unfolding dir_ctx_def by blast+

lemma dir_nblocks_bound:
  assumes "dir_ctx dir pi s"
  shows "dir_nblocks dir \<le> 2 ^ 27"
proof -
  let ?h = "unat (pi_height (rd_inode (mem s) pi))"
  have "file_ctx pi s" using dir_ctxD(1)[OF assms] by (rule inode_atD)
  then have h: "?h \<le> 3" by (simp add: file_ctx_def Let_def word_le_nat_alt)
  have "file_look pi (mem s) (512 ^ ?h) = 0" by (simp add: file_look_def Let_def)
  then have "dir_nblocks dir \<le> 512 ^ ?h" using dir_ctxD(6)[OF assms, of "512 ^ ?h"] by simp
  also have "\<dots> \<le> 512 ^ 3" using h by (rule power_increasing) simp
  finally show ?thesis by simp
qed

lemma dir_nblocks_word: "s_blocksize_bits s = 12 \<Longrightarrow> unat (drop_bit (s_blocksize_bits s) (i_size dir)) = dir_nblocks dir"
  by (simp add: dir_nblocks_def unat_drop_bit_div)

lemma find_dir_block:
  assumes "dir_ctx dir pi s" "k \<le> dir_nblocks dir"
  shows "pmfs_find_data_block dir (of_nat k) s = Some (file_look pi (mem s) k)"
proof -
  have "k < 2 ^ 64" using assms(2) dir_nblocks_bound[OF assms(1)] by simp
  then have "unat (of_nat k :: u64) = k" by (simp add: unat_of_nat)
  then show ?thesis using find_block_4k[OF dir_ctxD(1,3,4)[OF assms(1)], of "of_nat k"] by simp
qed

lemma dir_base_pos: "dir_ctx dir pi s \<Longrightarrow> k < dir_nblocks dir \<Longrightarrow> 0 < dir_base pi (mem s) k"
  using dir_ctxD(6)[of dir pi s k] by (simp add: dir_base_def unat_gt_0)

lemma unat_of_nat_64: "n < 2 ^ 64 \<Longrightarrow> unat (of_nat n :: u64) = n"
  by (simp add: unat_of_nat)

lemma word_of_nat_unat_id: "of_nat (unat w) = (w :: 'a::len word)"
  by simp

section \<open>Lookup\<close>

lemma search_block_cases:
  assumes "dir_ctx dir pi s" "k < dir_nblocks dir"
  obtains "pmfs_search_dirblock (dir_base pi (mem s) k) name s = Not_found" "name \<notin> fst ` set (dir_blk_list pi (mem s) k)"
  | d prev where "pmfs_search_dirblock (dir_base pi (mem s) k) name s = Found d prev"
      "(name, rd64 (mem s) d) \<in> set (dir_blk_list pi (mem s) k)"
      "rec_live (mem s) d" "d \<in> set (dir_recs (mem s) (dir_base pi (mem s) k + 4096) (dir_base pi (mem s) k))"
proof -
  let ?b = "dir_base pi (mem s) k" and ?m = "mem s"
  let ?rs = "dir_recs ?m (?b + 4096) ?b" and ?P = "\<lambda>d. rec_live ?m d \<and> rec_name ?m d = name"
  have bs: "unat (s_blocksize s) = 4096" using dir_ctxD(2)[OF assms(1)] by simp
  have ch: "dir_chain ?m (?b + 4096) ?b ?rs" using dir_ctxD(7)[OF assms] by (simp add: dir_page_def dir_ok_def)
  show thesis
  proof (cases "\<exists>d\<in>set ?rs. ?P d")
    case True
    then obtain rs1 d rs2 where rs: "?rs = rs1 @ d # rs2" "?P d" "\<forall>d\<in>set rs1. \<not> ?P d"
      by (rule split_list_first_propE)
    have "pmfs_search_dirblock ?b name s = Found d (if rs1 = [] then None else Some (last rs1))"
      unfolding pmfs_search_dirblock_def
      by (rule search_found[where ?rs1.0 = rs1 and ?rs2.0 = rs2]) (use ch rs bs in auto)
    moreover have "(name, rd64 ?m d) \<in> set (dir_blk_list pi ?m k)"
      using rs by (auto simp: dir_blk_list_def dir_list_def)
    ultimately show thesis using that(2) rs by auto
  next
    case False
    have "pmfs_search_dirblock ?b name s = Not_found"
      unfolding pmfs_search_dirblock_def
      by (rule search_not_found[where rs = ?rs]) (use ch False bs in auto)
    moreover have "name \<notin> fst ` set (dir_blk_list pi ?m k)"
      using False by (auto simp: dir_blk_list_def dir_list_def dir_live_def)
    ultimately show thesis by (rule that(1))
  qed
qed

definition scan_result :: "nat \<Rightarrow> mem \<Rightarrow> u8 list \<Rightarrow> nat set \<Rightarrow> (u64 \<times> nat \<times> u64) option + unit \<Rightarrow> bool" where
  "scan_result pi m name ks r \<longleftrightarrow>
     (case r of
        Inr _ \<Rightarrow> (\<forall>k\<in>ks. name \<notin> fst ` set (dir_blk_list pi m k))
      | Inl None \<Rightarrow> False
      | Inl (Some (i, d, b)) \<Rightarrow> i \<noteq> 0 \<and> (\<exists>k\<in>ks. (name, i) \<in> set (dir_blk_list pi m k)))"

lemma by_name_step:
  assumes ctx: "dir_ctx dir pi s" and N: "N \<le> dir_nblocks dir" "k < N" "st < N"
  shows "(\<exists>r. by_name_loop name dir (of_nat N) (of_nat st) (of_nat k) s = Some r \<and> scan_result pi (mem s) name {k} r
        \<and> (r = Inr () \<longrightarrow> (k + 1) mod N = st))
    \<or> name \<notin> fst ` set (dir_blk_list pi (mem s) k) \<and> (k + 1) mod N \<noteq> st
      \<and> by_name_loop name dir (of_nat N) (of_nat st) (of_nat k) s
        = by_name_loop name dir (of_nat N) (of_nat st) (of_nat ((k + 1) mod N)) s"
proof -
  have k: "k < dir_nblocks dir" using N by simp
  have w: "N < 2 ^ 64" using dir_nblocks_bound[OF ctx] N(1) by simp
  have "unat (of_nat k + 1 :: u64) = k + 1" "unat (of_nat N :: u64) = N"
    using N(2) w by (simp_all add: unat_of_nat unat_plus_fits)
  then have "(of_nat k + 1 :: u64) \<ge> of_nat N \<longleftrightarrow> k + 1 \<ge> N" unfolding word_le_nat_alt by simp
  then have nxt: "(if (of_nat k + 1 :: u64) \<ge> of_nat N then 0 else of_nat k + 1) = (of_nat ((k + 1) mod N) :: u64)"
    using N(2) by (cases "k + 1 = N") auto
  have st: "(of_nat ((k + 1) mod N) :: u64) = of_nat st \<longleftrightarrow> (k + 1) mod N = st"
  proof -
    have "(k + 1) mod N < 2 ^ 64" using N(2) w by (intro less_trans[OF mod_less_divisor]) auto
    then have "unat (of_nat ((k + 1) mod N) :: u64) = (k + 1) mod N" by (rule unat_of_nat_64)
    moreover have "unat (of_nat st :: u64) = st" using N(3) w by (intro unat_of_nat_64) simp
    ultimately show ?thesis by metis
  qed
  have f: "pmfs_find_data_block dir (of_nat k) s = Some (file_look pi (mem s) k)"
    using find_dir_block[OF ctx] k by simp
  have b: "pmfs_get_block s (file_look pi (mem s) k) = dir_base pi (mem s) k" "dir_base pi (mem s) k \<noteq> 0"
    using dir_base_pos[OF ctx k] by (simp_all add: dir_base_def)
  show ?thesis
  proof (rule search_block_cases[OF ctx k, of name])
    assume "pmfs_search_dirblock (dir_base pi (mem s) k) name s = Not_found" and n: "name \<notin> fst ` set (dir_blk_list pi (mem s) k)"
    then have "by_name_loop name dir (of_nat N) (of_nat st) (of_nat k) s =
      (if (k + 1) mod N \<noteq> st then by_name_loop name dir (of_nat N) (of_nat st) (of_nat ((k + 1) mod N)) s else Some (Inr ()))"
      by (subst by_name_loop.simps) (simp only: f b(1) Let_def option.case bind.simps nxt st if_False b(2) search_result.case)
    then show ?thesis using n by (auto simp: scan_result_def)
  next
    fix d prev
    assume "pmfs_search_dirblock (dir_base pi (mem s) k) name s = Found d prev"
      and d: "(name, rd64 (mem s) d) \<in> set (dir_blk_list pi (mem s) k)" "rec_live (mem s) d"
    then have "by_name_loop name dir (of_nat N) (of_nat st) (of_nat k) s = Some (Inl (Some (rd64 (mem s) d, d, of_nat k)))"
      by (subst by_name_loop.simps) (simp only: f b(1) Let_def bind.simps if_False b(2) search_result.case rd_direntry_def
          pmfs_direntry.select_convs)
    moreover have "rd64 (mem s) d \<noteq> 0" using d(2) by (simp add: rec_live_def)
    ultimately show ?thesis using d(1) by (auto simp: scan_result_def)
  qed
qed

lemma scan_result_mono:
  "scan_result pi m name ks r \<Longrightarrow> ks \<subseteq> ks' \<Longrightarrow> (r = Inr () \<Longrightarrow> (\<And>k. k \<in> ks' - ks \<Longrightarrow> name \<notin> fst ` set (dir_blk_list pi m k)))
    \<Longrightarrow> scan_result pi m name ks' r"
  by (auto simp: scan_result_def split: sum.splits option.splits)

lemma by_name_loop_scan:
  assumes ctx: "dir_ctx dir pi s"
    and "N \<le> dir_nblocks dir" "k < N" "d < N" "(k + d + 1) mod N = st"
  shows "\<exists>r. by_name_loop name dir (of_nat N) (of_nat st) (of_nat k) s = Some r
    \<and> scan_result pi (mem s) name ((\<lambda>j. (k + j) mod N) ` {..d}) r"
  using assms(2-5)
proof (induction d arbitrary: k)
  case 0
  have st: "st < N" using 0 by auto
  show ?case using by_name_step[OF ctx 0(1,2) st, of name] 0(2,4) by auto
next
  case (Suc d)
  let ?k = "(k + 1) mod N" and ?L = "\<lambda>k. by_name_loop name dir (of_nat N) (of_nat st) (of_nat k) s"
  have st: "st < N" using Suc.prems(2,4) by auto
  have k: "(\<lambda>j. (k + j) mod N) ` {..Suc d} = insert k ((\<lambda>j. (?k + j) mod N) ` {..d})"
    using Suc.prems(2) by (simp add: atMost_Suc_eq_insert_0 image_image mod_simps)
  have ne: "?k \<noteq> st"
  proof
    assume "?k = st"
    then have "(k + 1) mod N = (k + Suc d + 1) mod N" using Suc.prems(4) by simp
    then have "N dvd Suc d" using mod_eq_dvd_iff_nat[of "k + 1" "k + Suc d + 1" N] by simp
    then show False using Suc.prems(3) by (auto dest: dvd_imp_le)
  qed
  from by_name_step[OF ctx Suc.prems(1,2) st, of name] show ?case
  proof (elim disjE exE conjE)
    fix r assume r: "?L k = Some r" "scan_result pi (mem s) name {k} r" "r = Inr () \<longrightarrow> ?k = st"
    then have "scan_result pi (mem s) name ((\<lambda>j. (k + j) mod N) ` {..Suc d}) r"
      using ne by (intro scan_result_mono[OF r(2)]) (auto simp: k)
    then show ?thesis using r(1) by blast
  next
    assume n: "name \<notin> fst ` set (dir_blk_list pi (mem s) k)" and e: "?L k = ?L ?k"
    have "(?k + (d + 1)) mod N = (k + 1 + (d + 1)) mod N" by (rule mod_add_left_eq)
    also have "k + 1 + (d + 1) = k + Suc d + 1" by simp
    finally have "(?k + d + 1) mod N = st" using Suc.prems(4) by (simp only: add.assoc)
    from Suc.IH[OF Suc.prems(1) _ _ this] Suc.prems(2,3)
    obtain r where r: "?L ?k = Some r" "scan_result pi (mem s) name ((\<lambda>j. (?k + j) mod N) ` {..d}) r" by auto
    have "scan_result pi (mem s) name ((\<lambda>j. (k + j) mod N) ` {..Suc d}) r"
      by (rule scan_result_mono[OF r(2)]) (use n in \<open>auto simp: k\<close>)
    then show ?thesis using r(1) e by auto
  qed
qed


lemma dir_entries_mem: "(name, i) \<in> set (dir_entries pi m n) \<longleftrightarrow> (\<exists>k<n. (name, i) \<in> set (dir_blk_list pi m k))"
  by (auto simp: dir_entries_def)

lemma scan_result_map:
  assumes ctx: "dir_ctx dir pi s" and r: "scan_result pi (mem s) name {..<dir_nblocks dir} r"
  shows "(case r of Inl (Some (i, _)) \<Rightarrow> i | _ \<Rightarrow> 0) = (case dir_map dir pi s name of Some i \<Rightarrow> i | None \<Rightarrow> 0)"
    "r \<noteq> Inl None"
proof -
  let ?E = "dir_entries pi (mem s) (dir_nblocks dir)"
  show "r \<noteq> Inl None" using r by (auto simp: scan_result_def)
  show "(case r of Inl (Some (i, _)) \<Rightarrow> i | _ \<Rightarrow> 0) = (case dir_map dir pi s name of Some i \<Rightarrow> i | None \<Rightarrow> 0)"
  proof (cases r)
    case (Inr u)
    then have "name \<notin> fst ` set ?E" using r by (force simp: scan_result_def dir_entries_def)
    then have "dir_map dir pi s name = None" by (simp add: dir_map_def map_of_eq_None_iff)
    then show ?thesis using Inr by simp
  next
    case (Inl x)
    then obtain i d b where x: "r = Inl (Some (i, d, b))" using r by (cases x) (auto simp: scan_result_def)
    then have "(name, i) \<in> set ?E" using r by (auto simp: scan_result_def dir_entries_mem)
    then have "dir_map dir pi s name = Some i" using dir_ctxD(9)[OF ctx] by (simp add: dir_map_def)
    then show ?thesis using x by simp
  qed
qed

lemma mod_range_all:
  assumes "0 < (n::nat)"
  shows "(\<lambda>j. (k + j) mod n) ` {..n - 1} = {..<n}"
proof
  show "(\<lambda>j. (k + j) mod n) ` {..n - 1} \<subseteq> {..<n}" using assms by auto
  show "{..<n} \<subseteq> (\<lambda>j. (k + j) mod n) ` {..n - 1}"
  proof
    fix x assume x: "x \<in> {..<n}"
    let ?j = "(x + n - k mod n) mod n"
    have "(k + ?j) mod n = (k mod n + (x + n - k mod n)) mod n" by (simp add: mod_simps)
    also have "k mod n + (x + n - k mod n) = x + n" using mod_less_divisor[OF assms, of k] by simp
    finally have "x = (k + ?j) mod n" using x by simp
    moreover have "?j \<le> n - 1" using mod_less_divisor[OF assms, of "x + n - k mod n"] by linarith
    ultimately show "x \<in> (\<lambda>j. (k + j) mod n) ` {..n - 1}" by blast
  qed
qed

lemma by_name_loop_hole:
  assumes "dir_ctx dir pi s" "dir_nblocks dir = 0"
  shows "by_name_loop name dir nblocks start 0 s = Some (Inl None)"
proof -
  have "pmfs_find_data_block dir 0 s = Some 0"
    using find_dir_block[OF assms(1), of 0] dir_ctxD(6)[OF assms(1), of 0] assms(2) by simp
  then show ?thesis by (subst by_name_loop.simps) simp
qed


lemma dir_entries_short: "(name, i) \<in> set (dir_entries pi m n) \<Longrightarrow> length name \<le> 255"
proof -
  have "unat (b :: u8) \<le> 255" for b using unat_less_size[of b] by simp
  then show "(name, i) \<in> set (dir_entries pi m n) \<Longrightarrow> length name \<le> 255"
    by (auto simp: dir_entries_def dir_blk_list_def dir_list_def dir_live_def rec_name_def)
qed

text \<open>The search of \<open>pmfs_inode_by_name\<close> before it unpacks the result: it covers all blocks of the directory,
  whatever block it starts from.\<close>

lemma by_name_scan_from:
  assumes ctx: "dir_ctx dir pi s" "st < dir_nblocks dir"
  shows "\<exists>r. by_name_loop name dir (of_nat (dir_nblocks dir)) (of_nat st) (of_nat st) s = Some r
    \<and> scan_result pi (mem s) name {..<dir_nblocks dir} r"
proof -
  let ?n = "dir_nblocks dir"
  have "(st + (?n - 1) + 1) mod ?n = st" using assms(2) by simp
  from by_name_loop_scan[OF ctx(1) order_refl assms(2) _ this, of name] mod_range_all[of ?n st] assms(2)
  show ?thesis by auto
qed

lemma by_name_scan_dots:
  assumes ctx: "dir_ctx dir pi s" "0 < dir_nblocks dir"
  shows "\<exists>r. by_name_loop name dir 1 0 0 s = Some r
    \<and> (if r = Inr () \<and> 1 < dir_nblocks dir
       then \<exists>r2. by_name_loop name dir (of_nat (dir_nblocks dir)) 0 1 s = Some r2 \<and> scan_result pi (mem s) name {..<dir_nblocks dir} r2
       else scan_result pi (mem s) name {..<dir_nblocks dir} r)"
proof -
  let ?n = "dir_nblocks dir"
  obtain r where r: "by_name_loop name dir 1 0 0 s = Some r" "scan_result pi (mem s) name {0} r"
    using by_name_loop_scan[OF ctx(1), of 1 0 0 0 name] assms(2) by auto
  show ?thesis
  proof (cases "r = Inr () \<and> 1 < ?n")
    case True
    have "1 + (?n - 2) + 1 = ?n" using True by linarith
    then have "(1 + (?n - 2) + 1) mod ?n = 0" by simp
    from by_name_loop_scan[OF ctx(1) order_refl _ _ this, of name] True
    obtain r2 where r2: "by_name_loop name dir (of_nat ?n) 0 1 s = Some r2"
      "scan_result pi (mem s) name ((\<lambda>j. (1 + j) mod ?n) ` {..?n - 2}) r2" by auto
    have img: "(\<lambda>j. (1 + j) mod ?n) ` {..?n - 2} = {1..<?n}"
    proof -
      have "(\<lambda>j. (1 + j) mod ?n) ` {..?n - 2} = Suc ` {..?n - 2}" using True by (intro image_cong) auto
      also have "\<dots> = {1..<?n}" using True by (simp add: image_Suc_atMost) auto
      finally show ?thesis .
    qed
    have "name \<notin> fst ` set (dir_blk_list pi (mem s) 0)" using True r(2) by (simp add: scan_result_def)
    then have "scan_result pi (mem s) name {..<?n} r2"
      using r2(2) unfolding img by (rule_tac scan_result_mono) (auto simp: not_less_eq_eq)
    then show ?thesis using r(1) r2(1) True by simp
  next
    case False
    then have "scan_result pi (mem s) name {..<?n} r"
      using assms(2) by (intro scan_result_mono[OF r(2)]) auto
    then show ?thesis using r(1) False by auto
  qed
qed

lemma nblocks_word:
  assumes "dir_ctx dir pi s"
  shows "drop_bit (s_blocksize_bits s) (i_size dir) = of_nat (dir_nblocks dir)"
  using dir_nblocks_word[OF dir_ctxD(3)[OF assms], of dir] by (metis word_of_nat_unat_id)


lemma inode_by_name_map:
  assumes ctx: "dir_ctx dir pi s"
  shows "\<exists>res dir'. pmfs_inode_by_name name dir s = Some (case dir_map dir pi s name of Some i \<Rightarrow> i | None \<Rightarrow> 0, res, dir')
    \<and> dir'\<lparr>i_dir_start_lookup := i_dir_start_lookup dir\<rparr> = dir"
proof -
  let ?n = "dir_nblocks dir" and ?M = "dir_map dir pi s name"
  define fin :: "(u64 \<times> nat \<times> u64) option + unit \<Rightarrow> u64 \<times> nat option \<times> vinode" where "fin = (\<lambda>r. case r of
      Inl (Some (ino, res, block)) \<Rightarrow> (ino, Some res, dir\<lparr>i_dir_start_lookup := ucast block\<rparr>) | _ \<Rightarrow> (0, None, dir))"
  define st where "st = (if unat (i_dir_start_lookup dir) < ?n then unat (i_dir_start_lookup dir) else 0)"
  have fin: "\<exists>res dir'. fin r = (case ?M of Some i \<Rightarrow> i | None \<Rightarrow> 0, res, dir') \<and> dir'\<lparr>i_dir_start_lookup := i_dir_start_lookup dir\<rparr> = dir"
    if "scan_result pi (mem s) name {..<?n} r" for r
    using scan_result_map[OF ctx that] by (cases r) (auto simp: fin_def split: option.splits)
  note nb = nblocks_word[OF ctx]
  have w: "?n < 2 ^ 64" using dir_nblocks_bound[OF ctx] by simp
  have lk: "unat (ucast (i_dir_start_lookup dir) :: u64) = unat (i_dir_start_lookup dir)"
    using unat_less_size[of "i_dir_start_lookup dir"] by (subst unat_ucast_fits) auto
  have st: "(if ucast (i_dir_start_lookup dir) \<ge> (of_nat ?n :: u64) then 0 else ucast (i_dir_start_lookup dir)) = (of_nat st :: u64)"
  proof -
    have ge: "ucast (i_dir_start_lookup dir) \<ge> (of_nat ?n :: u64) \<longleftrightarrow> \<not> unat (i_dir_start_lookup dir) < ?n"
      by (simp only: word_le_nat_alt lk unat_of_nat_64[OF w] not_less)
    have uc: "(ucast (i_dir_start_lookup dir) :: u64) = of_nat (unat (i_dir_start_lookup dir))"
      by (metis lk word_of_nat_unat_id)
    show ?thesis unfolding ge st_def
      by (cases "unat (i_dir_start_lookup dir) < ?n")
        (simp_all only: uc if_True if_False not_True_eq_False not_False_eq_True, simp)
  qed
  have by_name: "pmfs_inode_by_name name dir s = (if length name > 255 then Some (0, None, dir)
     else if is_dots name then do {
       r \<leftarrow> by_name_loop name dir 1 0 0 s;
       if r = Inr () \<and> 1 < (of_nat ?n :: u64) then do { r2 \<leftarrow> by_name_loop name dir (of_nat ?n) 0 1 s; Some (fin r2) } else Some (fin r) }
     else do { r \<leftarrow> by_name_loop name dir (of_nat ?n) (of_nat st) (of_nat st) s; Some (fin r) })"
    unfolding pmfs_inode_by_name_def Let_def nb fin_def by (simp add: st)
  have one: "1 < (of_nat ?n :: u64) \<longleftrightarrow> 1 < ?n" by (simp add: word_less_nat_alt unat_of_nat_64[OF w])
  consider "length name > 255" | "length name \<le> 255" "?n = 0" | "length name \<le> 255" "0 < ?n" by linarith
  then show ?thesis
  proof cases
    case 1
    then have "?M = None" using dir_entries_short by (fastforce simp: dir_map_def map_of_eq_None_iff)
    then show ?thesis using 1 by (simp add: by_name)
  next
    case 2
    then have "?M = None" "st = 0" by (simp_all add: dir_map_def dir_entries_def st_def)
    then show ?thesis using 2 by (simp add: by_name by_name_loop_hole[OF ctx] fin_def)
  next
    case 3
    show ?thesis
    proof (cases "is_dots name")
      case True
      then show ?thesis
        using by_name_scan_dots[OF ctx 3(2), of name] 3(1) fin by (fastforce simp: by_name one split: if_splits)
    next
      case False
      have "st < ?n" using 3(2) by (simp add: st_def)
      then show ?thesis using by_name_scan_from[OF ctx, of st name] 3(1) False fin by (fastforce simp: by_name)
    qed
  qed
qed

section \<open>Changing one block\<close>

lemma dir_ok_agree:
  assumes "dir_ok m a l" "\<And>x. a \<le> x \<Longrightarrow> x < l \<Longrightarrow> m' x = m x"
  shows "dir_ok m' a l \<and> dir_list m' a l = dir_list m a l"
proof -
  have "dir_chain m' l a (dir_recs m l a) \<and> dir_live m' (dir_recs m l a) = dir_live m (dir_recs m l a)"
    using dir_chain_agree[of m l a "dir_recs m l a" m'] assms by (simp add: dir_ok_def)
  then show ?thesis using dir_chain_dir[of m' l a "dir_recs m l a"] by (simp add: dir_list_def)
qed

lemma page_bytes: "4096 dvd (a::nat) \<Longrightarrow> a \<le> x \<Longrightarrow> x < a + 4096 \<Longrightarrow> x div 4096 = a div 4096"
  by (auto elim!: dvdE)

lemma page_of: "4096 dvd (a::nat) \<Longrightarrow> x div 4096 = a div 4096 \<Longrightarrow> a \<le> x \<and> x < a + 4096"
  by (auto elim!: dvdE)

lemma inode_at_ino: "i_ino inode' = i_ino inode \<Longrightarrow> inode_at inode' pi s = inode_at inode pi s"
  by (simp add: inode_at_def)

lemma dir_blk_frame:
  assumes "dir_page pi s (dir_base pi (mem s) k)" "file_look pi m' k = file_look pi (mem s) k"
    "\<And>x. x div 4096 = dir_base pi (mem s) k div 4096 \<Longrightarrow> m' x = mem s x"
  shows "dir_base pi m' k = dir_base pi (mem s) k" "dir_blk_list pi m' k = dir_blk_list pi (mem s) k"
    "dir_ok m' (dir_base pi (mem s) k) (dir_base pi (mem s) k + 4096)"
proof -
  let ?a = "dir_base pi (mem s) k"
  show b: "dir_base pi m' k = ?a" by (simp add: dir_base_def assms(2))
  have p: "4096 dvd ?a" "dir_ok (mem s) ?a (?a + 4096)" using assms(1) by (simp_all add: dir_page_def)
  have "dir_ok m' ?a (?a + 4096) \<and> dir_list m' ?a (?a + 4096) = dir_list (mem s) ?a (?a + 4096)"
  proof (rule dir_ok_agree[OF p(2)])
    fix x assume "?a \<le> x" "x < ?a + 4096"
    from page_bytes[OF p(1) this] show "m' x = mem s x" by (rule assms(3))
  qed
  then show "dir_blk_list pi m' k = dir_blk_list pi (mem s) k" "dir_ok m' ?a (?a + 4096)"
    by (simp_all add: dir_blk_list_def b)
qed

lemma dir_base_pages:
  assumes "dir_ctx dir pi s" "k < dir_nblocks dir" "l < dir_nblocks dir" "k \<noteq> l"
  shows "dir_base pi (mem s) k div 4096 \<noteq> dir_base pi (mem s) l div 4096"
proof
  assume e: "dir_base pi (mem s) k div 4096 = dir_base pi (mem s) l div 4096"
  have "4096 dvd dir_base pi (mem s) k" "4096 dvd dir_base pi (mem s) l"
    using dir_ctxD(7)[OF assms(1)] assms(2,3) by (simp_all add: dir_page_def)
  then have "dir_base pi (mem s) k = dir_base pi (mem s) l" using e by (metis dvd_div_mult_self)
  then show False using inj_onD[OF dir_ctxD(8)[OF assms(1)]] assms(2-4) by simp
qed

lemma upt_split_at: "k < n \<Longrightarrow> [0..<n] = [0..<k] @ k # [Suc k..<n]"
  using upt_add_eq_append[of 0 k "n - k"] upt_conv_Cons[of k n] by simp

lemma dir_block_update:
  fixes m' :: mem
  assumes ctx: "dir_ctx dir pi s" and k: "k < dir_nblocks dir"
    and a: "a = dir_base pi (mem s) k"
    and same: "\<And>x. m' x \<noteq> mem s x \<Longrightarrow> x div 4096 = a div 4096 \<or> pi + 16 \<le> x \<and> x < pi + 40"
    and ok: "dir_ok m' a (a + 4096)"
    and E: "E = concat (map (dir_blk_list pi (mem s)) [0..<k]) @ dir_list m' a (a + 4096)
      @ concat (map (dir_blk_list pi (mem s)) [Suc k..<dir_nblocks dir])"
    and dist: "distinct (map fst E)"
    and dir': "i_ino dir' = i_ino dir" "i_size dir' = i_size dir"
  shows "dir_ctx dir' pi (s\<lparr>mem := m'\<rparr>) \<and> dir_entries pi m' (dir_nblocks dir') = E"
proof -
  note at = dir_ctxD(1)[OF ctx] and D = dir_ctxD[OF ctx]
  note A = inode_atD[OF at]
  let ?s = "s\<lparr>mem := m'\<rparr>" and ?n = "dir_nblocks dir"
  have n': "dir_nblocks dir' = ?n" by (simp add: dir_nblocks_def dir')
  have pg: "dir_page pi s (dir_base pi (mem s) j)" if "j < ?n" for j using D(7)[OF that] .
  have pi_pg: "x div 4096 = pi div 4096" if "pi + 16 \<le> x" "x < pi + 40" for x
    by (rule inode_page_le[OF A(14)]) (use that in auto)
  have ak: "a div 4096 \<notin> table_pages s \<union> file_meta pi (mem s) \<union> {pi div 4096}" using pg[OF k] a by (simp add: dir_page_def)
  have meta: "m' x = mem s x" if "x div 4096 \<in> table_pages s \<union> file_meta pi (mem s)" for x
    using same[of x] that ak pi_pg[of x] A(8,13) by (cases "m' x = mem s x") auto
  have ino: "m' x = mem s x" if "pi + 2 \<le> x" "x < pi + 16" for x
  proof (rule ccontr)
    assume "m' x \<noteq> mem s x"
    from same[OF this] that have "x div 4096 = a div 4096" by auto
    moreover have "x div 4096 = pi div 4096" by (rule inode_page_le[OF A(14)]) (use that in auto)
    ultimately show False using ak by simp
  qed
  have look: "file_look pi m' = file_look pi (mem s)" and at': "inode_at dir pi ?s"
    and fm: "file_meta pi m' = file_meta pi (mem s)" "table_pages ?s = table_pages s"
    using inode_at_frame[OF at, of ?s] meta ino A(16) by auto
  have oth: "m' x = mem s x" if "j < ?n" "j \<noteq> k" "x div 4096 = dir_base pi (mem s) j div 4096" for j x
    using same[of x] pi_pg[of x] dir_base_pages[OF ctx that(1) k that(2)] that(3) pg[OF that(1)] a
    by (cases "m' x = mem s x") (auto simp: dir_page_def)
  have fr: "dir_base pi m' j = dir_base pi (mem s) j \<and> dir_blk_list pi m' j = dir_blk_list pi (mem s) j
      \<and> dir_ok m' (dir_base pi (mem s) j) (dir_base pi (mem s) j + 4096)" if "j < ?n" "j \<noteq> k" for j
    using dir_blk_frame[OF pg[OF that(1)], of m'] oth[OF that] look by simp
  have base: "dir_base pi m' j = dir_base pi (mem s) j" for j by (simp add: dir_base_def look)
  have mm: "map (dir_blk_list pi m') [0..<k] = map (dir_blk_list pi (mem s)) [0..<k]"
    "map (dir_blk_list pi m') [Suc k..<?n] = map (dir_blk_list pi (mem s)) [Suc k..<?n]"
    using fr k by (auto intro!: map_cong)
  have "dir_entries pi m' ?n = E"
    unfolding dir_entries_def E upt_split_at[OF k] map_append list.map mm
    by (simp add: dir_blk_list_def[of pi m' k] base a)
  moreover have "dir_page pi ?s (dir_base pi m' j)" if "j < ?n" for j
    using pg[OF that] fr[OF that] ok a by (cases "j = k") (auto simp: dir_page_def fm base)
  moreover have inj: "inj_on (dir_base pi m') {..<?n}" using D(8) base by (simp add: inj_on_def)
  moreover have "pi_blk_type (rd_inode m' pi) = 0" using inode_map_fields(2)[of pi m' "mem s"] ino D(4) by auto
  ultimately show ?thesis
    using at' D(2,3,5,6) dist n' dir' inj by (simp add: dir_ctx_def look inode_at_ino[OF dir'(1)])
qed

section \<open>Adding and removing entries\<close>

definition inserted :: "(u8 list \<times> u64) list \<Rightarrow> u8 list \<Rightarrow> u64 \<Rightarrow> (u8 list \<times> u64) list \<Rightarrow> bool" where
  "inserted E name ino E' \<longleftrightarrow> (\<exists>A B. E = A @ B \<and> E' = A @ (name, ino) # B)"

lemma inserted_map:
  assumes "inserted E name ino E'" "name \<notin> fst ` set E" "distinct (map fst E)"
  shows "map_of E' = (map_of E)(name \<mapsto> ino)" "distinct (map fst E')"
proof -
  obtain A B where E: "E = A @ B" "E' = A @ (name, ino) # B" using assms(1) by (auto simp: inserted_def)
  have "name \<notin> dom (map_of A)" "name \<notin> dom (map_of B)" using assms(2) by (auto simp: E dom_map_of_conv_image_fst image_Un)
  then show "map_of E' = (map_of E)(name \<mapsto> ino)"
    by (auto simp: E map_add_def fun_eq_iff domIff split: option.splits)
  show "distinct (map fst E')" using assms(2,3) by (auto simp: E)
qed

lemma inserted_context: "inserted E name ino E' \<Longrightarrow> inserted (A @ E @ B) name ino (A @ E' @ B)"
  unfolding inserted_def by (metis append.assoc append_Cons)

lemma dir_chain_end: "dir_chain m lim de rs \<Longrightarrow> d \<in> set rs \<Longrightarrow> de \<le> d \<and> d + rec_len m d \<le> lim"
  using dir_chain_mem[of m lim de rs d] by (auto simp: rec_ok_def)

text \<open>\<open>pmfs_add_dirent_to_buf\<close> on a well-formed block.\<close>

definition add_result :: "nat \<Rightarrow> nat \<Rightarrow> u8 list \<Rightarrow> u64 \<Rightarrow> vinode \<Rightarrow> fs \<Rightarrow> vinode \<Rightarrow> mem \<Rightarrow> bool" where
  "add_result pi a name ino dir s dir' m' \<longleftrightarrow>
     dir_ok m' a (a + 4096) \<and> inserted (dir_list (mem s) a (a + 4096)) name ino (dir_list m' a (a + 4096))
     \<and> (\<forall>x. m' x \<noteq> mem s x \<longrightarrow> a \<le> x \<and> x < a + 4096 \<or> pi + 24 \<le> x \<and> x < pi + 32)
     \<and> i_ino dir' = i_ino dir \<and> i_size dir' = i_size dir \<and> i_blocks dir' = i_blocks dir"

lemma dirent_add_ok:
  assumes rs: "dir_chain (mem s) (a + 4096) a (rs1 @ d # rs2)"
    and room: "has_room (mem s) (PMFS_DIR_REC_LEN (length name)) d"
    and arg: "length name \<le> 255" "name \<noteq> []" "ino \<noteq> 0"
    and pi: "pi + 32 \<le> a \<or> a + 4096 \<le> pi"
    and m': "m' = wr32 (pi + 24) c (wr32 (pi + 28) t (dirent_write name ino d (mem s)))"
    and dir': "i_ino dir' = i_ino dir" "i_size dir' = i_size dir" "i_blocks dir' = i_blocks dir"
  shows "add_result pi a name ino dir s dir' m'"
proof -
  let ?m1 = "dirent_write name ino d (mem s)"
  let ?rs' = "rs1 @ (if rec_live (mem s) d then [d, d + rec_nlen (mem s) d] else [d]) @ rs2"
  have w: "dir_chain ?m1 (a + 4096) a ?rs'"
    "dir_live ?m1 ?rs' = dir_live (mem s) rs1 @ dir_live (mem s) [d] @ (name, ino) # dir_live (mem s) rs2"
    using dirent_write_chain[OF rs room arg] by auto
  have "dir_chain m' (a + 4096) a ?rs' \<and> dir_live m' ?rs' = dir_live ?m1 ?rs'"
    by (rule dir_chain_agree[OF w(1)]) (use pi in \<open>auto simp: m' wrw_apply_other\<close>)
  then have ok: "dir_ok m' a (a + 4096)" and l: "dir_list m' a (a + 4096) = dir_live ?m1 ?rs'"
    using dir_chain_dir[of m' "a + 4096" a ?rs'] by auto
  have l0: "dir_list (mem s) a (a + 4096) = dir_live (mem s) rs1 @ dir_live (mem s) [d] @ dir_live (mem s) rs2"
    using dir_chain_dir(2)[OF rs] by simp
  have ins: "inserted (dir_list (mem s) a (a + 4096)) name ino (dir_list m' a (a + 4096))"
    unfolding inserted_def l l0 w(2)
    by (rule exI[of _ "dir_live (mem s) rs1 @ dir_live (mem s) [d]"], rule exI[of _ "dir_live (mem s) rs2"]) simp
  have d: "a \<le> d" "d + rec_len (mem s) d \<le> a + 4096" using dir_chain_end[OF rs, of d] by auto
  have "a \<le> x \<and> x < a + 4096 \<or> pi + 24 \<le> x \<and> x < pi + 32" if "m' x \<noteq> mem s x" for x
  proof (rule ccontr)
    assume n: "\<not> ?thesis"
    then have "m' x = ?m1 x" by (auto simp: m' wrw_apply_other)
    also have "\<dots> = mem s x" using n d by (intro dirent_write_outside[OF room]) auto
    finally show False using that by simp
  qed
  then show ?thesis using ok ins dir' by (simp add: add_result_def)
qed

definition block_room :: "mem \<Rightarrow> u8 list \<Rightarrow> nat \<Rightarrow> bool" where
  "block_room m name a \<longleftrightarrow> (\<exists>d\<in>set (dir_recs m (a + 4096) a). has_room m (PMFS_DIR_REC_LEN (length name)) d)"

lemma add_to_block:
  assumes bs: "s_blocksize s = 4096" and ok: "dir_ok (mem s) a (a + 4096)"
    and arg: "length name \<le> 255" "name \<noteq> []" "i_ino i \<noteq> 0" and pi: "pi + 32 \<le> a \<or> a + 4096 \<le> pi"
  obtains "pmfs_add_dirent_to_buf tr name (Some i) None a pi dir s = Some (Inl ENOSPC, dir, s)" "\<not> block_room (mem s) name a"
  | dir' m' where "pmfs_add_dirent_to_buf tr name (Some i) None a pi dir s = Some (Inr (), dir', s\<lparr>mem := m'\<rparr>)"
      "add_result pi a name (i_ino i) dir s dir' m'"
proof -
  let ?m = "mem s" and ?l = "a + 4096" and ?r = "PMFS_DIR_REC_LEN (length name)"
  let ?rs = "dir_recs ?m ?l a"
  have ch: "dir_chain ?m ?l a ?rs" using ok by (simp add: dir_ok_def)
  have r: "0 < ?r" "?r \<le> ?l" using REC_LEN_bounds(1,2)[of "length name"] arg(1) by auto
  have u: "a + unat (s_blocksize s) - ?r = ?l - ?r" using bs by simp
  show thesis
  proof (cases "\<exists>d\<in>set ?rs. has_room ?m ?r d")
    case False
    then obtain d where "find_room (?l - ?r) ?r a ?m = Some d" "d > ?l - ?r"
      using find_room_none[OF ch r] by blast
    then have "pmfs_add_dirent_to_buf tr name (Some i) None a pi dir s = Some (Inl ENOSPC, dir, s)"
      by (simp add: pmfs_add_dirent_to_buf_def Let_def bs)
    then show thesis by (rule that(1)) (use False in \<open>simp add: block_room_def\<close>)
  next
    case True
    then obtain rs1 d rs2 where rs: "?rs = rs1 @ d # rs2" "has_room ?m ?r d" "\<forall>d\<in>set rs1. \<not> has_room ?m ?r d"
      by (rule split_list_first_propE)
    note ch' = ch[unfolded rs(1)]
    have f: "find_room (?l - ?r) ?r a ?m = Some d" "\<not> d > ?l - ?r"
      using find_room_first[OF ch' r rs(2)] rs(3) by auto
    let ?dir = "dir\<lparr>i_mtime := now s, i_ctime := now s\<rparr>"
    let ?m' = "wr32 (pi + 24) (now s) (wr32 (pi + 28) (now s) (dirent_write name (i_ino i) d ?m))"
    have "pmfs_add_dirent_to_buf tr name (Some i) None a pi dir s = Some (Inr (), ?dir, s\<lparr>mem := ?m'\<rparr>)"
      using f by (simp add: pmfs_add_dirent_to_buf_def Let_def bs pmfs_add_logentry_def)
    moreover have "add_result pi a name (i_ino i) dir s ?dir ?m'"
      by (rule dirent_add_ok[OF ch' rs(2) arg pi refl]) simp_all
    ultimately show thesis by (rule that(2))
  qed
qed

lemma added_ctx:
  assumes ctx: "dir_ctx dir pi s" and k: "k < dir_nblocks dir"
    and R: "add_result pi (dir_base pi (mem s) k) name ino dir s dir' m'"
    and new: "dir_map dir pi s name = None"
  shows "dir_ctx dir' pi (s\<lparr>mem := m'\<rparr>)" "dir_map dir' pi (s\<lparr>mem := m'\<rparr>) = (dir_map dir pi s)(name \<mapsto> ino)"
proof -
  let ?a = "dir_base pi (mem s) k" and ?n = "dir_nblocks dir"
  let ?A = "concat (map (dir_blk_list pi (mem s)) [0..<k])" and ?B = "concat (map (dir_blk_list pi (mem s)) [Suc k..<dir_nblocks dir])"
  let ?E = "?A @ dir_list m' ?a (?a + 4096) @ ?B"
  have al: "4096 dvd ?a" using dir_ctxD(7)[OF ctx k] by (simp add: dir_page_def)
  have r: "dir_ok m' ?a (?a + 4096)" "inserted (dir_blk_list pi (mem s) k) name ino (dir_list m' ?a (?a + 4096))"
    "i_ino dir' = i_ino dir" "i_size dir' = i_size dir"
    using R by (simp_all add: add_result_def dir_blk_list_def)
  have same: "x div 4096 = ?a div 4096 \<or> pi + 16 \<le> x \<and> x < pi + 40" if "m' x \<noteq> mem s x" for x
    using R that page_bytes[OF al, of x] by (auto simp: add_result_def)
  have e: "dir_entries pi (mem s) ?n = ?A @ dir_blk_list pi (mem s) k @ ?B"
    by (simp add: dir_entries_def upt_split_at[OF k])
  have ins: "inserted (dir_entries pi (mem s) ?n) name ino ?E" unfolding e by (rule inserted_context[OF r(2)])
  have "name \<notin> fst ` set (dir_entries pi (mem s) ?n)" using new by (simp add: dir_map_def map_of_eq_None_iff)
  note m = inserted_map[OF ins this dir_ctxD(9)[OF ctx]]
  have u: "dir_ctx dir' pi (s\<lparr>mem := m'\<rparr>) \<and> dir_entries pi m' (dir_nblocks dir') = ?E"
    by (rule dir_block_update[OF ctx k refl same r(1) refl m(2) r(3,4)])
  then show "dir_ctx dir' pi (s\<lparr>mem := m'\<rparr>)" by simp
  show "dir_map dir' pi (s\<lparr>mem := m'\<rparr>) = (dir_map dir pi s)(name \<mapsto> ino)" using u m(1) by (simp add: dir_map_def)
qed

lemma dir_page_apart:
  assumes "inode_at dir pi s" "dir_page pi s a"
  shows "pi + 128 \<le> a \<or> a + 4096 \<le> pi"
proof (rule ccontr)
  assume n: "\<not> ?thesis"
  let ?x = "max pi a"
  have a: "4096 dvd a" "a div 4096 \<noteq> pi div 4096" using assms(2) by (simp_all add: dir_page_def)
  have "?x div 4096 = pi div 4096" using n by (intro inode_page_le[OF inode_atD(14)[OF assms(1)]]) auto
  moreover have "?x div 4096 = a div 4096" using n by (intro page_bytes[OF a(1)]) auto
  ultimately show False using a(2) by simp
qed

lemma add_loop_cases:
  assumes ctx: "dir_ctx dir pi s" and arg: "length name \<le> 255" "name \<noteq> []" "i_ino i \<noteq> 0"
    and "j \<le> dir_nblocks dir"
  shows "add_entry_loop tr name (Some i) pi (map of_nat [j..<dir_nblocks dir]) dir s = Some (Inl ENOSPC, dir, s)
      \<and> (\<forall>k. j \<le> k \<longrightarrow> k < dir_nblocks dir \<longrightarrow> \<not> block_room (mem s) name (dir_base pi (mem s) k))
    \<or> (\<exists>k dir' m'. k < dir_nblocks dir \<and> add_entry_loop tr name (Some i) pi (map of_nat [j..<dir_nblocks dir]) dir s = Some (Inr (), dir', s\<lparr>mem := m'\<rparr>)
        \<and> add_result pi (dir_base pi (mem s) k) name (i_ino i) dir s dir' m')"
  using assms(5)
proof (induction "dir_nblocks dir - j" arbitrary: j)
  case 0
  then show ?case by simp
next
  case (Suc d)
  then have j: "j < dir_nblocks dir" by simp
  let ?a = "dir_base pi (mem s) j"
  have pg: "dir_page pi s ?a" by (rule dir_ctxD(7)[OF ctx j])
  then have ok: "dir_ok (mem s) ?a (?a + 4096)" by (simp add: dir_page_def)
  have ap: "pi + 32 \<le> ?a \<or> ?a + 4096 \<le> pi" using dir_page_apart[OF dir_ctxD(1)[OF ctx] pg] by auto
  have f: "pmfs_find_data_block dir (of_nat j) s = Some (file_look pi (mem s) j)" using find_dir_block[OF ctx] j by simp
  have b: "pmfs_get_block s (file_look pi (mem s) j) = ?a" "?a \<noteq> 0" using dir_base_pos[OF ctx j] by (simp_all add: dir_base_def)
  have st: "add_entry_loop tr name (Some i) pi (map of_nat [j..<dir_nblocks dir]) dir s = do {
      (r, dir', s') \<leftarrow> pmfs_add_dirent_to_buf tr name (Some i) None ?a pi dir s;
      if r \<noteq> Inl ENOSPC then Some (r, dir', s')
      else add_entry_loop tr name (Some i) pi (map of_nat [Suc j..<dir_nblocks dir]) dir' s' }"
    unfolding upt_conv_Cons[OF j] list.map add_entry_loop.simps f bind.bind_lunit Let_def b(1) using b(2) by simp
  show ?case
  proof (rule add_to_block[OF dir_ctxD(2)[OF ctx] ok arg ap, of tr dir])
    assume "pmfs_add_dirent_to_buf tr name (Some i) None ?a pi dir s = Some (Inl ENOSPC, dir, s)"
      and n: "\<not> block_room (mem s) name ?a"
    then have st': "add_entry_loop tr name (Some i) pi (map of_nat [j..<dir_nblocks dir]) dir s
      = add_entry_loop tr name (Some i) pi (map of_nat [Suc j..<dir_nblocks dir]) dir s" using st by simp
    have "j \<le> k \<longleftrightarrow> k = j \<or> Suc j \<le> k" for k by auto
    then show ?thesis unfolding st' using Suc.hyps(1)[of "Suc j"] Suc.hyps(2) j n by auto
  next
    fix dir' m' assume "pmfs_add_dirent_to_buf tr name (Some i) None ?a pi dir s = Some (Inr (), dir', s\<lparr>mem := m'\<rparr>)"
      "add_result pi ?a name (i_ino i) dir s dir' m'"
    then show ?thesis using st j by auto
  qed
qed

lemma data_run_4k:
  fixes p :: u64
  assumes "4096 dvd unat p"
  shows "unat p div 4096 \<in> data_run 0 p"
  by (simp add: data_run_def block_run_def pmfs_get_blocknr_def unat_drop_bit_div pmfs_get_numblocks_def)

lemma grow_keeps_block:
  assumes at: "inode_at dir pi s" and pg: "dir_page pi s a" and g: "file_grow pi bt lo hi s s'" and x: "x div 4096 = a div 4096"
  shows "mem s' x = mem s x"
proof (rule ccontr)
  have p: "x div 4096 \<in> used_blocks s - (table_pages s \<union> file_meta pi (mem s) \<union> {pi div 4096})"
    using pg x by (simp add: dir_page_def)
  assume "mem s' x \<noteq> mem s x"
  from file_growD(5)[OF g this] p have "x \<in> map_bytes pi" by auto
  then have "x div 4096 = pi div 4096" by (intro inode_page_le[OF inode_atD(14)[OF at]]) (auto simp: map_bytes_def)
  then show False using p by simp
qed

lemma grow_keeps_map:
  assumes ctx: "dir_ctx dir pi s" and g: "file_grow pi bt lo hi s s'" and dir': "i_size dir' = i_size dir"
  shows "dir_map dir' pi s' = dir_map dir pi s"
proof -
  have "dir_blk_list pi (mem s') j = dir_blk_list pi (mem s) j" if j: "j < dir_nblocks dir" for j
    using grow_keeps_block[OF dir_ctxD(1)[OF ctx] dir_ctxD(7)[OF ctx j] g] dir_ctxD(6)[OF ctx, of j] j
    by (intro dir_blk_frame(2)[OF dir_ctxD(7)[OF ctx j]] file_growD(6)[OF g]) auto
  then have "dir_entries pi (mem s') (dir_nblocks dir) = dir_entries pi (mem s) (dir_nblocks dir)"
    unfolding dir_entries_def by (intro arg_cong[of _ _ concat] map_cong) auto
  then show ?thesis by (simp add: dir_map_def dir_nblocks_def dir')
qed

lemma dir_extend:
  assumes ctx: "dir_ctx dir pi s" and n: "n = dir_nblocks dir"
    and g: "file_grow pi 0 n n s s'" and fr: "alloc_frame s s'" and nz: "file_look pi (mem s') n \<noteq> 0"
    and a: "a = dir_base pi (mem s') n"
    and same: "\<And>x. m' x \<noteq> mem s' x \<Longrightarrow> x div 4096 = a div 4096 \<or> pi + 16 \<le> x \<and> x < pi + 40"
    and ok: "dir_ok m' a (a + 4096)" "dir_list m' a (a + 4096) = []"
    and dir': "i_ino dir' = i_ino dir" "i_size dir' = i_size dir + 4096"
  shows "dir_ctx dir' pi (s'\<lparr>mem := m'\<rparr>) \<and> dir_entries pi m' (dir_nblocks dir') = dir_entries pi (mem s) n
    \<and> dir_nblocks dir' = Suc n \<and> dir_base pi m' n = a"
proof -
  note D = dir_ctxD[OF ctx] and G = file_growD[OF g]
  note at' = inode_at_grow[OF D(1) g]
  note A = inode_atD[OF D(1)] and A' = inode_atD[OF at'(1)]
  let ?s = "s'\<lparr>mem := m'\<rparr>"
  have "unat (i_size dir) = n * 4096" using D(5) by (simp add: n dir_nblocks_def)
  then have sz: "unat (i_size dir') = Suc n * 4096" using dir_nblocks_bound[OF ctx] n
    unfolding dir'(2) by (subst unat_plus_fits) auto
  then have n': "dir_nblocks dir' = Suc n" by (simp add: dir_nblocks_def)
  have z: "file_look pi (mem s) n = 0" using D(6)[of n] n by simp
  note fresh = G(7)[OF z nz]
  have al: "4096 dvd a" using fresh by (simp add: a dir_base_def)
  have ap: "a div 4096 \<in> used_blocks s' - used_blocks s - file_meta pi (mem s')"
    using fresh data_run_4k[of "file_look pi (mem s') n"] by (auto simp: a dir_base_def)
  have apt: "a div 4096 \<notin> table_pages s' \<union> file_meta pi (mem s') \<union> {pi div 4096}" using ap A(11,12) at'(2) by auto
  have pi_pg: "x div 4096 = pi div 4096" if "pi + 16 \<le> x" "x < pi + 40" for x
    by (rule inode_page_le[OF A(14)]) (use that in auto)
  have pg: "dir_page pi s (dir_base pi (mem s) j)" if "j < n" for j using D(7) that n by blast
  have meta: "m' x = mem s' x" if "x div 4096 \<in> table_pages s' \<union> file_meta pi (mem s')" for x
    using same[of x] that apt pi_pg[of x] A'(8,13) by (cases "m' x = mem s' x") auto
  have ino: "m' x = mem s' x" if "pi + 2 \<le> x" "x < pi + 16" for x
  proof (rule ccontr)
    assume "m' x \<noteq> mem s' x"
    from same[OF this] that have "x div 4096 = a div 4096" by auto
    moreover have "x div 4096 = pi div 4096" by (rule inode_page_le[OF A(14)]) (use that in auto)
    ultimately show False using apt by simp
  qed
  have look: "file_look pi m' = file_look pi (mem s')" and at2: "inode_at dir pi ?s"
    and fm: "file_meta pi m' = file_meta pi (mem s')" "table_pages ?s = table_pages s'"
    using inode_at_frame[OF at'(1), of ?s] meta ino A'(16) by auto
  have lk: "file_look pi m' j = file_look pi (mem s) j" if "j \<noteq> n" for j
    using G(6)[of j] that nat_neq_iff[of j n] by (auto simp: look)
  have oth: "m' x = mem s x" if "j < n" "x div 4096 = dir_base pi (mem s) j div 4096" for j x
  proof -
    have p: "x div 4096 \<in> used_blocks s - (table_pages s \<union> file_meta pi (mem s) \<union> {pi div 4096})"
      using pg[OF that(1)] that(2) by (simp add: dir_page_def)
    have "mem s' x = mem s x" by (rule grow_keeps_block[OF D(1) pg[OF that(1)] g that(2)])
    moreover have "m' x = mem s' x" using same[of x] pi_pg[of x] p ap by (cases "m' x = mem s' x") auto
    ultimately show ?thesis by simp
  qed
  have b: "dir_base pi m' j = dir_base pi (mem s) j" "dir_blk_list pi m' j = dir_blk_list pi (mem s) j"
    "dir_ok m' (dir_base pi (mem s) j) (dir_base pi (mem s) j + 4096)" if "j < n" for j
    using dir_blk_frame[OF pg[OF that], of m'] lk[of j] oth[OF that] that by simp_all
  have bn: "dir_base pi m' n = a" by (simp add: dir_base_def look a)
  have "concat (map (dir_blk_list pi m') [0..<n]) = concat (map (dir_blk_list pi (mem s)) [0..<n])"
    using b(2) by (intro arg_cong[of _ _ concat] map_cong) auto
  moreover have "dir_blk_list pi m' n = []" by (simp add: dir_blk_list_def bn ok(2))
  ultimately have e: "dir_entries pi m' (Suc n) = dir_entries pi (mem s) n" by (simp add: dir_entries_def)
  have pages: "dir_page pi ?s (dir_base pi m' j)" if "j < Suc n" for j
  proof (cases "j = n")
    case True
    then show ?thesis using al ok(1) ap apt by (simp add: dir_page_def bn fm)
  next
    case False
    then have j: "j < n" using that by simp
    show ?thesis using pg[OF j] b[OF j] G(3,4) at'(2) by (auto simp: dir_page_def fm)
  qed
  have inj: "inj_on (dir_base pi m') {..<Suc n}"
  proof -
    have "a \<notin> dir_base pi m' ` {..<n}" using pg b(1) ap by (auto simp: dir_page_def)
    moreover have "inj_on (dir_base pi m') {..<n}" using D(8) b(1) n by (simp add: inj_on_def)
    ultimately show ?thesis by (simp add: lessThan_Suc bn)
  qed
  have "file_look pi m' k \<noteq> 0 \<longleftrightarrow> k < Suc n" for k
    using lk[of k] D(6)[of k] nz n by (cases "k = n") (auto simp: look)
  moreover have "pi_blk_type (rd_inode m' pi) = 0" using inode_map_fields(2)[of pi m' "mem s'"] ino G(2) by auto
  moreover have "4096 dvd unat (i_size dir')" using sz by simp
  ultimately show ?thesis
    using at2 pages inj e D(9) n bn alloc_frame_fields(3,4)[OF fr] D(2,3)
    by (simp add: dir_ctx_def n' inode_at_ino[OF dir'(1)] bn)
qed

text \<open>Stores to the other fields of the inode.\<close>

lemma inode_at_store:
  assumes at: "inode_at inode pi s" and same: "\<And>x. m' x \<noteq> mem s x \<Longrightarrow> pi + 16 \<le> x \<and> x < pi + 128"
  shows "inode_at inode pi (s\<lparr>mem := m'\<rparr>)" "file_look pi m' = file_look pi (mem s)" "file_meta pi m' = file_meta pi (mem s)"
    "pi_blk_type (rd_inode m' pi) = pi_blk_type (rd_inode (mem s) pi)"
proof -
  note A = inode_atD[OF at]
  have m: "m' x = mem s x" if x: "x div 4096 \<in> table_pages s \<union> file_meta pi (mem s)" for x
  proof (rule ccontr)
    assume "m' x \<noteq> mem s x"
    then have "x div 4096 = pi div 4096" using same[of x] by (intro inode_page_le[OF A(14)]) auto
    then show False using x A(8,13) by (metis Un_iff)
  qed
  have i: "m' x = mem s x" if "pi + 2 \<le> x" "x < pi + 16" for x using same[of x] that by (cases "m' x = mem s x") auto
  note f = inode_at_frame[OF at, of "s\<lparr>mem := m'\<rparr>"]
  show "inode_at inode pi (s\<lparr>mem := m'\<rparr>)" "file_look pi m' = file_look pi (mem s)" "file_meta pi m' = file_meta pi (mem s)"
    using f m i A(16) by auto
  show "pi_blk_type (rd_inode m' pi) = pi_blk_type (rd_inode (mem s) pi)"
    using inode_map_fields(2)[of pi m' "mem s"] i by simp
qed

text \<open>A block with one free record that spans it.\<close>

lemma dir_block_init:
  fixes m :: mem
  defines "m' a \<equiv> wr16 (a + 8) 4096 (wr64 a 0 m)"
  shows "dir_chain (m' a) (a + 4096) a [a]" "dir_list (m' a) a (a + 4096) = []" "\<not> rec_live (m' a) a"
    "dir_ok (m' a) a (a + 4096)"
proof -
  have l: "rec_len (m' a) a = 4096" "rd64 (m' a) a = 0" by (simp_all add: m'_def)
  have "rec_nlen (m' a) a \<le> 4096"
    using REC_LEN_bounds(2)[of "unat (rd8 (m' a) (a + 10))"] unat_less_size[of "rd8 (m' a) (a + 10)"] by simp
  then show c: "dir_chain (m' a) (a + 4096) a [a]" using l by (simp add: rec_ok_def rec_live_def)
  show "\<not> rec_live (m' a) a" by (simp add: rec_live_def l)
  then show "dir_list (m' a) a (a + 4096) = []" "dir_ok (m' a) a (a + 4096)"
    using dir_chain_dir[OF c] by (simp_all add: dir_live_def)
qed

lemma alloc_dir_block:
  assumes ctx: "dir_ctx dir pi s"
  obtains r s' where "pmfs_alloc_blocks tr dir (of_nat (dir_nblocks dir)) 1 zero s
      = Some (r, dir\<lparr>i_blocks := pi_blocks (rd_inode (mem s') pi)\<rparr>, s')"
    "file_grow pi 0 (dir_nblocks dir) (dir_nblocks dir) s s'" "alloc_frame s s'"
    "r = Inr () \<Longrightarrow> file_look pi (mem s') (dir_nblocks dir) \<noteq> 0"
proof -
  let ?n = "dir_nblocks dir"
  note D = dir_ctxD[OF ctx] note A = inode_atD[OF D(1)]
  have w: "?n + 1 < 2 ^ 64" using dir_nblocks_bound[OF ctx] by simp
  have u: "unat (of_nat ?n :: u64) = ?n" using w by (intro unat_of_nat_64) simp
  have sh: "blk_type_to_shift 0 - s_blocksize_bits s = 0"
    using D(3) by (simp add: blk_type_to_shift_def)
  obtain r s' where r: "raw_pmfs_alloc_blocks tr pi (of_nat ?n) 1 zero s = Some (r, s')" "file_grow pi 0 ?n ?n s s'"
    "r = Inr () \<longrightarrow> file_look pi (mem s') ?n \<noteq> 0"
    using alloc_blocks_file[OF A(5), of 1 "of_nat ?n" tr zero] w unfolding D(4) sh u by auto
  show thesis
    by (rule that[of r s']) (use r alloc_blocks_frame[OF r(1)] A(6,7) in \<open>simp_all add: pmfs_alloc_blocks_def\<close>)
qed

lemma new_block_added:
  assumes ctx: "dir_ctx dir pi s" and n: "n = dir_nblocks dir" and g: "file_grow pi 0 n n s s'" "alloc_frame s s'"
    and nz: "file_look pi (mem s') n \<noteq> 0"
    and arg: "length name \<le> 255" "name \<noteq> []" "i_ino i \<noteq> 0" and new: "dir_map dir pi s name = None"
    and dir3: "i_ino dir3 = i_ino dir" "i_size dir3 = i_size dir + 4096"
    and s5: "s5 = s'\<lparr>mem := wr16 (unat (file_look pi (mem s') n) + 8) 4096 (wr64 (unat (file_look pi (mem s') n)) 0
      (wr64 (pi + 16) (i_size dir3) (mem s')))\<rparr>"
  shows "\<exists>dir' m'. pmfs_add_dirent_to_buf None name (Some i) (Some (unat (file_look pi (mem s') n))) (unat (file_look pi (mem s') n)) pi dir3 s5
      = Some (Inr (), dir', s5\<lparr>mem := m'\<rparr>)
    \<and> dir_ctx dir' pi (s5\<lparr>mem := m'\<rparr>) \<and> dir_map dir' pi (s5\<lparr>mem := m'\<rparr>) = (dir_map dir pi s)(name \<mapsto> i_ino i)"
proof -
  let ?a = "unat (file_look pi (mem s') n)"
  let ?m5 = "wr16 (?a + 8) 4096 (wr64 ?a 0 (wr64 (pi + 16) (i_size dir3) (mem s')))"
  note I = dir_block_init[where m = "wr64 (pi + 16) (i_size dir3) (mem s')" and a = ?a]
  have z: "file_look pi (mem s) n = 0" using dir_ctxD(6)[OF ctx, of n] n by simp
  have al: "4096 dvd ?a" using file_growD(7)[OF g(1) z nz] by simp
  have same: "x div 4096 = ?a div 4096 \<or> pi + 16 \<le> x \<and> x < pi + 40" if "?m5 x \<noteq> mem s' x" for x
  proof (rule ccontr)
    assume c: "\<not> ?thesis"
    then have "\<not> (?a \<le> x \<and> x < ?a + 4096)" using page_bytes[OF al, of x] by blast
    then have "?m5 x = mem s' x" using c by (auto simp: wrw_apply_other)
    then show False using that by simp
  qed
  have e: "dir_ctx dir3 pi s5 \<and> dir_entries pi ?m5 (dir_nblocks dir3) = dir_entries pi (mem s) n
    \<and> dir_nblocks dir3 = Suc n \<and> dir_base pi ?m5 n = ?a"
    unfolding s5 by (rule dir_extend[OF ctx n g nz _ same I(4,2) dir3]) (simp_all add: dir_base_def)
  have m5: "mem s5 = ?m5" by (simp add: s5)
  have c5: "dir_ctx dir3 pi s5" and base: "dir_base pi (mem s5) n = ?a" and n3: "dir_nblocks dir3 = Suc n"
    and ent: "dir_entries pi (mem s5) (dir_nblocks dir3) = dir_entries pi (mem s) n"
    using e unfolding m5 by blast+
  have k: "n < dir_nblocks dir3" and mp: "dir_map dir3 pi s5 = dir_map dir pi s"
    unfolding dir_map_def ent by (simp_all add: n3 n)
  have ap: "pi + 32 \<le> ?a \<or> ?a + 4096 \<le> pi"
    using dir_page_apart[OF dir_ctxD(1)[OF c5] dir_ctxD(7)[OF c5 k]] by (auto simp: base)
  have ch: "dir_chain (mem s5) (?a + 4096) ?a ([] @ ?a # [])" using I(1) by (simp add: s5)
  have room: "has_room (mem s5) (PMFS_DIR_REC_LEN (length name)) ?a"
    using I(3) REC_LEN_bounds(2)[of "length name"] arg(1) by (simp add: has_room_def s5)
  let ?dir = "dir3\<lparr>i_mtime := now s5, i_ctime := now s5\<rparr>"
  let ?m' = "wr32 (pi + 24) (now s5) (wr32 (pi + 28) (now s5) (dirent_write name (i_ino i) ?a (mem s5)))"
  have R: "add_result pi (dir_base pi (mem s5) n) name (i_ino i) dir3 s5 ?dir ?m'"
    unfolding base by (rule dirent_add_ok[OF ch room arg ap refl]) simp_all
  have "pmfs_add_dirent_to_buf None name (Some i) (Some ?a) ?a pi dir3 s5 = Some (Inr (), ?dir, s5\<lparr>mem := ?m'\<rparr>)"
    by (simp add: pmfs_add_dirent_to_buf_def Let_def pmfs_add_logentry_def)
  moreover note added_ctx[OF c5 k R, unfolded mp, OF new]
  ultimately show ?thesis by blast
qed

text \<open>\<open>pmfs_add_entry\<close> of a new name.\<close>

lemma add_entry_result:
  assumes ctx: "dir_ctx dir pi s" and arg: "length name \<le> 255" "name \<noteq> []" "i_ino i \<noteq> 0" and new: "dir_map dir pi s name = None"
  shows "\<exists>r dir' s'. pmfs_add_entry tr name (Some i) dir s = Some (r, dir', s')
    \<and> (if r = Inr () then dir_ctx dir' pi s' \<and> dir_map dir' pi s' = (dir_map dir pi s)(name \<mapsto> i_ino i)
       else dir_map dir' pi s' = dir_map dir pi s \<and> (\<forall>k<dir_nblocks dir. \<not> block_room (mem s) name (dir_base pi (mem s) k)))"
proof -
  let ?n = "dir_nblocks dir" and ?L = "add_entry_loop tr name (Some i) pi (map of_nat [0..<dir_nblocks dir]) dir s"
  note D = dir_ctxD[OF ctx] note A = inode_atD[OF D(1)]
  note nb = nblocks_word[OF ctx]
  have u: "unat (of_nat ?n :: u64) = ?n" using dir_nblocks_bound[OF ctx] by (intro unat_of_nat_64) simp
  have st: "pmfs_add_entry tr name (Some i) dir s = do {
      (r, dir1, s2) \<leftarrow> ?L;
      if r \<noteq> Inl ENOSPC then Some (r, dir1, s2)
      else do {
        (r2, dir2, s3) \<leftarrow> pmfs_alloc_blocks tr dir1 (of_nat ?n) 1 False s2;
        if r2 \<noteq> Inr () then Some (r2, dir2, s3)
        else do {
          let dir3 = dir2\<lparr>i_size := i_size dir2 + s_blocksize s3\<rparr>;
          let s4 = upd_mem (pmfs_update_isize dir3 pi) s3;
          bp \<leftarrow> pmfs_find_data_block dir3 (of_nat ?n) s4;
          let blk_base = pmfs_get_block s4 bp;
          if blk_base = 0 then Some (Inl ENOSPC, dir3, s4)
          else let s5 = upd_mem (\<lambda>m. wr16 (blk_base + 8) (ucast (s_blocksize s4)) (wr64 blk_base 0 m)) s4
               in pmfs_add_dirent_to_buf None name (Some i) (Some blk_base) blk_base pi dir3 s5 } } }"
    unfolding pmfs_add_entry_def A(7) pmfs_add_logentry_def Let_def snd_conv nb u using arg(2) A(6) by simp
  from add_loop_cases[OF ctx arg le0, of tr] show ?thesis
  proof (elim disjE exE conjE)
    fix k dir' m' assume k: "k < ?n" and l: "?L = Some (Inr (), dir', s\<lparr>mem := m'\<rparr>)"
      and R: "add_result pi (dir_base pi (mem s) k) name (i_ino i) dir s dir' m'"
    then show ?thesis unfolding st using added_ctx[OF ctx k R new] by simp
  next
    assume l: "?L = Some (Inl ENOSPC, dir, s)"
      and nr: "\<forall>k. 0 \<le> k \<longrightarrow> k < ?n \<longrightarrow> \<not> block_room (mem s) name (dir_base pi (mem s) k)"
    obtain r s' where al: "pmfs_alloc_blocks tr dir (of_nat ?n) 1 False s
        = Some (r, dir\<lparr>i_blocks := pi_blocks (rd_inode (mem s') pi)\<rparr>, s')"
      and g: "file_grow pi 0 ?n ?n s s'" "alloc_frame s s'" and nz: "r = Inr () \<Longrightarrow> file_look pi (mem s') ?n \<noteq> 0"
      by (rule alloc_dir_block[OF ctx, of tr False]) blast
    show ?thesis
    proof (cases "r = Inr ()")
      case False
      then show ?thesis unfolding st l using al grow_keeps_map[OF ctx g(1)] nr by simp
    next
      case True
      let ?dir3 = "dir\<lparr>i_blocks := pi_blocks (rd_inode (mem s') pi), i_size := i_size dir + 4096\<rparr>"
      let ?s4 = "s'\<lparr>mem := wr64 (pi + 16) (i_size dir + 4096) (mem s')\<rparr>" and ?a = "unat (file_look pi (mem s') ?n)"
      have bs: "s_blocksize s' = 4096" "s_blocksize_bits s' = 12" using D(2,3) alloc_frame_fields(3,4)[OF g(2)] by simp_all
      have f: "pmfs_find_data_block ?dir3 (of_nat ?n) ?s4 = Some (file_look pi (mem s') ?n)"
      proof -
        note I = inode_at_store[OF inode_at_grow(1)[OF D(1) g(1)], of "wr64 (pi + 16) (i_size dir + 4096) (mem s')"]
        have ch: "pi + 16 \<le> x \<and> x < pi + 128" if "wr64 (pi + 16) (i_size dir + 4096) (mem s') x \<noteq> mem s' x" for x
          using wrw_changed[OF that] by simp
        have "inode_at ?dir3 pi ?s4" using I(1)[OF ch] inode_at_ino[of ?dir3 dir] by simp
        moreover have "pi_blk_type (rd_inode (mem ?s4) pi) = 0" using I(4)[OF ch] file_growD(2)[OF g(1)] by simp
        ultimately show ?thesis using find_block_4k[of ?dir3 pi ?s4 "of_nat ?n"] I(2)[OF ch] bs u by simp
      qed
      have a0: "?a \<noteq> 0" using nz[OF True] by (simp add: unat_eq_0)
      show ?thesis
        using new_block_added[OF ctx refl g nz[OF True] arg new, of ?dir3, OF _ _ refl] a0
        unfolding st l by (auto simp: al True f bs pmfs_update_isize_def Let_def)
    qed
  qed
qed

section \<open>Removing an entry\<close>

lemma search_block_split:
  assumes "dir_ctx dir pi s" "k < dir_nblocks dir"
  defines "a \<equiv> dir_base pi (mem s) k"
  obtains "pmfs_search_dirblock a name s = Not_found" "name \<notin> fst ` set (dir_blk_list pi (mem s) k)"
  | rs1 d rs2 where "pmfs_search_dirblock a name s = Found d (if rs1 = [] then None else Some (last rs1))"
      "dir_chain (mem s) (a + 4096) a (rs1 @ d # rs2)" "rec_live (mem s) d" "rec_name (mem s) d = name"
proof -
  let ?m = "mem s"
  let ?rs = "dir_recs ?m (a + 4096) a" and ?P = "\<lambda>d. rec_live ?m d \<and> rec_name ?m d = name"
  have bs: "unat (s_blocksize s) = 4096" using dir_ctxD(2)[OF assms(1)] by simp
  have ch: "dir_chain ?m (a + 4096) a ?rs" using dir_ctxD(7)[OF assms(1,2)] by (simp add: dir_page_def dir_ok_def a_def)
  show thesis
  proof (cases "\<exists>d\<in>set ?rs. ?P d")
    case True
    then obtain rs1 d rs2 where rs: "?rs = rs1 @ d # rs2" "?P d" "\<forall>d\<in>set rs1. \<not> ?P d"
      by (rule split_list_first_propE)
    have "pmfs_search_dirblock a name s = Found d (if rs1 = [] then None else Some (last rs1))"
      unfolding pmfs_search_dirblock_def
      by (rule search_found[where ?rs1.0 = rs1 and ?rs2.0 = rs2]) (use ch rs bs in auto)
    then show thesis by (rule that(2)) (use ch rs in auto)
  next
    case False
    have "pmfs_search_dirblock a name s = Not_found"
      unfolding pmfs_search_dirblock_def
      by (rule search_not_found[where rs = ?rs]) (use ch False bs in auto)
    moreover have "name \<notin> fst ` set (dir_blk_list pi ?m k)"
      using False by (auto simp: dir_blk_list_def dir_list_def dir_live_def a_def)
    ultimately show thesis by (rule that(1))
  qed
qed

lemma inserted_removed:
  assumes "inserted E' name ino E" "distinct (map fst E)"
  shows "map_of E' = (map_of E)(name := None)" "distinct (map fst E')"
proof -
  obtain A B where E: "E' = A @ B" "E = A @ (name, ino) # B" using assms(1) by (auto simp: inserted_def)
  have "name \<notin> dom (map_of A)" "name \<notin> dom (map_of B)" using assms(2) by (auto simp: E dom_map_of_conv_image_fst)
  then show "map_of E' = (map_of E)(name := None)"
    by (auto simp: E map_add_def fun_eq_iff domIff split: option.splits)
  show "distinct (map fst E')" using assms(2) by (auto simp: E)
qed

text \<open>The record \<open>d\<close> is taken out of the block at \<open>a\<close>.\<close>

lemma unlink_block:
  assumes ch: "dir_chain m (a + 4096) a (rs1 @ d # rs2)" and live: "rec_live m d"
    and m': "\<And>x. a \<le> x \<Longrightarrow> x < a + 4096 \<Longrightarrow> m' x = dirent_unlink d (if rs1 = [] then None else Some (last rs1)) m x"
  shows "dir_ok m' a (a + 4096)" "inserted (dir_list m' a (a + 4096)) (rec_name m d) (rd64 m d) (dir_list m a (a + 4096))"
proof -
  let ?u = "dirent_unlink d (if rs1 = [] then None else Some (last rs1)) m"
  have l: "dir_list m a (a + 4096) = dir_live m rs1 @ (rec_name m d, rd64 m d) # dir_live m rs2"
    using dir_chain_dir(2)[OF ch] live by (simp add: dir_live_def)
  obtain rs where c: "dir_chain ?u (a + 4096) a rs" "dir_live ?u rs = dir_live m rs1 @ dir_live m rs2"
  proof (cases rs1 rule: rev_cases)
    case Nil
    then have "d = a" using ch by simp
    then have x: "dir_chain ?u (a + 4096) a (d # rs2) \<and> dir_live ?u (d # rs2) = dir_live m rs2"
      using dirent_unlink_first[of m "a + 4096" d rs2] ch Nil by simp
    have "dir_live m rs1 = []" by (simp add: Nil)
    with x show thesis by (intro that[of "d # rs2"]) (simp_all only: append_Nil)
  next
    case (snoc rs0 p)
    have p: "a \<le> p" using dir_chain_end[OF ch, of p] snoc by simp
    have "dir_chain ?u (a + 4096) a (rs0 @ p # rs2) \<and> dir_live ?u (rs0 @ p # rs2) = dir_live m (rs0 @ p # rs2)"
      using dirent_unlink_next[of m "a + 4096" a rs0 p d rs2] ch snoc p by simp
    moreover have "dir_live m (rs0 @ p # rs2) = dir_live m rs1 @ dir_live m rs2" by (simp add: snoc)
    ultimately show thesis by (intro that[of "rs0 @ p # rs2"]) simp_all
  qed
  have "dir_ok ?u a (a + 4096)" and u: "dir_list ?u a (a + 4096) = dir_live m rs1 @ dir_live m rs2"
    using dir_chain_dir[OF c(1)] c(2) by simp_all
  from dir_ok_agree[OF this(1), of m'] m'
  have "dir_ok m' a (a + 4096) \<and> dir_list m' a (a + 4096) = dir_live m rs1 @ dir_live m rs2" by (simp add: u)
  then show "dir_ok m' a (a + 4096)" "inserted (dir_list m' a (a + 4096)) (rec_name m d) (rd64 m d) (dir_list m a (a + 4096))"
    by (auto simp: l inserted_def)
qed

lemma removed_ctx:
  assumes ctx: "dir_ctx dir pi s" and k: "k < dir_nblocks dir" and a: "a = dir_base pi (mem s) k"
    and ch: "dir_chain (mem s) (a + 4096) a (rs1 @ d # rs2)" and live: "rec_live (mem s) d"
    and same: "\<And>x. \<not> (pi + 24 \<le> x \<and> x < pi + 32) \<Longrightarrow> m' x = dirent_unlink d (if rs1 = [] then None else Some (last rs1)) (mem s) x"
    and dir': "i_ino dir' = i_ino dir" "i_size dir' = i_size dir"
  shows "dir_ctx dir' pi (s\<lparr>mem := m'\<rparr>)" "dir_map dir' pi (s\<lparr>mem := m'\<rparr>) = (dir_map dir pi s)(rec_name (mem s) d := None)"
proof -
  let ?n = "dir_nblocks dir" and ?u = "dirent_unlink d (if rs1 = [] then None else Some (last rs1)) (mem s)"
  let ?A = "concat (map (dir_blk_list pi (mem s)) [0..<k])" and ?B = "concat (map (dir_blk_list pi (mem s)) [Suc k..<dir_nblocks dir])"
  let ?E = "?A @ dir_list m' a (a + 4096) @ ?B"
  have pg: "dir_page pi s a" using dir_ctxD(7)[OF ctx k] a by simp
  then have al: "4096 dvd a" by (simp add: dir_page_def)
  have ap: "pi + 128 \<le> a \<or> a + 4096 \<le> pi" by (rule dir_page_apart[OF dir_ctxD(1)[OF ctx] pg])
  have in_a: "a \<le> p \<and> p + 16 \<le> a + 4096" if "p \<in> set (rs1 @ d # rs2)" for p
    using dir_chain_mem[OF ch that] by (auto simp: rec_ok_def)
  have ch': "x div 4096 = a div 4096 \<or> pi + 16 \<le> x \<and> x < pi + 40" if "m' x \<noteq> mem s x" for x
  proof (rule ccontr)
    assume n: "\<not> ?thesis"
    then have "\<not> (a \<le> x \<and> x < a + 4096)" using page_bytes[OF al, of x] by blast
    then have "?u x = mem s x" using in_a[of d] in_a[of "last rs1"] by (intro dirent_unlink_outside) (auto split: if_splits)
    moreover have "m' x = ?u x" using n by (intro same) auto
    ultimately show False using that by simp
  qed
  have "m' x = ?u x" if "a \<le> x" "x < a + 4096" for x using that ap by (intro same) auto
  note u = unlink_block[OF ch live this]
  have e: "dir_entries pi (mem s) ?n = ?A @ dir_blk_list pi (mem s) k @ ?B"
    by (simp add: dir_entries_def upt_split_at[OF k])
  have ins: "inserted ?E (rec_name (mem s) d) (rd64 (mem s) d) (dir_entries pi (mem s) ?n)"
    unfolding e by (rule inserted_context) (use u(2) a in \<open>simp add: dir_blk_list_def\<close>)
  note m = inserted_removed[OF ins dir_ctxD(9)[OF ctx]]
  have r: "dir_ctx dir' pi (s\<lparr>mem := m'\<rparr>) \<and> dir_entries pi m' (dir_nblocks dir') = ?E"
    by (rule dir_block_update[OF ctx k a ch' u(1) refl m(2) dir'])
  then show "dir_ctx dir' pi (s\<lparr>mem := m'\<rparr>)" by simp
  show "dir_map dir' pi (s\<lparr>mem := m'\<rparr>) = (dir_map dir pi s)(rec_name (mem s) d := None)" using r m(1) by (simp add: dir_map_def)
qed

lemma remove_search_cases:
  assumes ctx: "dir_ctx dir pi s" and "j \<le> dir_nblocks dir"
  shows "remove_search name (map of_nat [j..<dir_nblocks dir]) dir s = Some None
      \<and> (\<forall>k. j \<le> k \<longrightarrow> k < dir_nblocks dir \<longrightarrow> name \<notin> fst ` set (dir_blk_list pi (mem s) k))
    \<or> (\<exists>k rs1 d rs2. remove_search name (map of_nat [j..<dir_nblocks dir]) dir s
          = Some (Some (d, if rs1 = [] then None else Some (last rs1)))
        \<and> k < dir_nblocks dir \<and> dir_chain (mem s) (dir_base pi (mem s) k + 4096) (dir_base pi (mem s) k) (rs1 @ d # rs2)
        \<and> rec_live (mem s) d \<and> rec_name (mem s) d = name)"
  using assms(2)
proof (induction "dir_nblocks dir - j" arbitrary: j)
  case 0
  then show ?case by simp
next
  case (Suc x)
  then have j: "j < dir_nblocks dir" by simp
  let ?a = "dir_base pi (mem s) j"
  have f: "pmfs_find_data_block dir (of_nat j) s = Some (file_look pi (mem s) j)" using find_dir_block[OF ctx] j by simp
  have b: "pmfs_get_block s (file_look pi (mem s) j) = ?a" "?a \<noteq> 0" using dir_base_pos[OF ctx j] by (simp_all add: dir_base_def)
  have st: "remove_search name (map of_nat [j..<dir_nblocks dir]) dir s =
      (case pmfs_search_dirblock ?a name s of Found res prev \<Rightarrow> Some (Some (res, prev))
       | _ \<Rightarrow> remove_search name (map of_nat [Suc j..<dir_nblocks dir]) dir s)"
    unfolding upt_conv_Cons[OF j] list.map remove_search.simps f bind.bind_lunit Let_def b(1) using b(2) by simp
  show ?case
  proof (rule search_block_split[OF ctx j, of name])
    assume "pmfs_search_dirblock ?a name s = Not_found" and n: "name \<notin> fst ` set (dir_blk_list pi (mem s) j)"
    then have st': "remove_search name (map of_nat [j..<dir_nblocks dir]) dir s
      = remove_search name (map of_nat [Suc j..<dir_nblocks dir]) dir s" using st by simp
    have "j \<le> k \<longleftrightarrow> k = j \<or> Suc j \<le> k" for k by auto
    then show ?thesis unfolding st' using Suc.hyps(1)[of "Suc j"] Suc.hyps(2) j n by auto
  next
    fix rs1 d rs2
    assume "pmfs_search_dirblock ?a name s = Found d (if rs1 = [] then None else Some (last rs1))"
      "dir_chain (mem s) (?a + 4096) ?a (rs1 @ d # rs2)" "rec_live (mem s) d" "rec_name (mem s) d = name"
    then show ?thesis unfolding st using j by (intro disjI2 exI[of _ j] exI[of _ rs1] exI[of _ d] exI[of _ rs2]) simp
  qed
qed

lemma remove_entry_result:
  assumes ctx: "dir_ctx dir pi s" and nm: "name \<noteq> []"
  shows "if dir_map dir pi s name = None then pmfs_remove_entry tr name dir s = Some (Inl EINVAL, dir, s)
    else \<exists>dir' s'. pmfs_remove_entry tr name dir s = Some (Inr (), dir', s')
      \<and> dir_ctx dir' pi s' \<and> dir_map dir' pi s' = (dir_map dir pi s)(name := None)"
proof -
  let ?n = "dir_nblocks dir"
  note nb = nblocks_word[OF ctx]
  have u: "unat (of_nat ?n :: u64) = ?n" using dir_nblocks_bound[OF ctx] by (intro unat_of_nat_64) simp
  from remove_search_cases[OF ctx le0, of name] show ?thesis
  proof (elim disjE exE conjE)
    assume l: "remove_search name (map of_nat [0..<?n]) dir s = Some None"
      and "\<forall>k. 0 \<le> k \<longrightarrow> k < ?n \<longrightarrow> name \<notin> fst ` set (dir_blk_list pi (mem s) k)"
    then have "dir_map dir pi s name = None" by (force simp: dir_map_def map_of_eq_None_iff dir_entries_def)
    then show ?thesis unfolding pmfs_remove_entry_def Let_def nb u l using nm by simp
  next
    fix k and rs1 :: "nat list" and d rs2
    let ?prev = "if rs1 = [] then None else Some (last rs1)" and ?a = "dir_base pi (mem s) k"
    assume l: "remove_search name (map of_nat [0..<?n]) dir s = Some (Some (d, ?prev))" and k: "k < ?n"
      and ch: "dir_chain (mem s) (?a + 4096) ?a (rs1 @ d # rs2)" and live: "rec_live (mem s) d" and d: "rec_name (mem s) d = name"
    let ?u = "dirent_unlink d ?prev (mem s)"
    let ?m = "wr32 (pi + 24) (now s) (wr32 (pi + 28) (now s) ?u)" and ?dir = "dir\<lparr>i_ctime := now s, i_mtime := now s\<rparr>"
    have "(name, rd64 (mem s) d) \<in> set (dir_blk_list pi (mem s) k)"
      using dir_chain_dir(2)[OF ch] live d by (auto simp: dir_blk_list_def dir_live_def)
    then have "(name, rd64 (mem s) d) \<in> set (dir_entries pi (mem s) ?n)" using k by (auto simp: dir_entries_mem)
    then have "dir_map dir pi s name = Some (rd64 (mem s) d)" using dir_ctxD(9)[OF ctx] by (simp add: dir_map_def)
    moreover have "dir_ctx dir pi (s\<lparr>mem := ?u\<rparr>)" by (rule removed_ctx[OF ctx k refl ch live]) simp_all
    then have g: "pmfs_get_inode (s\<lparr>mem := ?u\<rparr>) (i_ino dir) = Some pi" "pi \<noteq> 0" using inode_atD(6,7)[OF dir_ctxD(1)] by blast+
    have "pmfs_remove_entry tr name dir s = Some (Inr (), ?dir, s\<lparr>mem := ?m\<rparr>)"
      unfolding pmfs_remove_entry_def Let_def nb u l pmfs_add_logentry_def using nm g by (cases "rs1 = []") simp_all
    moreover have w: "?m x = ?u x" if "\<not> (pi + 24 \<le> x \<and> x < pi + 32)" for x
      using that by (auto simp: wrw_apply_other)
    have "dir_ctx ?dir pi (s\<lparr>mem := ?m\<rparr>)" "dir_map ?dir pi (s\<lparr>mem := ?m\<rparr>) = (dir_map dir pi s)(name := None)"
      using removed_ctx[OF ctx k refl ch live w, of ?dir] d by auto
    ultimately show ?thesis by auto
  qed
qed

end
