(* ===== verification/Dir_Table.thy ===== *)
theory Dir_Table
  imports Dir_Map
begin

text \<open>
  Directories as tables of names: the contract the name space relies on, that the directory operations of
  \<open>dir.c\<close> and \<open>namei.c\<close> keep it, and the properties that follow.
\<close>

section \<open>Tables of names\<close>

text \<open>What the name space relies on from a directory: a table that is looked up, extended by a new name and
  stripped of a name. The outer option is an oops, the sum the error code.\<close>

locale name_table =
  fixes inv :: "'st \<Rightarrow> bool" and tab :: "'st \<Rightarrow> 'n \<rightharpoonup> u64" and ok :: "'n \<Rightarrow> 'v \<Rightarrow> bool" and val :: "'v \<Rightarrow> u64"
    and look :: "'n \<Rightarrow> 'st \<Rightarrow> (u64 \<times> 'st) option"
    and ins :: "'n \<Rightarrow> 'v \<Rightarrow> 'st \<Rightarrow> ((errno + unit) \<times> 'st) option"
    and del :: "'n \<Rightarrow> 'st \<Rightarrow> ((errno + unit) \<times> 'st) option"
  assumes look: "inv st \<Longrightarrow> \<exists>st'. look n st = Some (case tab st n of Some i \<Rightarrow> i | None \<Rightarrow> 0, st') \<and> inv st' \<and> tab st' = tab st"
    and ins: "inv st \<Longrightarrow> ok n v \<Longrightarrow> tab st n = None \<Longrightarrow> \<exists>r st'. ins n v st = Some (r, st')
      \<and> (if r = Inr () then inv st' \<and> tab st' = (tab st)(n \<mapsto> val v) else tab st' = tab st)"
    and del: "inv st \<Longrightarrow> ok n v \<Longrightarrow> if tab st n = None then del n st = Some (Inl EINVAL, st)
      else \<exists>st'. del n st = Some (Inr (), st') \<and> inv st' \<and> tab st' = (tab st)(n := None)"
begin

text \<open>An inserted name is found with its number, and the other names are found as before.\<close>

lemma look_after_ins:
  assumes "inv st" "ok n v" "tab st n = None" "ins n v st = Some (Inr (), st')"
  shows "map_option fst (look n' st') = (if n' = n then Some (val v) else map_option fst (look n' st))"
proof -
  have "inv st'" "tab st' = (tab st)(n \<mapsto> val v)" using ins[OF assms(1-3)] assms(4) by auto
  with look[of st' n'] look[OF assms(1), of n'] show ?thesis by auto
qed

text \<open>Removing an inserted name gives the table back.\<close>

lemma ins_del:
  assumes "inv st" "ok n v" "tab st n = None" "ins n v st = Some (Inr (), st1)"
  shows "\<exists>st2. del n st1 = Some (Inr (), st2) \<and> inv st2 \<and> tab st2 = tab st"
proof -
  have a: "inv st1" "tab st1 = (tab st)(n \<mapsto> val v)" using ins[OF assms(1-3)] assms(4) by auto
  have "(tab st)(n := None) = tab st" using assms(3) by (auto simp: fun_eq_iff)
  then show ?thesis using del[OF a(1) assms(2)] a(2) by auto
qed

end

text \<open>Sequences of insertions and removals.\<close>

datatype ('n, 'v) table_op = Insert 'n 'v | Remove 'n

fun table_step where
  "table_step ins del (Insert n v) st = ins n v st"
| "table_step ins del (Remove n) st = del n st"

primrec table_run ::
  "('n \<Rightarrow> 'v \<Rightarrow> 'st \<Rightarrow> ((errno + unit) \<times> 'st) option) \<Rightarrow> ('n \<Rightarrow> 'st \<Rightarrow> ((errno + unit) \<times> 'st) option)
     \<Rightarrow> ('n, 'v) table_op list \<Rightarrow> 'st \<Rightarrow> ((errno + unit) \<times> 'st) option" where
  "table_run ins del [] st = Some (Inr (), st)"
| "table_run ins del (p # ps) st = do {
     (r, st') \<leftarrow> table_step ins del p st;
     if r = Inr () then table_run ins del ps st' else Some (r, st')
   }"

text \<open>The same sequence on a map, and the sequences the kernel issues: new names are not in the table.\<close>

fun map_step :: "('v \<Rightarrow> u64) \<Rightarrow> ('n, 'v) table_op \<Rightarrow> ('n \<rightharpoonup> u64) \<Rightarrow> ('n \<rightharpoonup> u64)" where
  "map_step val (Insert n v) t = t(n \<mapsto> val v)"
| "map_step val (Remove n) t = t(n := None)"

fun ops_ok :: "('n \<Rightarrow> 'v \<Rightarrow> bool) \<Rightarrow> ('v \<Rightarrow> u64) \<Rightarrow> ('n, 'v) table_op list \<Rightarrow> ('n \<rightharpoonup> u64) \<Rightarrow> bool" where
  "ops_ok ok val [] t \<longleftrightarrow> True"
| "ops_ok ok val (Insert n v # ps) t \<longleftrightarrow> ok n v \<and> t n = None \<and> ops_ok ok val ps (t(n \<mapsto> val v))"
| "ops_ok ok val (Remove n # ps) t \<longleftrightarrow> (\<exists>v. ok n v) \<and> t n \<noteq> None \<and> ops_ok ok val ps (t(n := None))"

context name_table
begin

text \<open>The sequence returns; the table is the one of the map after the operations done, all of them on success.\<close>

lemma run_refines:
  assumes "inv st" "ops_ok ok val ps (tab st)"
  shows "\<exists>r st' k. table_run ins del ps st = Some (r, st') \<and> k \<le> length ps
    \<and> tab st' = fold (map_step val) (take k ps) (tab st) \<and> (r = Inr () \<longrightarrow> k = length ps \<and> inv st')"
  using assms
proof (induction ps arbitrary: st)
  case Nil
  then show ?case by simp
next
  case (Cons p ps)
  have step: "\<exists>r st1. table_step ins del p st = Some (r, st1) \<and> (if r = Inr () then inv st1 \<and> tab st1 = map_step val p (tab st)
      \<and> ops_ok ok val ps (tab st1) else tab st1 = tab st)"
  proof (cases p)
    case (Insert n v)
    then show ?thesis using ins[OF Cons.prems(1), of n v] Cons.prems(2) by fastforce
  next
    case (Remove n)
    then obtain v where "ok n v" using Cons.prems(2) by auto
    then show ?thesis using del[OF Cons.prems(1), of n v] Cons.prems(2) Remove by fastforce
  qed
  then obtain r st1 where s: "table_step ins del p st = Some (r, st1)"
    "if r = Inr () then inv st1 \<and> tab st1 = map_step val p (tab st) \<and> ops_ok ok val ps (tab st1) else tab st1 = tab st"
    by blast
  show ?case
  proof (cases "r = Inr ()")
    case True
    then have "inv st1" "ops_ok ok val ps (tab st1)" using s(2) by auto
    from Cons.IH[OF this] obtain r' st' k where "table_run ins del ps st1 = Some (r', st')" "k \<le> length ps"
      "tab st' = fold (map_step val) (take k ps) (tab st1)" "r' = Inr () \<longrightarrow> k = length ps \<and> inv st'"
      by blast
    then show ?thesis using s True by (intro exI[of _ r'] exI[of _ st'] exI[of _ "Suc k"]) simp
  next
    case False
    then show ?thesis using s by (intro exI[of _ r] exI[of _ st1] exI[of _ 0]) simp
  qed
qed

end

section \<open>The directory as a table of names\<close>

type_synonym dir_state = "vinode \<times> nat \<times> fs"

definition dir_look :: "u8 list \<Rightarrow> dir_state \<Rightarrow> (u64 \<times> dir_state) option" where
  "dir_look name = (\<lambda>(dir, pi, s). map_option (\<lambda>(ino, res, dir'). (ino, dir', pi, s)) (pmfs_inode_by_name name dir s))"

definition dir_ins :: "pmfs_transaction option \<Rightarrow> u8 list \<Rightarrow> vinode \<Rightarrow> dir_state \<Rightarrow> ((errno + unit) \<times> dir_state) option" where
  "dir_ins tr name i = (\<lambda>(dir, pi, s). map_option (\<lambda>(r, dir', s'). (r, dir', pi, s')) (pmfs_add_entry tr name (Some i) dir s))"

definition dir_del :: "pmfs_transaction option \<Rightarrow> u8 list \<Rightarrow> dir_state \<Rightarrow> ((errno + unit) \<times> dir_state) option" where
  "dir_del tr name = (\<lambda>(dir, pi, s). map_option (\<lambda>(r, dir', s'). (r, dir', pi, s')) (pmfs_remove_entry tr name dir s))"

abbreviation dir_inv :: "dir_state \<Rightarrow> bool" where "dir_inv \<equiv> \<lambda>(dir, pi, s). dir_ctx dir pi s"
abbreviation dir_tab :: "dir_state \<Rightarrow> u8 list \<rightharpoonup> u64" where "dir_tab \<equiv> \<lambda>(dir, pi, s). dir_map dir pi s"

definition new_entry_ok :: "u8 list \<Rightarrow> vinode \<Rightarrow> bool" where
  "new_entry_ok name i \<longleftrightarrow> name \<noteq> [] \<and> length name \<le> 255 \<and> i_ino i \<noteq> 0"

lemma dir_start_lookup_irrelevant:
  assumes "dir'\<lparr>i_dir_start_lookup := i_dir_start_lookup dir\<rparr> = dir"
  shows "dir_ctx dir' pi s = dir_ctx dir pi s" "dir_map dir' pi s = dir_map dir pi s"
proof -
  have "i_ino (dir'\<lparr>i_dir_start_lookup := i_dir_start_lookup dir\<rparr>) = i_ino dir"
    "i_size (dir'\<lparr>i_dir_start_lookup := i_dir_start_lookup dir\<rparr>) = i_size dir" using assms by simp_all
  then have e: "i_ino dir' = i_ino dir" "i_size dir' = i_size dir" by simp_all
  then have "dir_nblocks dir' = dir_nblocks dir" by (simp add: dir_nblocks_def)
  then show "dir_ctx dir' pi s = dir_ctx dir pi s" "dir_map dir' pi s = dir_map dir pi s"
    by (simp_all add: dir_ctx_def dir_map_def inode_at_ino[OF e(1)] e(2))
qed

interpretation dirs: name_table dir_inv dir_tab new_entry_ok i_ino dir_look "dir_ins tr" "dir_del tr"
  for tr :: "pmfs_transaction option"
proof
  fix st :: dir_state and n :: "u8 list" and v
  obtain dir pi s where st: "st = (dir, pi, s)" by (cases st)
  show "\<exists>st'. dir_look n st = Some (case dir_tab st n of Some i \<Rightarrow> i | None \<Rightarrow> 0, st') \<and> dir_inv st' \<and> dir_tab st' = dir_tab st"
    if inv: "dir_inv st"
  proof -
    obtain res dir' where l: "pmfs_inode_by_name n dir s = Some (case dir_map dir pi s n of Some i \<Rightarrow> i | None \<Rightarrow> 0, res, dir')"
      "dir'\<lparr>i_dir_start_lookup := i_dir_start_lookup dir\<rparr> = dir"
      using inode_by_name_map[of dir pi s n] inv st by auto
    then show ?thesis using dir_start_lookup_irrelevant[OF l(2)] inv by (simp add: st dir_look_def)
  qed
  show "\<exists>r st'. dir_ins tr n v st = Some (r, st')
      \<and> (if r = Inr () then dir_inv st' \<and> dir_tab st' = (dir_tab st)(n \<mapsto> i_ino v) else dir_tab st' = dir_tab st)"
    if a: "dir_inv st" "new_entry_ok n v" "dir_tab st n = None"
  proof -
    obtain r dir' s' where r: "pmfs_add_entry tr n (Some v) dir s = Some (r, dir', s')"
      "if r = Inr () then dir_ctx dir' pi s' \<and> dir_map dir' pi s' = (dir_map dir pi s)(n \<mapsto> i_ino v)
       else dir_map dir' pi s' = dir_map dir pi s"
      using add_entry_result[of dir pi s n v tr] a by (auto simp: st new_entry_ok_def split: if_splits)
    show ?thesis by (rule exI[of _ r], rule exI[of _ "(dir', pi, s')"]) (use r in \<open>simp add: st dir_ins_def\<close>)
  qed
  show "if dir_tab st n = None then dir_del tr n st = Some (Inl EINVAL, st)
      else \<exists>st'. dir_del tr n st = Some (Inr (), st') \<and> dir_inv st' \<and> dir_tab st' = (dir_tab st)(n := None)"
    if "dir_inv st" "new_entry_ok n v"
    using remove_entry_result[of dir pi s n tr] that by (auto simp: st dir_del_def new_entry_ok_def split: if_splits)
qed

lemma dir_run_place:
  "table_run (dir_ins tr) (dir_del tr) ps (dir, pi, s) = Some (r, dir', pi', s') \<Longrightarrow> pi' = pi"
proof (induction ps arbitrary: dir s)
  case (Cons p ps)
  then show ?case
    by (cases p) (auto simp: dir_ins_def dir_del_def split: Option.bind_splits if_splits)
qed simp

section \<open>An example directory\<close>

text \<open>A device whose inode table is the block at 4096. The inode in its second slot is a directory of one
  block, at 8192, with the entries \<open>.\<close> and \<open>..\<close>.\<close>

definition ex_dir :: fs where
  "ex_dir = upd_mem (\<lambda>m. wr64 40 256 (wr64 264 4096 (wr64 4232 8192 (wr64 4240 4096
     (wr64 8192 128 (wr16 8200 16 (wr8 8202 1 (wr8 8204 46
     (wr64 8208 128 (wr16 8216 4080 (wr8 8218 2 (wr8 8220 46 (wr8 8221 46 m))))))))))))) ex_balloc"

definition ex_dir_vinode :: vinode where
  "ex_dir_vinode = ex_vinode\<lparr>i_size := 4096\<rparr>"

lemma ex_dir_fields:
  "pi_height (rd_inode (mem ex_dir) 4224) = 0" "pi_root (rd_inode (mem ex_dir) 4224) = 8192"
  "pi_blk_type (rd_inode (mem ex_dir) 4224) = 0" "pi_height (rd_inode (mem ex_dir) 256) = 0"
  "pi_root (rd_inode (mem ex_dir) 256) = 4096" "pi_blk_type (rd_inode (mem ex_dir) 256) = 0"
  "s_inode_table_offset (rd_super (mem ex_dir) 0) = 256" "s_blocksize ex_dir = 4096" "s_blocksize_bits ex_dir = 12"
  by (simp_all add: rd_inode_def rd_super_def ex_dir_def ex_balloc_simps)

lemma ex_dir_table: "pmfs_get_inode_table ex_dir = 256"
  by (simp add: pmfs_get_inode_table_def ex_dir_fields)

lemma ex_dir_used: "used_blocks ex_dir = {0..3} \<union> {600..700}"
  by (auto simp: used_blocks_def used_def run_of_def ex_dir_def ex_balloc_simps)

lemma ex_dir_balloc: "balloc_inv ex_dir"
  using balloc_inv_ex by (simp add: ex_dir_def)

lemma ex_dir_look: "file_look 4224 (mem ex_dir) k = (if k = 0 then 8192 else 0)"
  by (simp add: file_look_def ex_dir_fields)

lemma ex_dir_meta: "file_meta 4224 (mem ex_dir) = {}" "file_meta 256 (mem ex_dir) = {}" "table_pages ex_dir = {0}"
  by (simp_all add: file_meta_def table_pages_def ex_dir_fields ex_dir_table)

lemma ex_dir_at: "inode_at ex_dir_vinode 4224 ex_dir"
proof -
  have "file_ctx 256 ex_dir" "file_ctx 4224 ex_dir"
    using ex_dir_balloc by (simp_all add: file_ctx_def tree_ctx_def ex_dir_fields ex_dir_used)
  moreover have "pmfs_get_inode ex_dir 128 = Some 4224"
    by (simp add: pmfs_get_inode_def ex_dir_table raw_pmfs_find_data_block_def pmfs_inode_blk_shift_def
        pmfs_inode_blk_size_def ex_dir_fields blk_type_to_shift_def blk_type_to_size_def)
  ultimately show ?thesis
    by (simp add: inode_at_def ex_dir_table ex_dir_meta ex_dir_vinode_def ex_vinode_def ino_block_def pmfs_inode_blk_shift_def
        ex_dir_fields blk_type_to_shift_def)
qed

lemma byte_rd8: "m a = rd8 m a"
  by (simp add: rdw_def)

lemma ex_dir_recs:
  "rd64 (mem ex_dir) 8192 = 128" "rd16 (mem ex_dir) 8200 = 16" "rd8 (mem ex_dir) 8202 = 1"
  "rd64 (mem ex_dir) 8208 = 128" "rd16 (mem ex_dir) 8216 = 4080" "rd8 (mem ex_dir) 8218 = 2"
  by (simp_all add: ex_dir_def ex_balloc_simps)

lemma ex_dir_bytes: "mem ex_dir 8204 = 46" "mem ex_dir 8220 = 46" "mem ex_dir 8221 = 46"
  by (rule trans[OF byte_rd8], simp add: ex_dir_def ex_balloc_simps)+

lemma ex_dir_chain: "dir_chain (mem ex_dir) 12288 8192 [8192, 8208]"
  "dir_live (mem ex_dir) [8192, 8208] = [([46], 128), ([46, 46], 128)]"
  by (simp_all add: rec_ok_def rec_live_def rec_name_def ex_dir_recs ex_dir_bytes PMFS_DIR_REC_LEN_def bytes_at_def upt_rec)

lemma ex_dir_list: "dir_ok (mem ex_dir) 8192 12288" "dir_list (mem ex_dir) 8192 12288 = [([46], 128), ([46, 46], 128)]"
  using dir_chain_dir[OF ex_dir_chain(1)] ex_dir_chain(2) by simp_all

lemma ex_dir_nblocks: "dir_nblocks ex_dir_vinode = 1"
  by (simp add: dir_nblocks_def ex_dir_vinode_def)

lemma ex_dir_entries: "dir_entries 4224 (mem ex_dir) 1 = [([46], 128), ([46, 46], 128)]"
  by (simp add: dir_entries_def dir_blk_list_def dir_base_def ex_dir_look ex_dir_list)

lemma ex_dir_ctx: "dir_ctx ex_dir_vinode 4224 ex_dir"
proof -
  have "dir_page 4224 ex_dir 8192" by (simp add: dir_page_def ex_dir_list ex_dir_meta ex_dir_used)
  then show ?thesis
    unfolding dir_ctx_def ex_dir_nblocks
    using ex_dir_at ex_dir_entries by (simp add: ex_dir_fields ex_dir_look dir_base_def ex_dir_vinode_def lessThan_Suc)
qed

lemma ex_dir_map: "dir_map ex_dir_vinode 4224 ex_dir = [[46] \<mapsto> 128, [46, 46] \<mapsto> 128]"
  unfolding dir_map_def ex_dir_nblocks ex_dir_entries by (simp add: fun_upd_twist)

section \<open>Properties of directories\<close>

text \<open>C6. Lookup refines the map: whatever block the search starts from and however many blocks the
  directory has, \<open>pmfs_inode_by_name\<close> returns the inode number the directory's entries give the name, or 0
  when no entry has it, and changes nothing but the block the next search starts from.\<close>

theorem inode_by_name_refines_map:
  assumes "dir_ctx dir pi s"
  shows "\<exists>res dir'. pmfs_inode_by_name name dir s = Some (case dir_map dir pi s name of Some i \<Rightarrow> i | None \<Rightarrow> 0, res, dir')
    \<and> dir'\<lparr>i_dir_start_lookup := i_dir_start_lookup dir\<rparr> = dir"
  using assms by (rule inode_by_name_map)

theorem inode_by_name_refines_map_witness:
  "(\<exists>res dir'. pmfs_inode_by_name [46, 46] ex_dir_vinode ex_dir = Some (128, res, dir'))
    \<and> (\<exists>res dir'. pmfs_inode_by_name [97] ex_dir_vinode ex_dir = Some (0, res, dir'))"
  using inode_by_name_refines_map[OF ex_dir_ctx, of "[46, 46]"] inode_by_name_refines_map[OF ex_dir_ctx, of "[97]"]
  by (auto simp: ex_dir_map)



text \<open>C9. Removing an entry refines the removal from the map: \<open>pmfs_remove_entry\<close> refuses a name that is not
  in the directory with \<open>EINVAL\<close> and no change; otherwise it succeeds, the blocks stay well formed, and the
  map is the old one without the name.\<close>

theorem remove_entry_refines_map:
  assumes "dir_ctx dir pi s" "name \<noteq> []"
  shows "if dir_map dir pi s name = None then pmfs_remove_entry tr name dir s = Some (Inl EINVAL, dir, s)
    else \<exists>dir' s'. pmfs_remove_entry tr name dir s = Some (Inr (), dir', s')
      \<and> dir_ctx dir' pi s' \<and> dir_map dir' pi s' = (dir_map dir pi s)(name := None)"
  using assms by (rule remove_entry_result)

theorem remove_entry_refines_map_witness:
  "pmfs_remove_entry None [97] ex_dir_vinode ex_dir = Some (Inl EINVAL, ex_dir_vinode, ex_dir)
    \<and> (\<exists>dir' s'. pmfs_remove_entry None [46, 46] ex_dir_vinode ex_dir = Some (Inr (), dir', s')
      \<and> dir_map dir' 4224 s' [46, 46] = None \<and> dir_map dir' 4224 s' [46] = Some 128)"
  using remove_entry_refines_map[OF ex_dir_ctx, of "[97]" None] remove_entry_refines_map[OF ex_dir_ctx, of "[46, 46]" None]
  by (auto simp: ex_dir_map)



end
