(* ===== verification/Dir_Read.thy ===== *)
theory Dir_Read
  imports Dir_Table
begin

text \<open>
  Listing a directory (\<open>pmfs_readdir\<close>), and which of the loops over directory records end when the records are
  damaged.
\<close>

section \<open>Listing a directory\<close>

text \<open>The entry that is emitted for a name and an inode number.\<close>

definition emitted :: "fs \<Rightarrow> u8 list \<times> u64 \<Rightarrow> dir_entry" where
  "emitted s = (\<lambda>(name, ino). (name, ino, IF2DT (pi_mode (rd_inode (mem s) (the (pmfs_get_inode s ino))))))"

definition inode_known :: "fs \<Rightarrow> u64 \<Rightarrow> bool" where
  "inode_known s ino \<longleftrightarrow> (\<exists>p. pmfs_get_inode s ino = Some p \<and> p \<noteq> 0)"

lemma readdir_block_emits:
  fixes pos isize :: u64
  assumes bs: "s_blocksize s = 4096" and sz: "4096 * (k + 1) \<le> unat isize"
    and "dir_chain (mem s) (a + 4096) (a + off) rs" "unat pos = 4096 * k + off"
    and "\<And>d. d \<in> set rs \<Longrightarrow> rec_live (mem s) d \<Longrightarrow> inode_known s (rd64 (mem s) d)"
  shows "\<exists>pos'. readdir_block (\<lambda>_ _. True) isize a off pos out s = Some (False, pos', out @ map (emitted s) (dir_live (mem s) rs))
    \<and> unat pos' = 4096 * (k + 1)"
  using assms(3-5)
proof (induction rs arbitrary: off pos out)
  case Nil
  then have "off = 4096" by simp
  then show ?case using Nil by (subst readdir_block.simps) (simp add: bs)
next
  case (Cons r rs)
  let ?d = "a + off" and ?m = "mem s" let ?len = "rd16 ?m (?d + 8)"
  have c: "rec_ok ?m (a + 4096) ?d" "r = ?d" "dir_chain ?m (a + 4096) (a + (off + unat ?len)) rs"
    using Cons.prems(1) by (simp_all add: add.assoc)
  have off: "off < 4096" "off + unat ?len \<le> 4096" using c(1) by (auto simp: rec_ok_def)
  have chk: "pmfs_check_dir_entry ?d a s" by (rule rec_ok_check) (use c(1) bs in simp_all)
  have ul: "unat (ucast ?len :: u64) = unat ?len" using unat_less_size[of ?len] by (subst unat_ucast_fits) auto
  have iz: "unat isize < 2 ^ 64" using unat_less_size[of isize] by simp
  have pos': "unat (pos + ucast ?len) = 4096 * k + (off + unat ?len)"
    using Cons.prems(2) off sz iz ul by (subst unat_plus_fits) auto
  have in_loop: "pos < isize \<and> off < unat (s_blocksize s)"
    using Cons.prems(2) off(1) sz by (simp add: bs word_less_nat_alt)
  have nm: "de_name (rd_direntry ?m ?d) = rec_name ?m ?d" "de_ino (rd_direntry ?m ?d) = rd64 ?m ?d" "de_len (rd_direntry ?m ?d) = ?len"
    by (simp_all add: rd_direntry_def rec_name_def)
  have step: "readdir_block (\<lambda>_ _. True) isize a off pos out s
    = readdir_block (\<lambda>_ _. True) isize a (off + unat ?len) (pos + ucast ?len)
        (out @ (if rec_live ?m ?d then [emitted s (rec_name ?m ?d, rd64 ?m ?d)] else [])) s"
  proof (cases "rec_live ?m ?d")
    case True
    then obtain p where "pmfs_get_inode s (rd64 ?m ?d) = Some p" "p \<noteq> 0" using Cons.prems(3)[of ?d] c(2) by (auto simp: inode_known_def)
    then show ?thesis using in_loop chk True
      by (subst readdir_block.simps) (simp add: Let_def nm rec_live_def emitted_def)
  next
    case False
    then show ?thesis using in_loop chk by (subst readdir_block.simps) (simp add: Let_def nm rec_live_def)
  qed
  show ?case using Cons.IH[OF c(3) pos', of "out @ (if rec_live ?m ?d then [emitted s (rec_name ?m ?d, rd64 ?m ?d)] else [])"] Cons.prems(3) c(2)
    unfolding step by auto
qed

lemma readdir_loop_emits:
  fixes pos :: u64
  assumes ctx: "dir_ctx dir pi s" and kn: "\<And>n i. (n, i) \<in> set (dir_entries pi (mem s) (dir_nblocks dir)) \<Longrightarrow> inode_known s i"
    and "k \<le> dir_nblocks dir" "unat pos = 4096 * k"
  shows "readdir_loop (\<lambda>_ _. True) dir 0 pos out s
    = Some (i_size dir, out @ map (emitted s) (concat (map (dir_blk_list pi (mem s)) [k..<dir_nblocks dir])))"
  using assms(3,4)
proof (induction "dir_nblocks dir - k" arbitrary: k pos out)
  case 0
  have sz: "unat (i_size dir) = 4096 * dir_nblocks dir" using dir_ctxD(5)[OF ctx] by (simp add: dir_nblocks_def)
  have "k = dir_nblocks dir" using 0 by simp
  then have "pos = i_size dir" using 0(3) sz by (simp add: word_unat_eq_iff)
  then show ?case using \<open>k = dir_nblocks dir\<close> by (subst readdir_loop.simps) simp
next
  case (Suc d)
  let ?a = "dir_base pi (mem s) k"
  have sz: "unat (i_size dir) = 4096 * dir_nblocks dir" using dir_ctxD(5)[OF ctx] by (simp add: dir_nblocks_def)
  have k: "k < dir_nblocks dir" using Suc.hyps(2) by simp
  have ch: "dir_chain (mem s) (?a + 4096) (?a + 0) (dir_recs (mem s) (?a + 4096) ?a)"
    using dir_ctxD(7)[OF ctx k] by (simp add: dir_page_def dir_ok_def)
  have l: "dir_live (mem s) (dir_recs (mem s) (?a + 4096) ?a) = dir_blk_list pi (mem s) k" by (simp add: dir_blk_list_def dir_list_def)
  have known: "inode_known s (rd64 (mem s) x)" if "x \<in> set (dir_recs (mem s) (?a + 4096) ?a)" "rec_live (mem s) x" for x
  proof (rule kn)
    have "(rec_name (mem s) x, rd64 (mem s) x) \<in> set (dir_blk_list pi (mem s) k)" using that by (auto simp: l[symmetric] dir_live_def)
    then show "(rec_name (mem s) x, rd64 (mem s) x) \<in> set (dir_entries pi (mem s) (dir_nblocks dir))" using k by (auto simp: dir_entries_mem)
  qed
  have s1: "4096 * (k + 1) \<le> unat (i_size dir)" using sz k by simp
  have "unat pos = 4096 * k + 0" using Suc.prems(2) by simp
  from readdir_block_emits[OF dir_ctxD(2)[OF ctx] s1 ch this known, of out, unfolded l]
  obtain pos' where p: "readdir_block (\<lambda>_ _. True) (i_size dir) ?a 0 pos out s = Some (False, pos', out @ map (emitted s) (dir_blk_list pi (mem s) k))"
    "unat pos' = 4096 * Suc k" by auto
  have "unat (drop_bit (s_blocksize_bits s) pos) = k" using Suc.prems(2) dir_ctxD(3)[OF ctx] by (simp add: unat_drop_bit_div)
  then have w: "drop_bit (s_blocksize_bits s) pos = of_nat k" by (metis word_of_nat_unat_id)
  have f: "pmfs_find_data_block dir (of_nat k) s = Some (file_look pi (mem s) k)" using find_dir_block[OF ctx] k by simp
  have b: "pmfs_get_block s (file_look pi (mem s) k) = ?a" "?a \<noteq> 0" using dir_base_pos[OF ctx k] by (simp_all add: dir_base_def)
  have lt: "pos < i_size dir" using Suc.prems(2) sz k by (simp add: word_less_nat_alt)
  have step: "readdir_loop (\<lambda>_ _. True) dir 0 pos out s
      = readdir_loop (\<lambda>_ _. True) dir 0 pos' (out @ map (emitted s) (dir_blk_list pi (mem s) k)) s"
    by (subst readdir_loop.simps) (simp only: lt not_True_eq_False if_False w f bind.bind_lunit Let_def b p(1) prod.case)
  show ?case unfolding step
    using Suc.hyps(1)[of "Suc k", OF _ _ p(2)] Suc.hyps(2) k by (simp add: upt_conv_Cons)
qed

section \<open>Searches that end and searches that do not\<close>

lemma by_name_loop_ends:
  fixes n st k :: u64
  assumes f: "\<And>k. pmfs_find_data_block dir k s \<noteq> None"
    and "k < n" "st < n \<or> st = 0" "d = (if st \<le> k then unat n - unat k + unat st else unat st - unat k)"
  shows "by_name_loop name dir n st k s \<noteq> None"
  using assms(2-4)
proof (induction d arbitrary: k rule: less_induct)
  case (less d)
  obtain bp where bp: "pmfs_find_data_block dir k s = Some bp" using f[of k] by auto
  have u: "unat (k + 1) = unat k + 1"
  proof -
    have "unat k < unat n" "unat n < 2 ^ 64" using less.prems(1) unat_less_size[of n] by (simp_all add: word_less_nat_alt)
    then show ?thesis by (subst unat_plus_fits) auto
  qed
  let ?k = "if k + 1 \<ge> n then 0 else k + 1"
  have "by_name_loop name dir n st ?k s \<noteq> None" if ne: "?k \<noteq> st"
  proof (rule less.IH[OF _ _ _ refl])
    show "?k < n" using less.prems(1) by (auto simp: word_less_nat_alt word_le_nat_alt)
    show "st < n \<or> st = 0" by (rule less.prems(2))
    show "(if st \<le> ?k then unat n - unat ?k + unat st else unat st - unat ?k) < d"
      using less.prems ne u by (auto simp: word_less_nat_alt word_le_nat_alt word_unat_eq_iff split: if_splits)
  qed
  then show ?case using bp by (subst by_name_loop.simps) (auto simp: Let_def split: search_result.splits)
qed

lemma by_name_loop_empty:
  assumes "\<And>k. pmfs_find_data_block dir k s \<noteq> None"
  shows "by_name_loop name dir 0 0 0 s \<noteq> None"
proof -
  obtain bp where "pmfs_find_data_block dir 0 s = Some bp" using assms[of 0] by auto
  then show ?thesis by (subst by_name_loop.simps) (auto simp: Let_def split: search_result.splits)
qed

text \<open>A position at the start of a mapped block whose first record fails the checks.\<close>

definition bad_block_at :: "vinode \<Rightarrow> u64 \<Rightarrow> fs \<Rightarrow> bool" where
  "bad_block_at inode pos s \<longleftrightarrow> pos < i_size inode \<and> s_blocksize s = 4096 \<and> unat pos mod 4096 = 0
     \<and> (\<exists>bp. pmfs_find_data_block inode (drop_bit (s_blocksize_bits s) pos) s = Some bp \<and> bp \<noteq> 0
          \<and> \<not> pmfs_check_dir_entry (pmfs_get_block s bp) (pmfs_get_block s bp) s)"

lemma align_aligned:
  fixes pos :: u64
  assumes "unat pos mod 4096 = 0"
  shows "(pos + 4096 - 1) AND NOT (4096 - 1) = pos"
proof -
  have m: "(4096 - 1 :: u64) = mask 12" by (simp add: mask_eq_exp_minus_1)
  obtain q where q: "unat pos = 4096 * q" using assms by auto
  have "unat pos < 2 ^ 64" using unat_less_size[of pos] by simp
  then have "q < 2 ^ 52" unfolding q by simp
  then have fit: "unat pos + 4095 < 2 ^ 64" unfolding q by simp
  have "unat (pos + 4095) = 4096 * q + 4095" using fit q by (subst unat_plus_fits) auto
  then have "unat ((pos + 4095) AND NOT (mask 12)) = unat pos" by (simp add: unat_and_not_mask q)
  then have "(pos + 4095) AND NOT (mask 12) = pos" by (rule word_unat_eq_iff[THEN iffD2])
  then show ?thesis unfolding m by (simp add: add_diff_eq[symmetric])
qed

lemma readdir_loop_stuck:
  assumes "readdir_loop dir_emit inode off pos out s = Some y"
  shows "\<not> (off = 0 \<and> bad_block_at inode pos s)"
proof (rule readdir_loop.raw_induct[of "\<lambda>dir_emit inode off pos out s y. \<not> (off = 0 \<and> bad_block_at inode pos s)", OF _ assms], goal_cases)
  case (1 rec dir_emit inode off pos out s y)
  show ?case
  proof
    assume b: "off = 0 \<and> bad_block_at inode pos s"
    then obtain bp where bp: "pmfs_find_data_block inode (drop_bit (s_blocksize_bits s) pos) s = Some bp" "bp \<noteq> 0"
      "\<not> pmfs_check_dir_entry (pmfs_get_block s bp) (pmfs_get_block s bp) s"
      and p: "pos < i_size inode" "s_blocksize s = 4096" "unat pos mod 4096 = 0" by (auto simp: bad_block_at_def)
    have "readdir_block dir_emit (i_size inode) (pmfs_get_block s bp) 0 pos out s = Some (False, pos, out)"
      using p bp align_aligned[OF p(3)] by (subst readdir_block.simps) (simp add: Let_def)
    moreover have "pmfs_get_block s bp \<noteq> 0" using bp(2) by (simp add: unat_eq_0)
    ultimately have "rec dir_emit inode 0 pos out s = Some y" using 1(2) b p(1) bp(1) by (simp add: Let_def)
    from 1(1)[OF this] b show False by simp
  qed
qed

lemma find_room_stuck:
  assumes "find_room last_de reclen de m = Some y"
  shows "\<not> (de \<le> last_de \<and> de_len (rd_direntry m de) = 0 \<and> 0 < reclen)"
proof (rule find_room.raw_induct[of "\<lambda>last_de reclen de m y. \<not> (de \<le> last_de \<and> de_len (rd_direntry m de) = 0 \<and> 0 < reclen)", OF _ assms], goal_cases)
  case (1 rec last_de reclen de m y)
  show ?case
  proof
    assume b: "de \<le> last_de \<and> de_len (rd_direntry m de) = 0 \<and> 0 < reclen"
    then have "rec last_de reclen de m = Some y" using 1(2) by (auto simp: Let_def split: if_splits)
    from 1(1)[OF this] b show False by simp
  qed
qed

section \<open>Properties of listing and searching\<close>

text \<open>C27. Listing a directory from its start emits every entry of the directory's map exactly once, in the
  order of the records, and leaves the position at the end, when the callback takes every entry and the
  inodes named are in the table.\<close>

theorem readdir_emits_every_entry:
  assumes "dir_ctx dir pi s"
    and "\<forall>(name, ino)\<in>set (dir_entries pi (mem s) (dir_nblocks dir)). inode_known s ino"
  shows "pmfs_readdir (\<lambda>_ _. True) dir 0 s = Some (i_size dir, map (emitted s) (dir_entries pi (mem s) (dir_nblocks dir)))
    \<and> distinct (map fst (dir_entries pi (mem s) (dir_nblocks dir)))
    \<and> map_of (dir_entries pi (mem s) (dir_nblocks dir)) = dir_map dir pi s"
  using readdir_loop_emits[OF assms(1), of 0 0 "[]"] assms(2) dir_ctxD(9)[OF assms(1)]
  by (auto simp: pmfs_readdir_def dir_entries_def dir_map_def)

theorem readdir_emits_every_entry_witness:
  "pmfs_readdir (\<lambda>_ _. True) ex_dir_vinode 0 ex_dir = Some (4096, [([46], 128, 0), ([46, 46], 128, 0)])"
proof -
  have g: "pmfs_get_inode ex_dir 128 = Some 4224"
    using inode_atD(7)[OF ex_dir_at] by (simp add: ex_dir_vinode_def ex_vinode_def)
  then have k: "inode_known ex_dir 128" by (simp add: inode_known_def)
  have "pi_mode (rd_inode (mem ex_dir) 4224) = 0" by (simp add: rd_inode_def ex_dir_def ex_balloc_simps)
  then have e: "emitted ex_dir (n, 128) = (n, 128, 0)" for n by (simp add: emitted_def g IF2DT_def)
  have "pmfs_readdir (\<lambda>_ _. True) ex_dir_vinode 0 ex_dir
      = Some (i_size ex_dir_vinode, map (emitted ex_dir) (dir_entries 4224 (mem ex_dir) (dir_nblocks ex_dir_vinode)))"
    using readdir_emits_every_entry[OF ex_dir_ctx] unfolding ex_dir_nblocks ex_dir_entries using k by simp
  then show ?thesis unfolding ex_dir_nblocks ex_dir_entries by (simp add: e ex_dir_vinode_def)
qed



text \<open>C34. Listing does not get past a damaged block: when the position is at the start of a block whose first
  record fails the checks, rounding the position up to the block size leaves it where it is, and
  \<open>pmfs_readdir\<close> never returns.\<close>

theorem readdir_stuck_at_bad_block:
  assumes "bad_block_at inode pos s"
  shows "pmfs_readdir dir_emit inode pos s = None"
proof -
  have p: "s_blocksize s = 4096" "unat pos mod 4096 = 0" using assms by (simp_all add: bad_block_at_def)
  have "unat (pos AND mask 12) = unat pos mod 2 ^ 12" by (rule unat_and_mask)
  then have "unat (pos AND (s_blocksize s - 1)) = 0" using p by (simp add: mask_eq_exp_minus_1)
  then show ?thesis
    unfolding pmfs_readdir_def using readdir_loop_stuck[of dir_emit inode 0 pos "[]" s] assms
    by (cases "readdir_loop dir_emit inode 0 pos [] s") auto
qed

lemma ex_file_bad_block: "bad_block_at ex_vinode 12288 ex_file"
proof -
  have "rd64 (mem ex_file) 8216 = 20480" "rd16 (mem ex_file) 20488 = 0" by (simp_all add: ex_file_def ex_balloc_simps)
  then have l: "file_look 4224 (mem ex_file) 3 = 20480" and c: "\<not> pmfs_check_dir_entry 20480 20480 ex_file"
    by (simp_all add: file_look_def ex_file_inode child_def pmfs_check_dir_entry_def rd_direntry_def PMFS_DIR_REC_LEN_def)
  have b: "s_blocksize_bits ex_file = 12" "s_blocksize ex_file = 4096" by (simp_all add: ex_file_def ex_balloc_simps)
  have "pmfs_find_data_block ex_vinode 3 ex_file = Some 20480"
    using find_data_block_file[OF ex_file_ctx, of ex_vinode 3] l b
    by (simp add: ex_vinode_def ex_file_get_inode ex_file_inode blk_type_to_shift_def)
  then show ?thesis using c b by (simp add: bad_block_at_def ex_vinode_def)
qed

theorem readdir_stuck_at_bad_block_witness: "pmfs_readdir (\<lambda>_ _. True) ex_vinode 12288 ex_file = None"
  using readdir_stuck_at_bad_block[OF ex_file_bad_block] by simp

text \<open>C35. Insertion does not get past a record of length 0: in a block that starts with one,
  \<open>pmfs_add_dirent_to_buf\<close> searches for room forever.\<close>

theorem add_dirent_stuck_at_empty_record:
  assumes "s_blocksize s = 4096" "length name \<le> 255" "de_len (rd_direntry (mem s) blk_base) = 0"
  shows "pmfs_add_dirent_to_buf tr name inode None blk_base pidir dir s = None"
proof -
  let ?r = "PMFS_DIR_REC_LEN (length name)"
  have "0 < ?r" "?r \<le> 4096" using REC_LEN_bounds(1,2)[of "length name"] assms(2) by auto
  then have "find_room (blk_base + unat (s_blocksize s) - ?r) ?r blk_base (mem s) = None"
    using find_room_stuck[of "blk_base + unat (s_blocksize s) - ?r" ?r blk_base "mem s"] assms(1,3)
    by (cases "find_room (blk_base + unat (s_blocksize s) - ?r) ?r blk_base (mem s)") auto
  then show ?thesis by (simp add: pmfs_add_dirent_to_buf_def Let_def)
qed

theorem add_dirent_stuck_at_empty_record_witness:
  "pmfs_add_dirent_to_buf None [97] None None 20480 4224 ex_vinode ex_file = None"
  using add_dirent_stuck_at_empty_record[of ex_file "[97]" 20480]
  by (simp add: rd_direntry_def) (simp add: ex_file_def ex_balloc_simps)

end
