(* ===== verification/Inode_Table.thy ===== *)
theory Inode_Table
  imports Dir_Table
begin

text \<open>
  Inodes on the media. The first part writes a VFS inode with \<open>pmfs_update_inode\<close> and reads it back with
  \<open>pmfs_read_inode\<close>, down to the single flag bits. The second reads the inode table as an array of slots and
  shows which slot \<open>find_free_inode\<close> and \<open>pmfs_new_inode\<close> take. The third is the list of inodes with a truncate to
  finish, which \<open>pmfs_truncate_add\<close> and \<open>pmfs_truncate_del\<close> keep both in memory and, linked through the inodes, on
  the media.
\<close>

section \<open>Flags\<close>

definition flagbit :: "nat \<Rightarrow> u32" where
  "flagbit n = 2 ^ n"

lemma flagbit_test: "n < 32 \<Longrightarrow> x AND flagbit n \<noteq> 0 \<longleftrightarrow> bit x n"
  by (simp add: flagbit_def and_exp_eq_0_iff_not_bit)

lemma bit_flagbit: "bit (flagbit n) k \<longleftrightarrow> k = n \<and> n < 32"
  by (auto simp: flagbit_def bit_exp_iff)

lemma flag_if_bit: "bit (flag_if fl a b acc) k \<longleftrightarrow> bit acc k \<or> fl AND a \<noteq> 0 \<and> bit b k"
  by (auto simp: flag_if_def bit_or_iff)

lemma flag_consts:
  "(1 :: u32) = flagbit 0" "(2 :: u32) = flagbit 1" "(4 :: u32) = flagbit 2" "(8 :: u32) = flagbit 3" "(0x10 :: u32) = flagbit 4"
  "(0x20 :: u32) = flagbit 5" "(64 :: u32) = flagbit 6" "(0x80 :: u32) = flagbit 7" "(0x10000 :: u32) = flagbit 16" "(8192 :: u32) = flagbit 13"
  by (simp_all add: flagbit_def)

text \<open>The flags that both the VFS inode and the media keep.\<close>

lemma get_inode_flags_bits:
  "bit (pi_flags (rd_inode (pmfs_get_inode_flags inode pi m) pi)) k \<longleftrightarrow>
     (if k = 3 then bit (i_flags inode) 0 else if k = 5 then bit (i_flags inode) 2 else if k = 4 then bit (i_flags inode) 3
      else if k = 7 then bit (i_flags inode) 1 else if k = 16 then bit (i_flags inode) 6
      else bit (pi_flags (rd_inode m pi)) k)"
proof -
  have k: "bit (x :: u32) k \<Longrightarrow> k < 32" for x using bit_imp_le_length[of x k] by simp
  have "pi_flags (rd_inode (pmfs_get_inode_flags inode pi m) pi)
    = rd32 (pmfs_get_inode_flags inode pi m) (pi + 4)" by (simp add: rd_inode_def)
  then show ?thesis unfolding pmfs_get_inode_flags_def Let_def
    unfolding flag_consts
    by (auto simp: flag_if_bit flagbit_test bit_flagbit bit_and_iff bit_or_iff bit_not_iff dest: k)
qed

lemma set_inode_flags_bits:
  "bit (i_flags (pmfs_set_inode_flags inode pi m)) k \<longleftrightarrow> k = 13 \<or>
     (let fl = pi_flags (rd_inode m pi) in
      if k = 0 then bit fl 3 else if k = 2 then bit fl 5 else if k = 3 then bit fl 4 else if k = 1 then bit fl 7
      else if k = 6 then bit fl 16 else bit (i_flags inode) k)"
proof -
  have k: "bit (x :: u32) k \<Longrightarrow> k < 32" for x using bit_imp_le_length[of x k] by simp
  show ?thesis unfolding pmfs_set_inode_flags_def Let_def
    unfolding flag_consts
    by (auto simp: flag_if_bit flagbit_test bit_flagbit bit_and_iff bit_or_iff bit_not_iff dest: k)
qed

lemma set_inode_flags_other: "pmfs_set_inode_flags inode pi m = inode\<lparr>i_flags := i_flags (pmfs_set_inode_flags inode pi m)\<rparr>"
  by (simp add: pmfs_set_inode_flags_def Let_def)

section \<open>Writing an inode and reading it back\<close>

lemma get_inode_flags_other:
  "x < pi + 4 \<or> pi + 8 \<le> x \<Longrightarrow> pmfs_get_inode_flags inode pi m x = m x"
  by (auto simp: pmfs_get_inode_flags_def Let_def wrw_apply_other)

lemma get_inode_flags_rd:
  "b + LENGTH('b) div 8 \<le> pi + 4 \<or> pi + 8 \<le> b \<Longrightarrow> (rdw (pmfs_get_inode_flags inode pi m) b :: 'b::len word) = rdw m b"
  by (rule rdw_cong) (auto simp: get_inode_flags_other)

lemma update_inode_fields:
  fixes v pi m
  defines "p \<equiv> rd_inode (pmfs_update_inode v pi m) pi"
  shows "pi_mode p = i_mode v" "pi_uid p = i_uid v" "pi_gid p = i_gid v" "pi_links_count p = ucast (i_nlink v)"
    "pi_size p = i_size v" "pi_atime p = i_atime v" "pi_ctime p = i_ctime v" "pi_mtime p = i_mtime v"
    "pi_generation p = i_generation v" "pi_blocks p = i_blocks v" "pi_dtime p = pi_dtime (rd_inode m pi)"
    "pi_height p = pi_height (rd_inode m pi)" "pi_root p = pi_root (rd_inode m pi)" "pi_blk_type p = pi_blk_type (rd_inode m pi)"
    "bit (pi_flags p) k = (if k = 3 then bit (i_flags v) 0 else if k = 5 then bit (i_flags v) 2 else if k = 4 then bit (i_flags v) 3
      else if k = 7 then bit (i_flags v) 1 else if k = 16 then bit (i_flags v) 6 else bit (pi_flags (rd_inode m pi)) k)"
proof -
  define m1 where "m1 = wr32 (pi + 56) (i_generation v) (wr32 (pi + 28) (i_mtime v)
            (wr32 (pi + 24) (i_ctime v) (wr32 (pi + 60) (i_atime v)
            (wr64 (pi + 40) (i_blocks v) (wr64 (pi + 16) (i_size v)
            (wr16 (pi + 38) (ucast (i_nlink v)) (wr32 (pi + 52) (i_gid v)
            (wr32 (pi + 48) (i_uid v) (wr16 (pi + 36) (i_mode v) m)))))))))"
  let ?m2 = "pmfs_get_inode_flags v pi m1"
  have u: "pmfs_update_inode v pi m = (if S_ISCHR (i_mode v) \<or> S_ISBLK (i_mode v) then wr32 (pi + 64) (i_rdev v) ?m2 else ?m2)"
    by (simp add: pmfs_update_inode_def m1_def Let_def)
  have m1: "pi_flags (rd_inode m1 pi) = pi_flags (rd_inode m pi)" by (simp add: m1_def rd_inode_def)
  show "pi_mode p = i_mode v" "pi_uid p = i_uid v" "pi_gid p = i_gid v" "pi_links_count p = ucast (i_nlink v)"
    "pi_size p = i_size v" "pi_atime p = i_atime v" "pi_ctime p = i_ctime v" "pi_mtime p = i_mtime v"
    "pi_generation p = i_generation v" "pi_blocks p = i_blocks v" "pi_dtime p = pi_dtime (rd_inode m pi)"
    "pi_height p = pi_height (rd_inode m pi)" "pi_root p = pi_root (rd_inode m pi)" "pi_blk_type p = pi_blk_type (rd_inode m pi)"
    unfolding p_def u by (simp_all add: rd_inode_def get_inode_flags_rd m1_def)
  have "pi_flags p = pi_flags (rd_inode ?m2 pi)" unfolding p_def u by (simp add: rd_inode_def)
  then show "bit (pi_flags p) k = (if k = 3 then bit (i_flags v) 0 else if k = 5 then bit (i_flags v) 2 else if k = 4 then bit (i_flags v) 3
      else if k = 7 then bit (i_flags v) 1 else if k = 16 then bit (i_flags v) 6 else bit (pi_flags (rd_inode m pi)) k)"
    using get_inode_flags_bits[of v pi m1 k] m1 by simp
qed

lemma update_inode_frame: "x < pi + 4 \<or> pi + 68 \<le> x \<or> pi + 8 \<le> x \<and> x < pi + 16 \<Longrightarrow> pmfs_update_inode v pi m x = m x"
  by (auto simp: pmfs_update_inode_def Let_def wrw_apply_other get_inode_flags_other)

text \<open>The VFS inode read back: the written fields, and the flags merged.\<close>

definition read_back :: "vinode \<Rightarrow> vinode \<Rightarrow> vinode \<Rightarrow> bool" where
  "read_back v w v' \<longleftrightarrow>
     v' = v\<lparr>i_ino := i_ino w, i_rdev := i_rdev w, i_dir_start_lookup := i_dir_start_lookup w, i_flags := i_flags v'\<rparr>
     \<and> (\<forall>k. bit (i_flags v') k \<longleftrightarrow> k = 13 \<or> bit (if k \<in> {0, 1, 2, 3, 6} then i_flags v else i_flags w) k)"

section \<open>The search for a free inode\<close>

text \<open>The inode table as an array of slots: block \<open>i div n\<close> of the table, with \<open>n\<close> slots of 128 bytes in each.\<close>

definition table_slots :: "fs \<Rightarrow> nat" where
  "table_slots s = 2 ^ (pmfs_inode_blk_shift s (pmfs_get_inode_table s) - 7)"

definition slot :: "fs \<Rightarrow> nat \<Rightarrow> nat" where
  "slot s i = unat (file_look (pmfs_get_inode_table s) (mem s) (i div table_slots s)) + 128 * (i mod table_slots s)"

definition table_ok :: "fs \<Rightarrow> nat \<Rightarrow> bool" where
  "table_ok s num \<longleftrightarrow> file_ctx (pmfs_get_inode_table s) s \<and> num \<le> 2 ^ 24
     \<and> (\<forall>i<num. file_look (pmfs_get_inode_table s) (mem s) (i div table_slots s) \<noteq> 0)"

lemma table_shift:
  assumes "table_ok s num"
  obtains k where "pmfs_inode_blk_shift s (pmfs_get_inode_table s) = k + 7" "k = 5 \<or> k = 14 \<or> k = 23" "table_slots s = 2 ^ k"
    "INODES_PER_BLOCK (pi_blk_type (rd_inode (mem s) (pmfs_get_inode_table s))) = 2 ^ k"
    "ucast (pmfs_inode_blk_size s (pmfs_get_inode_table s)) = (2 ^ (k + 7) :: u64)"
proof -
  let ?bt = "pi_blk_type (rd_inode (mem s) (pmfs_get_inode_table s))"
  have "?bt \<le> 2" using assms by (simp add: table_ok_def file_ctx_def Let_def)
  then have "unat ?bt \<le> 2" by (simp add: word_le_nat_alt)
  then have "unat ?bt = 0 \<or> unat ?bt = 1 \<or> unat ?bt = 2" by linarith
  then show thesis
  proof (elim disjE)
    assume b: "unat ?bt = 0"
    show thesis by (rule that[of 5]) (simp_all add: pmfs_inode_blk_shift_def pmfs_inode_blk_size_def table_slots_def INODES_PER_BLOCK_def
        blk_type_to_shift_def blk_type_to_size_def b)
  next
    assume b: "unat ?bt = 1"
    show thesis by (rule that[of 14]) (simp_all add: pmfs_inode_blk_shift_def pmfs_inode_blk_size_def table_slots_def INODES_PER_BLOCK_def
        blk_type_to_shift_def blk_type_to_size_def b)
  next
    assume b: "unat ?bt = 2"
    show thesis by (rule that[of 23]) (simp_all add: pmfs_inode_blk_shift_def pmfs_inode_blk_size_def table_slots_def INODES_PER_BLOCK_def
        blk_type_to_shift_def blk_type_to_size_def b)
  qed
qed

lemma unat_scast_fits:
  fixes x :: u32
  assumes "unat x < 2 ^ 31"
  shows "unat (scast x :: u64) = unat x"
proof -
  have u: "uint x = int (unat x)" by simp
  have "int (unat x) < int (2 ^ 31)" using assms by (rule of_nat_less_iff[THEN iffD2])
  then have b: "uint x < 2 ^ 31" unfolding u by (simp only: of_nat_power of_nat_numeral)
  have "sint x = uint x" by (simp add: sint_uint) (rule signed_take_bit_int_eq_self, use b uint_ge_0[of x] in \<open>simp_all, linarith\<close>)
  then have "(scast x :: u64) = word_of_int (uint x)" by (simp add: scast_eq)
  also have "\<dots> = of_nat (unat x)" unfolding u by (simp only: of_int_of_nat_eq)
  finally have e: "(scast x :: u64) = of_nat (unat x)" .
  show ?thesis unfolding e by (rule unat_of_nat_64) (use assms in simp)
qed

lemma unat_inode_number:
  fixes i :: u32
  assumes "unat i < 2 ^ 24"
  shows "unat (scast (push_bit 7 i) :: u64) = 128 * unat i"
proof -
  have "unat (push_bit 7 i) = 128 * unat i" using assms by (subst unat_push_bit_fits) auto
  then show ?thesis using assms by (subst unat_scast_fits) auto
qed

lemma inode_number_eq:
  fixes i :: u32
  assumes "unat i < 2 ^ 24"
  shows "(scast (push_bit 7 i) :: u64) = of_nat (unat i * 128)"
proof -
  have "unat (scast (push_bit 7 i) :: u64) = unat i * 128" using unat_inode_number[OF assms] by simp
  also have "\<dots> = unat (of_nat (unat i * 128) :: u64)" using assms by (subst unat_of_nat_64) auto
  finally show ?thesis by (rule word_unat_eq_iff[THEN iffD2])
qed

lemma get_inode_slot:
  fixes i :: u32
  assumes ok: "table_ok s num" and i: "0 < unat i" "unat i < num"
  shows "pmfs_get_inode s (scast (push_bit 7 i)) = Some (slot s (unat i))" "slot s (unat i) \<noteq> 0"
proof -
  let ?T = "pmfs_get_inode_table s"
  obtain k where k: "pmfs_inode_blk_shift s ?T = k + 7" "k = 5 \<or> k = 14 \<or> k = 23" "table_slots s = 2 ^ k"
    "ucast (pmfs_inode_blk_size s ?T) = (2 ^ (k + 7) :: u64)" using table_shift[OF ok] by metis
  have p2: "(2::nat) ^ (k + 7) = 128 * 2 ^ k" by (simp add: power_add)
  have i24: "unat i < 2 ^ 24" using ok i(2) by (simp add: table_ok_def)
  note w = unat_inode_number[OF i24]
  let ?ino = "scast (push_bit 7 i) :: u64"
  have nz: "?ino \<noteq> 0" using w i(1) by (metis mult_eq_0_iff not_gr_zero unat_0 zero_neq_numeral)
  have blk: "ino_block s ?ino = unat i div table_slots s"
    unfolding ino_block_def k(1,3) w p2 by simp
  have look: "file_look ?T (mem s) (unat i div table_slots s) \<noteq> 0" and ctx: "file_ctx ?T s"
    using ok i(2) by (simp_all add: table_ok_def)
  then have cap: "ino_block s ?ino < 512 ^ unat (pi_height (rd_inode (mem s) ?T))"
    by (auto simp: blk file_look_def Let_def split: if_splits)
  have "unat (?ino AND (2 ^ (k + 7) - 1)) = unat ?ino mod 2 ^ (k + 7)"
    using unat_and_mask[of ?ino "k + 7"] by (simp add: mask_eq_exp_minus_1)
  also have "\<dots> = 128 * (unat i mod table_slots s)"
    unfolding w k(3) p2 by (simp only: mult_mod_right)
  finally have off: "unat (?ino AND (ucast (pmfs_inode_blk_size s ?T) - 1)) = 128 * (unat i mod table_slots s)" unfolding k(4) .
  show "pmfs_get_inode s ?ino = Some (slot s (unat i))"
    using get_inode_reads[OF ctx refl cap nz] look by (simp add: blk off slot_def Let_def)
  show "slot s (unat i) \<noteq> 0" using look by (simp add: slot_def unat_eq_0)
qed

lemma scan_inodes_first:
  fixes i :: u32
  assumes "unat i + n < 2 ^ 32"
  shows "\<exists>c\<le>n. scan_inodes m n p i = (i + of_nat c, p + 128 * c) \<and> (\<forall>d<c. \<not> inode_free m (p + 128 * d))
    \<and> (c < n \<longrightarrow> inode_free m (p + 128 * c))"
  using assms
proof (induction n arbitrary: p i)
  case 0
  then show ?case by simp
next
  case (Suc n)
  show ?case
  proof (cases "inode_free m p")
    case True
    then show ?thesis by (intro exI[of _ 0]) simp
  next
    case False
    have "unat (i + 1) = unat i + 1" using Suc.prems by (subst unat_plus_fits) auto
    then obtain c where c: "c \<le> n" "scan_inodes m n (p + 128) (i + 1) = (i + 1 + of_nat c, p + 128 + 128 * c)"
      "\<forall>d<c. \<not> inode_free m (p + 128 + 128 * d)" "c < n \<longrightarrow> inode_free m (p + 128 + 128 * c)"
      using Suc.IH[of "i + 1" "p + 128"] Suc.prems by auto
    have "\<not> inode_free m (p + 128 * d)" if "d < Suc c" for d
      using False c(3) that by (cases d) (auto simp: algebra_simps)
    then show ?thesis using c False by (intro exI[of _ "Suc c"]) (auto simp: algebra_simps)
  qed
qed

lemma end_of_block:
  fixes i :: u32
  assumes "k \<le> 23" "unat i < 2 ^ 24"
  shows "unat (i + (2 ^ k - (i AND (2 ^ k - 1)))) = (unat i div 2 ^ k + 1) * 2 ^ k" "(unat i div 2 ^ k + 1) * 2 ^ k < 2 ^ 26"
proof -
  let ?n = "(2::nat) ^ k"
  have n: "?n \<le> 2 ^ 23" using assms(1) by (rule power_increasing) simp
  have md: "unat i mod ?n < ?n" "unat i mod ?n + unat i div ?n * ?n = unat i" by (simp, rule mod_div_mult_eq)
  have m: "unat (i AND (2 ^ k - 1)) = unat i mod ?n" using unat_and_mask[of i k] by (simp add: mask_eq_exp_minus_1)
  have p: "unat (2 ^ k :: u32) = ?n" 
  proof -
    have "(2 ^ k :: u32) = of_nat (2 ^ k)" by simp
    then show ?thesis using n unat_of_nat[of "2 ^ k", where 'a = 32] by simp
  qed
  have d: "unat (2 ^ k - (i AND (2 ^ k - 1))) = ?n - unat i mod ?n"
    using md(1) by (subst unat_minus_fits) (auto simp: word_le_nat_alt p m)
  have s: "unat i + (?n - unat i mod ?n) = (unat i div ?n + 1) * ?n" using md by simp
  show lt: "(unat i div ?n + 1) * ?n < 2 ^ 26" unfolding s[symmetric] using assms(2) n by simp
  show "unat (i + (2 ^ k - (i AND (2 ^ k - 1)))) = (unat i div ?n + 1) * ?n"
    using lt s d by (subst unat_plus_fits) auto
qed

lemma slot_same_block: "(a + d) div table_slots s = a div table_slots s \<Longrightarrow> slot s (a + d) = slot s a + 128 * d"
proof -
  let ?n = "table_slots s"
  assume e: "(a + d) div ?n = a div ?n"
  have "(a + d) div ?n * ?n + (a + d) mod ?n = a + d" "a div ?n * ?n + a mod ?n = a" by simp_all
  then have "(a + d) mod ?n = a mod ?n + d" unfolding e by linarith
  then show ?thesis by (simp add: slot_def e algebra_simps)
qed

lemma find_free_inode_scan:
  fixes i num :: u32
  assumes ok: "table_ok s (unat num)" and ipb: "ipb = INODES_PER_BLOCK (pi_blk_type (rd_inode (mem s) (pmfs_get_inode_table s)))"
    and "0 < unat i"
  shows "\<exists>j q. find_free_inode ipb num i pi s = Some (j, q) \<and> i \<le> j
    \<and> (\<forall>k. unat i \<le> k \<longrightarrow> k < unat j \<longrightarrow> \<not> inode_free (mem s) (slot s k))
    \<and> (j < num \<longrightarrow> q = slot s (unat j) \<and> inode_free (mem s) (slot s (unat j)))"
  using assms(3)
proof (induction "unat num - unat i" arbitrary: i pi rule: less_induct)
  case less
  show ?case
  proof (cases "i < num")
    case False
    then show ?thesis by (intro exI[of _ i] exI[of _ pi]) (subst find_free_inode.simps, simp)
  next
    case True
    then have lt: "unat i < unat num" by (simp add: word_less_nat_alt)
    obtain k where k: "k = 5 \<or> k = 14 \<or> k = 23" "table_slots s = 2 ^ k" "ipb = 2 ^ k" using table_shift[OF ok] ipb by metis
    let ?n = "table_slots s" and ?e = "(unat i div 2 ^ k + 1) * 2 ^ k" and ?stop = "i + (ipb - (i AND (ipb - 1)))"
    have "unat i < 2 ^ 24" "k \<le> 23" using ok lt k(1) by (auto simp: table_ok_def)
    note E = end_of_block[OF this(2,1), folded k(3)]
    have ie: "unat i < ?e" using dividend_less_div_times[of "2 ^ k" "unat i"] by (simp add: algebra_simps)
    have cnt: "unat (?stop - i) = ?e - unat i" using ie E(1) by (subst unat_minus_fits) (auto simp: word_le_nat_alt)
    note sl = get_inode_slot[OF ok less.prems lt]
    have same: "slot s (unat i + d) = slot s (unat i) + 128 * d" if "unat i + d < ?e" for d
    proof (rule slot_same_block)
      have "unat i div 2 ^ k \<le> (unat i + d) div 2 ^ k" by (intro div_le_mono) simp
      moreover have "(unat i + d) div 2 ^ k < unat i div 2 ^ k + 1" using that by (simp add: div_less_iff_less_mult)
      ultimately show "(unat i + d) div ?n = unat i div ?n" by (simp add: k(2))
    qed
    have "unat i + (?e - unat i) < 2 ^ 32" using ie E(2) by simp
    from scan_inodes_first[OF this, of "mem s" "slot s (unat i)"]
    obtain c where c: "c \<le> ?e - unat i" "scan_inodes (mem s) (?e - unat i) (slot s (unat i)) i = (i + of_nat c, slot s (unat i) + 128 * c)"
      "\<forall>d<c. \<not> inode_free (mem s) (slot s (unat i) + 128 * d)" "c < ?e - unat i \<longrightarrow> inode_free (mem s) (slot s (unat i) + 128 * c)" by blast
    have uc: "unat (i + of_nat c) = unat i + c"
      using c(1) ie E(2) by (subst unat_plus_fits) (auto simp: unat_of_nat)
    have busy: "\<not> inode_free (mem s) (slot s x)" if x: "unat i \<le> x" "x < unat i + c" for x
    proof -
      obtain d where d: "x = unat i + d" using x(1) by (auto simp: le_iff_add)
      then have "d < c" "unat i + d < ?e" using x(2) c(1) ie by auto
      then show ?thesis using c(3) same[of d] d by simp
    qed
    have st: "find_free_inode ipb num i pi s = (if i + of_nat c < ?stop then Some (i + of_nat c, slot s (unat i) + 128 * c)
        else find_free_inode ipb num (i + of_nat c) (slot s (unat i) + 128 * c) s)"
      by (subst find_free_inode.simps) (simp only: True if_True Let_def sl bind.bind_lunit if_False cnt c(2) prod.case)
    show ?thesis
    proof (cases "i + of_nat c < ?stop")
      case in_blk: True
      then have "unat i + c < ?e" by (simp add: word_less_nat_alt E(1) uc)
      then have "slot s (unat (i + of_nat c)) = slot s (unat i) + 128 * c" "inode_free (mem s) (slot s (unat i) + 128 * c)"
        using same[of c] c(4) uc by auto
      then show ?thesis using st in_blk busy uc by (auto simp: word_le_nat_alt)
    next
      case False
      let ?i = "i + of_nat c"
      have "unat ?i = ?e" using False c(1) ie uc E(1) by (simp add: word_less_nat_alt)
      then have "unat num - unat ?i < unat num - unat i" "0 < unat ?i" using ie lt by auto
      from less.hyps[OF this, of "slot s (unat i) + 128 * c"]
      obtain j q where j: "find_free_inode ipb num ?i (slot s (unat i) + 128 * c) s = Some (j, q)" "?i \<le> j"
        "\<forall>k. unat ?i \<le> k \<longrightarrow> k < unat j \<longrightarrow> \<not> inode_free (mem s) (slot s k)"
        "j < num \<longrightarrow> q = slot s (unat j) \<and> inode_free (mem s) (slot s (unat j))" by blast
      have "\<not> inode_free (mem s) (slot s x)" if "unat i \<le> x" "x < unat j" for x
        using busy[OF that(1)] j(3) that(2) uc by (cases "x < unat i + c") auto
      moreover have "i \<le> j" using j(2) uc by (simp add: word_le_nat_alt)
      ultimately show ?thesis using st False j by auto
    qed
  qed
qed

section \<open>The truncate list\<close>

text \<open>\<open>trunc_chain m ad l p\<close>: from the inode number \<open>p\<close>, the links on the media run through \<open>l\<close> and end with 0. \<open>ad\<close>
  gives the address of an inode.\<close>

fun trunc_chain :: "mem \<Rightarrow> (u64 \<Rightarrow> nat) \<Rightarrow> u64 list \<Rightarrow> u64 \<Rightarrow> bool" where
  "trunc_chain m ad [] p \<longleftrightarrow> p = 0"
| "trunc_chain m ad (x # l) p \<longleftrightarrow> p = x \<and> trunc_chain m ad l (rd64 m (ad x + 88))"

definition inode_addr :: "fs \<Rightarrow> u64 \<Rightarrow> nat" where
  "inode_addr s ino = the (pmfs_get_inode s ino)"

text \<open>The inode is in the table, in a slot outside the pages that locate inodes.\<close>

definition in_table :: "fs \<Rightarrow> u64 \<Rightarrow> bool" where
  "in_table s ino \<longleftrightarrow> ino \<noteq> 0
     \<and> ino_block s ino < 512 ^ unat (pi_height (rd_inode (mem s) (pmfs_get_inode_table s)))
     \<and> (\<exists>a. pmfs_get_inode s ino = Some a \<and> a \<noteq> 0 \<and> a mod 128 = 0 \<and> a div 4096 \<notin> table_pages s)"

definition trunc_ctx :: "fs \<Rightarrow> bool" where
  "trunc_ctx s \<longleftrightarrow> (let T = pmfs_get_inode_table s; l = s_truncate (sbi s) in
     file_ctx T s \<and> T + 128 \<le> 4096 \<and> 48 \<le> T \<and> 0 \<notin> file_meta T (mem s)
     \<and> distinct l \<and> (\<forall>x\<in>set l. in_table s x) \<and> inj_on (inode_addr s) (set l)
     \<and> trunc_chain (mem s) (inode_addr s) l (rd64 (mem s) (T + 88)))"

lemma get_inode_frame:
  fixes s s' :: fs
  defines "T \<equiv> pmfs_get_inode_table s"
  assumes ctx: "file_ctx T s"
    and same: "\<And>x. 40 \<le> x \<Longrightarrow> x < 48 \<Longrightarrow> mem s' x = mem s x" "\<And>x. T + 2 \<le> x \<Longrightarrow> x < T + 16 \<Longrightarrow> mem s' x = mem s x"
      "\<And>x. x div 4096 \<in> file_meta T (mem s) \<Longrightarrow> mem s' x = mem s x"
    and bal: "balloc_inv s'" "used_blocks s \<subseteq> used_blocks s'"
  shows "pmfs_get_inode_table s' = T" "file_ctx T s'" "file_meta T (mem s') = file_meta T (mem s)"
    "in_table s ino \<Longrightarrow> in_table s' ino \<and> pmfs_get_inode s' ino = pmfs_get_inode s ino"
proof -
  show T: "pmfs_get_inode_table s' = T"
    using rdw_cong[of 40 "mem s'" "mem s", where 'a=64] same(1) by (simp add: T_def pmfs_get_inode_table_def rd_super_def)
  note f = inode_map_fields[of T "mem s'" "mem s", OF same(2), simplified]
  note fr = file_ctx_frame[OF ctx same(2,3) bal, simplified]
  show "file_ctx T s'" by (rule fr)
  show "file_meta T (mem s') = file_meta T (mem s)" by (rule fr)
  have pg: "table_pages s' = table_pages s" by (simp add: table_pages_def T T_def[symmetric] fr(3))
  have ib: "ino_block s' ino = ino_block s ino" by (simp add: ino_block_def pmfs_inode_blk_shift_def T T_def[symmetric] f)
  have sz: "pmfs_inode_blk_size s' T = pmfs_inode_blk_size s T" by (simp add: pmfs_inode_blk_size_def f)
  show "in_table s' ino \<and> pmfs_get_inode s' ino = pmfs_get_inode s ino" if t: "in_table s ino"
  proof -
    have c: "ino \<noteq> 0" "ino_block s ino < 512 ^ unat (pi_height (rd_inode (mem s) T))" using t by (simp_all add: in_table_def T_def)
    have c': "ino_block s' ino < 512 ^ unat (pi_height (rd_inode (mem s') T))" using c(2) by (simp add: ib f)
    have "pmfs_get_inode s' ino = pmfs_get_inode s ino"
      unfolding get_inode_reads[OF fr(1) T[symmetric] c' c(1)] get_inode_reads[OF ctx meta_eq_to_obj_eq[OF T_def] c(2,1)] ib sz fr(2) ..
    then show ?thesis using t c' by (simp add: in_table_def pg T T_def[symmetric])
  qed
qed

lemma trunc_chain_cong:
  assumes "\<And>y. y \<in> set l \<Longrightarrow> rd64 m' (ad' y + 88) = rd64 m (ad y + 88)"
  shows "trunc_chain m' ad' l p = trunc_chain m ad l p"
  using assms by (induction l arbitrary: p) auto

lemma trunc_chain_drop:
  assumes "trunc_chain m ad (A @ x # B) p" "A \<noteq> []" "distinct (A @ x # B)"
    and "rd64 m' (ad (last A) + 88) = rd64 m (ad x + 88)"
    and "\<And>y. y \<in> set (A @ B) \<Longrightarrow> y \<noteq> last A \<Longrightarrow> rd64 m' (ad y + 88) = rd64 m (ad y + 88)"
  shows "trunc_chain m' ad (A @ B) p"
  using assms
proof (induction A arbitrary: p)
  case (Cons y A)
  show ?case
  proof (cases "A = []")
    case True
    have "trunc_chain m' ad B (rd64 m (ad x + 88)) = trunc_chain m ad B (rd64 m (ad x + 88))"
      using Cons.prems(3,5) True by (intro trunc_chain_cong) auto
    then show ?thesis using Cons.prems(1,4) True by simp
  next
    case False
    have "y \<noteq> last (y # A)" using Cons.prems(3) False last_in_set[OF False] by auto
    then have "rd64 m' (ad y + 88) = rd64 m (ad y + 88)" using Cons.prems(5)[of y] by simp
    then show ?thesis using Cons.IH[of "rd64 m (ad y + 88)"] Cons.prems False by auto
  qed
qed simp

lemma list_prev_split: "distinct (A @ x # B) \<Longrightarrow> list_prev x (A @ x # B) = (if A = [] then None else Some (last A))"
proof (induction A)
  case Nil
  then show ?case by (cases B) auto
next
  case (Cons y A)
  then show ?case by (cases A) auto
qed

text \<open>Items of different slots do not overlap, and none overlaps what locates inodes.\<close>

lemma slots_apart:
  assumes "(a::nat) mod 128 = 0" "b mod 128 = 0" "a \<noteq> b"
  shows "a + 128 \<le> b \<or> b + 128 \<le> a"
proof -
  obtain p q where "a = 128 * p" "b = 128 * q" using assms(1,2) by (auto elim!: dvdE simp: mod_eq_0_iff_dvd)
  then show ?thesis using assms(3) by (cases p q rule: linorder_cases) auto
qed

lemma slot_page:
  assumes "(a::nat) mod 128 = 0" "x < 128"
  shows "(a + x) div 4096 = a div 4096"
proof -
  obtain q where q: "a = 128 * q" using assms(1) by auto
  have "(a + x) div 128 = a div 128" using assms(2) by (simp add: q)
  then have "(a + x) div 128 div 32 = a div 128 div 32" by simp
  then show ?thesis by (simp add: div_mult2_eq[symmetric])
qed

lemma trunc_ctxD:
  assumes "trunc_ctx s"
  shows "file_ctx (pmfs_get_inode_table s) s" "pmfs_get_inode_table s + 128 \<le> 4096" "48 \<le> pmfs_get_inode_table s"
    "0 \<notin> file_meta (pmfs_get_inode_table s) (mem s)" "distinct (s_truncate (sbi s))"
    "x \<in> set (s_truncate (sbi s)) \<Longrightarrow> in_table s x" "inj_on (inode_addr s) (set (s_truncate (sbi s)))"
    "trunc_chain (mem s) (inode_addr s) (s_truncate (sbi s)) (rd64 (mem s) (pmfs_get_inode_table s + 88))"
  using assms by (simp_all add: trunc_ctx_def Let_def)

lemma in_tableD:
  assumes "in_table s x"
  shows "pmfs_get_inode s x = Some (inode_addr s x)" "inode_addr s x \<noteq> 0" "inode_addr s x mod 128 = 0"
    "inode_addr s x div 4096 \<notin> table_pages s" "pmfs_get_truncate_item s x = Some (inode_addr s x + 80)"
    "4096 \<le> inode_addr s x"
proof -
  show a: "pmfs_get_inode s x = Some (inode_addr s x)" "inode_addr s x \<noteq> 0" "inode_addr s x mod 128 = 0"
    and p: "inode_addr s x div 4096 \<notin> table_pages s"
    using assms by (auto simp: in_table_def inode_addr_def)
  show "pmfs_get_truncate_item s x = Some (inode_addr s x + 80)" by (simp add: pmfs_get_truncate_item_def a)
  show "4096 \<le> inode_addr s x" using p by (auto simp: table_pages_def not_le)
qed

text \<open>Stores to the list head and to one item leave inodes where they are.\<close>

lemma trunc_store:
  fixes s s' :: fs
  defines "T \<equiv> pmfs_get_inode_table s"
  assumes ctx: "file_ctx T s" "T + 128 \<le> 4096" "48 \<le> T" "0 \<notin> file_meta T (mem s)" and y: "in_table s y"
    and ch: "\<And>x. mem s' x \<noteq> mem s x \<Longrightarrow> T + 80 \<le> x \<and> x < T + 96 \<or> inode_addr s y + 80 \<le> x \<and> x < inode_addr s y + 96"
    and bal: "block_inuse_head (sbi s') = block_inuse_head (sbi s)" "block_start (sbi s') = block_start (sbi s)"
      "block_end (sbi s') = block_end (sbi s)"
  shows "pmfs_get_inode_table s' = T" "file_ctx T s'" "file_meta T (mem s') = file_meta T (mem s)"
    "in_table s ino \<Longrightarrow> in_table s' ino \<and> inode_addr s' ino = inode_addr s ino"
proof -
  let ?a = "inode_addr s y"
  note a = in_tableD[OF y]
  have pg: "x div 4096 = 0 \<and> T + 80 \<le> x \<and> x < T + 96 \<or> x div 4096 = ?a div 4096" if x: "mem s' x \<noteq> mem s x" for x
  proof -
    have "x div 4096 = ?a div 4096" if "?a + 80 \<le> x" "x < ?a + 96"
      using slot_page[OF a(3), of "x - ?a"] that by simp
    then show ?thesis using ch[OF x] ctx(2) by auto
  qed
  have inv: "balloc_inv s'" "used_blocks s \<subseteq> used_blocks s'"
  proof -
    have "balloc_inv s" using ctx(1) by (simp add: file_ctx_def tree_ctx_def Let_def)
    then show "balloc_inv s'" "used_blocks s \<subseteq> used_blocks s'" by (simp_all add: balloc_inv_def used_blocks_def bal)
  qed
  have na: "?a div 4096 \<noteq> 0" "?a div 4096 \<notin> file_meta T (mem s)" using a(4) by (auto simp: table_pages_def T_def)
  have s1: "mem s' x = mem s x" if "40 \<le> x" "x < 48" for x
    using pg[of x] that na(1) ctx(3) by (cases "mem s' x = mem s x") auto
  have s2: "mem s' x = mem s x" if "T + 2 \<le> x" "x < T + 16" for x
    using pg[of x] that na(1) ctx(2) by (cases "mem s' x = mem s x") auto
  have s3: "mem s' x = mem s x" if "x div 4096 \<in> file_meta T (mem s)" for x
    using pg[of x] that na(2) ctx(4) by (cases "mem s' x = mem s x") auto
  note g = get_inode_frame[OF ctx(1)[unfolded T_def] s1 s2[unfolded T_def] s3[unfolded T_def] inv, folded T_def]
  show "pmfs_get_inode_table s' = T" by (rule g) auto
  show "file_ctx T s'" by (rule g) auto
  show "file_meta T (mem s') = file_meta T (mem s)" by (rule g) auto
  show "in_table s' ino \<and> inode_addr s' ino = inode_addr s ino" if i: "in_table s ino"
  proof -
    have "in_table s' ino \<and> pmfs_get_inode s' ino = pmfs_get_inode s ino" by (rule g(4)) (use i in auto)
    then show ?thesis by (simp add: inode_addr_def)
  qed
qed

lemma item_apart:
  assumes "in_table s x" "in_table s y" "inode_addr s x \<noteq> inode_addr s y"
  shows "inode_addr s x + 128 \<le> inode_addr s y \<or> inode_addr s y + 128 \<le> inode_addr s x"
  by (rule slots_apart[OF in_tableD(3)[OF assms(1)] in_tableD(3)[OF assms(2)] assms(3)])

lemma truncate_add_keeps:
  assumes ctx: "trunc_ctx s" and y: "in_table s (i_ino inode)" "i_ino inode \<notin> set (s_truncate (sbi s))"
    "inode_addr s (i_ino inode) \<notin> inode_addr s ` set (s_truncate (sbi s))"
  shows "\<exists>s'. pmfs_truncate_add inode sz s = Some s' \<and> trunc_ctx s' \<and> s_truncate (sbi s') = i_ino inode # s_truncate (sbi s)
    \<and> rd64 (mem s') (inode_addr s' (i_ino inode) + 80) = sz
    \<and> (\<forall>x. in_table s x \<longrightarrow> in_table s' x \<and> inode_addr s' x = inode_addr s x)"
proof -
  let ?T = "pmfs_get_inode_table s" and ?y = "i_ino inode" and ?l = "s_truncate (sbi s)" and ?a = "inode_addr s (i_ino inode)"
  note D = trunc_ctxD[OF ctx] and A = in_tableD[OF y(1)]
  let ?m' = "wr64 (?T + 88) ?y (wr64 (?a + 80) sz (wr64 (?a + 88) (rd64 (mem s) (?T + 88)) (mem s)))"
  define s' where "s' = s\<lparr>mem := ?m', sbi := (sbi s)\<lparr>s_truncate := ?y # ?l\<rparr>\<rparr>"
  have e: "pmfs_truncate_add inode sz s = Some s'"
    using y(2) A(5) by (simp add: pmfs_truncate_add_def Let_def pmfs_get_truncate_list_head_def rd_truncate_item_def add.commute[of 88] s'_def)
  have lt: "?T + 96 \<le> ?a" using D(2) A(6) by simp
  have ch: "?T + 80 \<le> x \<and> x < ?T + 96 \<or> ?a + 80 \<le> x \<and> x < ?a + 96" if "mem s' x \<noteq> mem s x" for x
  proof (rule ccontr)
    assume "\<not> ?thesis"
    then have "?m' x = mem s x" by (auto simp: wrw_apply_other)
    then show False using that by (simp add: s'_def)
  qed
  have loc: "in_table s' x" "inode_addr s' x = inode_addr s x" if "in_table s x" for x
    using trunc_store(4)[OF D(1-4) y(1), of s' x] ch that by (simp_all add: s'_def)
  have T': "pmfs_get_inode_table s' = ?T" "file_ctx ?T s'" "file_meta ?T (mem s') = file_meta ?T (mem s)"
    using trunc_store(1-3)[OF D(1-4) y(1), of s'] ch by (simp_all add: s'_def)
  have oth: "rd64 (mem s') (inode_addr s' x + 88) = rd64 (mem s) (inode_addr s x + 88)" if "x \<in> set ?l" for x
  proof -
    have t: "in_table s x" "inode_addr s x \<noteq> ?a" using D(6)[OF that] y(3) that by (auto simp: image_iff)
    have "inode_addr s x + 128 \<le> ?a \<or> ?a + 128 \<le> inode_addr s x" by (rule item_apart[OF t(1) y(1) t(2)])
    moreover have "?T + 96 \<le> inode_addr s x" using D(2) in_tableD(6)[OF t(1)] by simp
    ultimately show ?thesis using loc(2)[OF t(1)] by (auto simp: s'_def)
  qed
  have c: "trunc_chain (mem s') (inode_addr s') (?y # ?l) (rd64 (mem s') (?T + 88))"
  proof -
    have "rd64 (mem s') (inode_addr s' ?y + 88) = rd64 (mem s) (?T + 88)" using loc(2)[OF y(1)] lt by (simp add: s'_def)
    then show ?thesis using D(8) trunc_chain_cong[of ?l "mem s'" "inode_addr s'" "mem s" "inode_addr s"] oth by (simp add: s'_def)
  qed
  have inj: "inj_on (inode_addr s') (set (?y # ?l))"
  proof -
    have "inode_addr s' x = inode_addr s x" if "x \<in> set (?y # ?l)" for x using loc(2) that y(1) D(6) by auto
    moreover have "inj_on (inode_addr s) (set (?y # ?l))" using D(7) y(2,3) by auto
    ultimately show ?thesis by (simp add: inj_on_def)
  qed
  have "trunc_ctx s'" unfolding trunc_ctx_def Let_def T'(1)
    using T' D(2-5) c inj y(1,2) loc(1) D(6) by (auto simp: s'_def)
  moreover have "rd64 (mem s') (inode_addr s' ?y + 80) = sz" using loc(2)[OF y(1)] lt by (simp add: s'_def)
  ultimately show ?thesis using e loc by (intro exI[of _ s']) (simp add: s'_def)
qed


lemma truncate_del_keeps:
  assumes ctx: "trunc_ctx s" and mem': "i_ino inode \<in> set (s_truncate (sbi s))"
  shows "\<exists>s'. pmfs_truncate_del inode s = Some s' \<and> trunc_ctx s' \<and> s_truncate (sbi s') = remove1 (i_ino inode) (s_truncate (sbi s))
    \<and> (\<forall>x. in_table s x \<longrightarrow> in_table s' x \<and> inode_addr s' x = inode_addr s x)"
proof -
  let ?T = "pmfs_get_inode_table s" and ?y = "i_ino inode" and ?l = "s_truncate (sbi s)"
  note D = trunc_ctxD[OF ctx]
  note Y = D(6)[OF mem']
  obtain A B where l: "?l = A @ ?y # B" "?y \<notin> set A" using split_list_first[OF mem'] by auto
  have dl: "distinct (A @ ?y # B)" using D(5) l(1) by simp
  define l' where "l' = A @ B"
  have rem: "remove1 ?y ?l = l'" using l by (simp add: remove1_append l'_def)
  have sub: "set l' \<subseteq> set ?l" by (simp add: l l'_def) auto
  define nx where "nx = rd64 (mem s) (inode_addr s ?y + 88)"
  define w where "w = (if A = [] then ?T + 88 else inode_addr s (last A) + 88)"
  define s' where "s' = s\<lparr>mem := wr64 w nx (mem s), sbi := (sbi s)\<lparr>s_truncate := l'\<rparr>\<rparr>"
  define p where "p = (if A = [] then ?y else last A)"
  have p: "in_table s p" using D(6) l Y by (simp add: p_def)
  have e: "pmfs_truncate_del inode s = Some s'"
  proof -
    let ?s1 = "s\<lparr>sbi := (sbi s)\<lparr>s_truncate := l'\<rparr>\<rparr>"
    have g: "in_table ?s1 x \<and> inode_addr ?s1 x = inode_addr s x" if "in_table s x" for x
      by (rule trunc_store(4)[OF D(1-4) Y]) (simp_all add: that)
    have "A \<noteq> [] \<Longrightarrow> pmfs_get_truncate_item ?s1 (last A) = Some (inode_addr s (last A) + 80)"
      using g[OF p] in_tableD(5)[of ?s1 "last A"] by (simp add: p_def)
    then show ?thesis
      using mem' in_tableD(5)[OF Y] list_prev_split[OF dl]
      by (auto simp: pmfs_truncate_del_def Let_def rem pmfs_get_truncate_list_head_def rd_truncate_item_def add.commute[of 88] s'_def nx_def w_def l(1)[symmetric])
  qed
  have ch: "?T + 80 \<le> x \<and> x < ?T + 96 \<or> inode_addr s p + 80 \<le> x \<and> x < inode_addr s p + 96" if "mem s' x \<noteq> mem s x" for x
  proof (rule ccontr)
    assume "\<not> ?thesis"
    then have "wr64 w nx (mem s) x = mem s x" by (intro wrw_apply_other) (auto simp: w_def p_def split: if_splits)
    then show False using that by (simp add: s'_def)
  qed
  have loc: "in_table s' x" "inode_addr s' x = inode_addr s x" if "in_table s x" for x
    using trunc_store(4)[OF D(1-4) p, of s' x] ch that by (simp_all add: s'_def)
  have T': "pmfs_get_inode_table s' = ?T" "file_ctx ?T s'" "file_meta ?T (mem s') = file_meta ?T (mem s)"
    using trunc_store(1-3)[OF D(1-4) p, of s'] ch by (simp_all add: s'_def)
  have inT: "in_table s x" if "x \<in> set l'" for x using D(6) sub that by auto
  have c: "trunc_chain (mem s') (inode_addr s) l' (rd64 (mem s') (?T + 88))"
  proof (cases "A = []")
    case True
    have "rd64 (mem s') (inode_addr s x + 88) = rd64 (mem s) (inode_addr s x + 88)" if "x \<in> set B" for x
      using D(2) in_tableD(6)[OF inT[of x]] that True by (simp add: s'_def w_def l'_def)
    then show ?thesis using D(8) trunc_chain_cong[of B "mem s'" "inode_addr s" "mem s" "inode_addr s"] True
      by (simp add: l l'_def s'_def nx_def w_def)
  next
    case False
    have hd: "rd64 (mem s') (?T + 88) = rd64 (mem s) (?T + 88)"
      using D(2) in_tableD(6)[OF p] False by (simp add: s'_def w_def p_def)
    have "rd64 (mem s') (inode_addr s x + 88) = rd64 (mem s) (inode_addr s x + 88)" if x: "x \<in> set (A @ B)" "x \<noteq> last A" for x
    proof -
      have m: "x \<in> set ?l" "last A \<in> set ?l" using x(1) False by (auto simp: l)
      then have "inode_addr s x \<noteq> inode_addr s (last A)" using D(7) x(2) by (auto dest: inj_onD)
      then show ?thesis using item_apart[OF D(6)[OF m(1)] D(6)[OF m(2)]] False by (auto simp: s'_def w_def)
    qed
    moreover have "rd64 (mem s') (inode_addr s (last A) + 88) = rd64 (mem s) (inode_addr s ?y + 88)"
      using False by (simp add: s'_def w_def nx_def)
    ultimately show ?thesis unfolding hd l'_def using trunc_chain_drop[OF D(8)[unfolded l(1)] False dl] by blast
  qed
  have same: "inode_addr s' x = inode_addr s x" if "x \<in> set l'" for x using loc(2) inT that by simp
  have "inj_on (inode_addr s') (set l')" using same inj_on_subset[OF D(7) sub] by (simp add: inj_on_def)
  moreover have "trunc_chain (mem s') (inode_addr s') l' (rd64 (mem s') (?T + 88))"
    using c trunc_chain_cong[of l' "mem s'" "inode_addr s'" "mem s'" "inode_addr s"] same by simp
  ultimately have "trunc_ctx s'" unfolding trunc_ctx_def Let_def T'(1)
    using T' D(2-4) dl loc(1) inT by (auto simp: s'_def l'_def)
  then show ?thesis using e rem loc by (intro exI[of _ s']) (simp add: s'_def)
qed

text \<open>A run of list operations, and the list it should leave.\<close>

datatype trunc_op = Tadd vinode u64 | Tdel vinode

fun op_ino :: "trunc_op \<Rightarrow> u64" where
  "op_ino (Tadd v _) = i_ino v"
| "op_ino (Tdel v) = i_ino v"

fun trunc_run :: "trunc_op list \<Rightarrow> fs \<Rightarrow> fs option" where
  "trunc_run [] s = Some s"
| "trunc_run (Tadd v sz # ops) s = Option.bind (pmfs_truncate_add v sz s) (trunc_run ops)"
| "trunc_run (Tdel v # ops) s = Option.bind (pmfs_truncate_del v s) (trunc_run ops)"

fun trunc_list :: "trunc_op list \<Rightarrow> u64 list \<Rightarrow> u64 list" where
  "trunc_list [] l = l"
| "trunc_list (Tadd v sz # ops) l = trunc_list ops (if i_ino v \<in> set l then l else i_ino v # l)"
| "trunc_list (Tdel v # ops) l = trunc_list ops (remove1 (i_ino v) l)"

lemma trunc_run_keeps:
  assumes "trunc_ctx s" "\<forall>p\<in>set ops. in_table s (op_ino p)"
    "inj_on (inode_addr s) (op_ino ` set ops \<union> set (s_truncate (sbi s)))"
  shows "\<exists>s'. trunc_run ops s = Some s' \<and> trunc_ctx s' \<and> s_truncate (sbi s') = trunc_list ops (s_truncate (sbi s))"
  using assms
proof (induction ops arbitrary: s)
  case (Cons p ops)
  let ?l = "s_truncate (sbi s)" and ?l1 = "trunc_list [p] (s_truncate (sbi s))"
  have T: "in_table s x" if "x \<in> set ?l" for x using trunc_ctxD(6)[OF Cons.prems(1)] that by blast
  obtain s1 where s1: "trunc_run (p # ops) s = trunc_run ops s1" "trunc_ctx s1" "s_truncate (sbi s1) = ?l1"
    "\<forall>x. in_table s x \<longrightarrow> in_table s1 x \<and> inode_addr s1 x = inode_addr s x"
  proof (cases p)
    case p: (Tadd v sz)
    show thesis
    proof (cases "i_ino v \<in> set ?l")
      case True
      then have "pmfs_truncate_add v sz s = Some s" by (simp add: pmfs_truncate_add_def Let_def)
      then show thesis using that[of s] Cons.prems(1) p True by simp
    next
      case False
      have "inode_addr s (i_ino v) \<notin> inode_addr s ` set ?l"
        using Cons.prems(3) False p by (auto simp: inj_on_def)
      then show thesis using truncate_add_keeps[OF Cons.prems(1) _ False, of sz] Cons.prems(2) that p False by fastforce
    qed
  next
    case p: (Tdel v)
    show thesis
    proof (cases "i_ino v \<in> set ?l")
      case True
      show thesis using truncate_del_keeps[OF Cons.prems(1) True] that p by fastforce
    next
      case False
      then have "pmfs_truncate_del v s = Some s" by (simp add: pmfs_truncate_del_def Let_def)
      then show thesis using that[of s] Cons.prems(1) p False by (simp add: remove1_idem)
    qed
  qed
  have sub: "set ?l1 \<subseteq> insert (op_ino p) (set ?l)" using set_remove1_subset[of _ ?l] by (cases p) auto
  have "\<forall>q\<in>set ops. in_table s1 (op_ino q)" using s1(4) Cons.prems(2) by simp
  moreover have "inj_on (inode_addr s1) (op_ino ` set ops \<union> set (s_truncate (sbi s1)))"
  proof -
    let ?X = "op_ino ` set (p # ops) \<union> set ?l"
    have "inode_addr s1 x = inode_addr s x" if "x \<in> ?X" for x using s1(4) that T Cons.prems(2) by auto
    then have "inj_on (inode_addr s1) ?X" using Cons.prems(3) by (simp add: inj_on_def)
    then show ?thesis by (rule inj_on_subset) (use sub s1(3) in auto)
  qed
  ultimately have "\<exists>s'. trunc_run ops s1 = Some s' \<and> trunc_ctx s' \<and> s_truncate (sbi s') = trunc_list ops ?l1"
    using Cons.IH[OF s1(2)] s1(3) by simp
  moreover have "trunc_list ops ?l1 = trunc_list (p # ops) ?l" by (cases p) simp_all
  ultimately show ?case using s1(1) by simp
qed simp

lemma find_free_inode_at:
  fixes i num :: u32
  assumes ok: "table_ok s (unat num)" and ipb: "ipb = INODES_PER_BLOCK (pi_blk_type (rd_inode (mem s) (pmfs_get_inode_table s)))"
    and i: "0 < unat i" "i \<le> j" "j < num"
    and j: "inode_free (mem s) (slot s (unat j))" "\<And>k. unat i \<le> k \<Longrightarrow> k < unat j \<Longrightarrow> \<not> inode_free (mem s) (slot s k)"
  shows "find_free_inode ipb num i pi s = Some (j, slot s (unat j))"
proof -
  obtain j' q where f: "find_free_inode ipb num i pi s = Some (j', q)" "i \<le> j'"
    "\<forall>k. unat i \<le> k \<longrightarrow> k < unat j' \<longrightarrow> \<not> inode_free (mem s) (slot s k)"
    "j' < num \<longrightarrow> q = slot s (unat j') \<and> inode_free (mem s) (slot s (unat j'))"
    using find_free_inode_scan[OF ok ipb i(1), of pi] by blast
  have "unat j' \<le> unat j" using f(3) j(1) i(2) by (auto simp: word_le_nat_alt not_le[symmetric])
  then have lt: "j' < num" using i(3) by (simp add: word_less_nat_alt)
  then have "\<not> unat j' < unat j" using f(2,4) j(2) by (auto simp: word_le_nat_alt)
  then have "unat j' = unat j" using \<open>unat j' \<le> unat j\<close> by simp
  then have "j' = j" by (rule word_unat_eq_iff[THEN iffD2])
  then show ?thesis using f(1,4) lt by simp
qed

lemma find_data_block_loop_mem: "mem s' = mem s \<Longrightarrow> find_data_block_loop s' h p b = find_data_block_loop s h p b"
  by (induction h arbitrary: p b) (simp_all add: Let_def)

lemma get_inode_mem:
  assumes "mem s' = mem s"
  shows "pmfs_get_inode s' x = pmfs_get_inode s x"
  unfolding pmfs_get_inode_def pmfs_get_inode_table_def raw_pmfs_find_data_block_def pmfs_inode_blk_shift_def
    pmfs_inode_blk_size_def find_data_block_loop_mem[OF assms] assms pmfs_get_super_def by (rule refl)

lemma table_ok_gen:
  fixes g s
  defines "s' \<equiv> upd_sbi (\<lambda>b. b\<lparr>next_generation := g\<rparr>) s"
  shows "table_ok s n \<Longrightarrow> table_ok s' n" "slot s' = slot s" "pmfs_get_inode_table s' = pmfs_get_inode_table s"
proof -
  show T: "pmfs_get_inode_table s' = pmfs_get_inode_table s" by (simp add: s'_def pmfs_get_inode_table_def)
  have n: "table_slots s' = table_slots s" unfolding table_slots_def T pmfs_inode_blk_shift_def by (simp add: s'_def)
  show "slot s' = slot s" unfolding slot_def T n by (simp add: s'_def)
  show "table_ok s' n" if "table_ok s n"
  proof -
    have c: "file_ctx (pmfs_get_inode_table s) s" using that by (simp add: table_ok_def)
    then have b: "balloc_inv s" by (simp add: file_ctx_def tree_ctx_def Let_def)
    have "file_ctx (pmfs_get_inode_table s) s'"
      by (rule file_ctx_frame[OF c]) (use b in \<open>simp_all add: s'_def balloc_inv_def used_blocks_def\<close>)
    then show ?thesis using that unfolding table_ok_def T n by (simp add: s'_def)
  qed
qed

section \<open>Examples\<close>

text \<open>The table of the example directory, with the slot of the directory in use.\<close>

definition ex_table :: fs where
  "ex_table = ex_dir\<lparr>mem := wr16 4262 1 (mem ex_dir), sbi := (sbi ex_dir)\<lparr>s_inodes_count := 32, s_free_inode_hint := 1\<rparr>\<rparr>"

definition ex_vfs :: vfs where
  "ex_vfs = \<lparr>new_inode = Some ex_vinode, inode_init_owner = (\<lambda>v dir md. v\<lparr>i_mode := md\<rparr>), insert_inode_locked = (\<lambda>_. True),
     iget_locked = (\<lambda>_. None), init_special_inode = (\<lambda>v _ _. v), inode_change_ok = (\<lambda>_ _. Inr ()), setattr_copy = (\<lambda>v _. v)\<rparr>"

lemma ex_table_fields:
  "pi_height (rd_inode (mem ex_table) 256) = 0" "pi_root (rd_inode (mem ex_table) 256) = 4096"
  "pi_blk_type (rd_inode (mem ex_table) 256) = 0" "s_inode_table_offset (rd_super (mem ex_table) 0) = 256"
  "s_blocksize ex_table = 4096" "s_blocksize_bits ex_table = 12"
  by (simp_all add: rd_inode_def rd_super_def ex_table_def ex_dir_def ex_balloc_simps)

lemma ex_table_place:
  "pmfs_get_inode_table ex_table = 256" "table_slots ex_table = 32" "k < 32 \<Longrightarrow> slot ex_table k = 4096 + 128 * k"
  "file_meta 256 (mem ex_table) = {}" "table_pages ex_table = {0}" "file_look 256 (mem ex_table) k = (if k = 0 then 4096 else 0)"
  by (simp_all add: pmfs_get_inode_table_def table_slots_def slot_def pmfs_inode_blk_shift_def blk_type_to_shift_def ex_table_fields
      file_meta_def table_pages_def file_look_def)

lemma ex_table_ctx: "file_ctx 256 ex_table"
proof -
  have "used_blocks ex_table = {0..3} \<union> {600..700}" using ex_dir_used by (simp add: used_blocks_def ex_table_def)
  moreover have "balloc_inv ex_table" using ex_dir_balloc by (simp add: balloc_inv_def ex_table_def)
  ultimately show ?thesis by (simp add: file_ctx_def tree_ctx_def ex_table_fields)
qed

lemma ex_table_ok: "table_ok ex_table 32"
  using ex_table_ctx by (simp add: table_ok_def ex_table_place)

lemma ex_table_free: "\<not> inode_free (mem ex_table) 4224" "inode_free (mem ex_table) 4352"
  by (simp_all add: inode_free_def Let_def rd_inode_def ex_table_def ex_dir_def ex_balloc_simps)

lemma ex_table_get: "pmfs_get_inode ex_table (of_nat (128 * k)) = Some (4096 + 128 * k)" if "0 < k" "k < 32"
proof -
  have u: "unat (of_nat k :: u32) = k" using that by (simp add: unat_of_nat)
  have "pmfs_get_inode ex_table (scast (push_bit 7 (of_nat k :: u32))) = Some (slot ex_table k)"
    using get_inode_slot(1)[OF ex_table_ok, of "of_nat k"] that by (simp add: u)
  then show ?thesis
    using inode_number_eq[of "of_nat k"] that by (simp only: u ex_table_place(3)) (simp add: mult.commute)
qed

lemma ex_table_in: "in_table ex_table (of_nat (128 * k))" "inode_addr ex_table (of_nat (128 * k)) = 4096 + 128 * k" if "0 < k" "k < 32"
proof -
  note g = ex_table_get[OF that]
  have u: "unat (of_nat (128 * k) :: u64) = 128 * k" using that by (subst unat_of_nat_64) auto
  then have "(of_nat (128 * k) :: u64) \<noteq> 0" using that by (metis mult_eq_0_iff not_gr_zero unat_0 zero_neq_numeral)
  moreover have "ino_block ex_table (of_nat (128 * k)) = 0"
    unfolding ino_block_def u using that by (simp add: ex_table_place ex_table_fields pmfs_inode_blk_shift_def blk_type_to_shift_def)
  ultimately show "in_table ex_table (of_nat (128 * k))"
    unfolding in_table_def g ex_table_place(1,5) using that by (simp add: ex_table_fields)
  show "inode_addr ex_table (of_nat (128 * k)) = 4096 + 128 * k" unfolding inode_addr_def g by simp
qed

lemma ex_table_trunc: "trunc_ctx ex_table"
  by (simp add: trunc_ctx_def Let_def ex_table_place ex_table_ctx)
     (simp add: ex_table_def ex_dir_def ex_balloc_simps)

section \<open>Properties of inodes\<close>





text \<open>C13. The list of inodes with a truncate to finish is the same in memory and on the media. Whatever
  inodes are put on it (\<open>pmfs_truncate_add\<close>) and taken off again (\<open>pmfs_truncate_del\<close>) in whatever order, every step
  succeeds, the in-memory list is the one the operations call for, and the links that recovery follows from
  the head in the superblock run through exactly that list and end with 0.\<close>

theorem truncate_list_on_media:
  assumes "trunc_ctx s" "\<forall>p\<in>set ops. in_table s (op_ino p)"
    "inj_on (inode_addr s) (op_ino ` set ops \<union> set (s_truncate (sbi s)))"
  shows "\<exists>s'. trunc_run ops s = Some s' \<and> s_truncate (sbi s') = trunc_list ops (s_truncate (sbi s))
    \<and> trunc_chain (mem s') (inode_addr s') (s_truncate (sbi s')) (rd64 (mem s') (pmfs_get_truncate_list_head s' + 8))"
proof -
  obtain s' where s': "trunc_run ops s = Some s'" "trunc_ctx s'" "s_truncate (sbi s') = trunc_list ops (s_truncate (sbi s))"
    using trunc_run_keeps[OF assms] by blast
  have h: "pmfs_get_truncate_list_head s' + 8 = pmfs_get_inode_table s' + 88" by (simp add: pmfs_get_truncate_list_head_def)
  show ?thesis using s' trunc_ctxD(8)[OF s'(2)] by (intro exI[of _ s']) (simp only: h simp_thms)
qed

theorem truncate_list_on_media_witness:
  "\<exists>s'. trunc_run [Tadd ex_vinode 4096, Tadd (ex_vinode\<lparr>i_ino := 256\<rparr>) 0, Tdel ex_vinode] ex_table = Some s'
    \<and> s_truncate (sbi s') = [256] \<and> trunc_chain (mem s') (inode_addr s') [256] (rd64 (mem s') (pmfs_get_truncate_list_head s' + 8))"
proof -
  let ?ops = "[Tadd ex_vinode 4096, Tadd (ex_vinode\<lparr>i_ino := 256\<rparr>) 0, Tdel ex_vinode]"
  note t1 = ex_table_in[of 1, simplified] and t2 = ex_table_in[of 2, simplified]
  have e: "s_truncate (sbi ex_table) = []" by (simp add: ex_table_def ex_dir_def ex_balloc_simps)
  have "\<forall>p\<in>set ?ops. in_table ex_table (op_ino p)" using t1 t2 by (simp add: ex_vinode_def)
  moreover have "inj_on (inode_addr ex_table) (op_ino ` set ?ops \<union> set (s_truncate (sbi ex_table)))"
    using t1 t2 by (auto simp: e ex_vinode_def)
  ultimately show ?thesis
    using truncate_list_on_media[OF ex_table_trunc, of ?ops] by (auto simp: e ex_vinode_def)
qed

end
