(* ===== verification/Format.thy ===== *)
theory Format
  imports Super Inode_Table
begin

text \<open>
  Formatting and the super block's redundant copy, across the components: \<open>pmfs_init\<close> from the empty device
  to the root directory, through the block map, the journal, the inode table and the first directory
  block, and the integrity check of the next mount.
\<close>

section \<open>The stages of formatting\<close>

lemma format_offsets: "journal_meta_start = 192" "inode_table_start = 256" "journal_data_start = 4096"
  by (simp_all add: journal_meta_start_def inode_table_start_def journal_data_start_def align_up_def)

definition format_super :: "u64 \<Rightarrow> mem \<Rightarrow> mem" where
  "format_super sz m = wr64 128 0 (wr64 120 1 (wr64 112 1 (wr64 104 1 (wr64 96 0 (wr64 40 256 (wr64 32 192
     (wr16 2 PMFS_SUPER_MAGIC (wr32 4 4096 (wr64 8 sz (memset 0 0 4096 m))))))))))"

lemma set_blocksize_4096: "pmfs_set_blocksize 4096 s = Some (s\<lparr>s_blocksize_bits := 12, s_blocksize := 4096\<rparr>)"
proof -
  have "fls 4096 = 13" by (simp add: fls.simps)
  then show ?thesis by (simp add: pmfs_set_blocksize_def Let_def)
qed

lemma init_run:
  assumes run: "pmfs_init crc16 vo st sz s = Some (Inr root_i, s')"
    and n: "n = drop_bit 12 sz" and s2: "s2 = s\<lparr>sbi := (sbi s)\<lparr>block_start := 0, block_end := n, num_free_blocks := n, blocksize := 4096\<rparr>,
    s_blocksize_bits := 12, s_blocksize := 4096\<rparr>"
  obtains s4 s5 s6 s8 b where "pmfs_check_size sz s2"
    "pmfs_init_blockmap (4096 + ucast (jsize (sbi s))) (upd_mem (format_super sz) s2) = Some s4"
    "pmfs_journal_hard_init st 4096 (jsize (sbi s4)) s4 = Some (Inr (), s5)"
    "pmfs_init_inode_table s5 = Some (Inr (), s6)"
    "pmfs_new_block 0 True (upd_mem (pmfs_sync_super crc16 0 (now s6)) s6) = Some (Inr b, s8)"
    "pmfs_get_inode s8 128 = Some root_i" "root_i \<noteq> 0"
    "s' = upd_mem (\<lambda>m. root_dots (unat (pmfs_get_block_off b)) (s_blocksize s8) (root_inode root_i b s8 m)) s8"
proof -
  let ?s3 = "upd_mem (format_super sz) s2"
  have "\<exists>s4 s5 s6 s8 b. pmfs_check_size sz s2 \<and> pmfs_init_blockmap (4096 + ucast (jsize (sbi s))) ?s3 = Some s4
    \<and> pmfs_journal_hard_init st 4096 (jsize (sbi s4)) s4 = Some (Inr (), s5)
    \<and> pmfs_init_inode_table s5 = Some (Inr (), s6)
    \<and> pmfs_new_block 0 True (upd_mem (pmfs_sync_super crc16 0 (now s6)) s6) = Some (Inr b, s8)
    \<and> pmfs_get_inode s8 128 = Some root_i \<and> root_i \<noteq> 0
    \<and> s' = upd_mem (\<lambda>m. root_dots (unat (pmfs_get_block_off b)) (s_blocksize s8) (root_inode root_i b s8 m)) s8"
    using run[unfolded pmfs_init_def Let_def set_blocksize_4096 format_offsets n[symmetric]]
    by (auto simp: format_super_def s2 simp del: add_2_eq_Suc add_2_eq_Suc' split: if_splits Option.bind_splits sum.splits prod.splits)
  then show thesis using that by blast
qed

lemma blockmap_stage:
  assumes r: "pmfs_init_blockmap u s = Some s4" and b: "s_blocksize_bits s = 12" "s_blocksize s = 4096"
    and l: "block_inuse_head (sbi s) = []" "block_start (sbi s) = 0"
    and u: "0 < unat u" "unat u + 4095 < 2 ^ 64" "(unat u + 4095) div 4096 \<le> unat (block_end (sbi s))" "unat (block_end (sbi s)) < 2 ^ 52"
  shows "balloc_inv s4" "used_blocks s4 = {..<(unat u + 4095) div 4096}" "alloc_frame s s4" "mem s4 = mem s"
proof -
  obtain s1 where s1: "pmfs_alloc_blocknode s = (True, s1)"
    using r by (auto simp: pmfs_init_blockmap_def Let_def split: prod.splits bool.splits)
  have fr: "alloc_frame s s1" using pmfs_alloc_blocknode_alloc_frame[of s] s1 by simp
  have m: "mem s1 = mem s" "block_inuse_head (sbi s1) = block_inuse_head (sbi s)"
    using s1 by (auto simp: pmfs_alloc_blocknode_def kmem_cache_alloc_def split: list.splits bool.splits prod.splits)
  define n where "n = drop_bit 12 (u + 4096 - 1)"
  have un: "unat n = (unat u + 4095) div 4096"
  proof -
    have "unat (u + 4095) = unat u + 4095" using u(2) by (subst unat_plus_fits) auto
    then show ?thesis by (simp add: n_def unat_drop_bit_div add.commute)
  qed
  have n0: "0 < unat n" using u(1) un by simp
  have nh: "unat (n - 1) = unat n - 1" using n0 by (subst unat_minus_fits) (auto simp: word_le_nat_alt)
  have s4: "s4 = upd_sbi (\<lambda>b. b\<lparr>num_free_blocks := num_free_blocks b - n - 25 * 1024 * 1024,
      block_inuse_head := [\<lparr>block_low = 0, block_high = n - 1\<rparr>]\<rparr>) s1"
    using r s1 l m alloc_frame_fields(1)[OF fr] by (simp add: pmfs_init_blockmap_def Let_def b n_def)
  show "alloc_frame s s4" using fr by (simp add: s4 alloc_rest_def)
  show "mem s4 = mem s" using m by (simp add: s4)
  show "balloc_inv s4" using alloc_frame_fields(1,2)[OF fr] l u(3,4) un n0 nh by (simp add: balloc_inv_def s4)
  show "used_blocks s4 = {..<(unat u + 4095) div 4096}"
    using n0 nh un by (auto simp: used_blocks_def used_def run_of_def s4)
qed

text \<open>The size of the inode table in blocks of its type, and in 4K blocks.\<close>

lemma table_numbers:
  fixes isz :: u64
  assumes "0 < unat isz" "unat isz \<le> 2 ^ 30" "k = 12 \<or> k = 21"
  defines "n \<equiv> drop_bit k (isz + 2 ^ k - 1)"
  shows "unat n = (unat isz + 2 ^ k - 1) div 2 ^ k" "0 < unat n" "unat n * 2 ^ k < 2 ^ 30 + 2 ^ k"
    "unat (ucast (push_bit (k - 12) n) :: u32) = unat n * 2 ^ (k - 12)"
    "unat (ucast (push_bit (k - 7) n) :: u32) = unat n * 2 ^ (k - 7)"
proof -
  have p: "(2::nat) ^ k \<le> 2 ^ 21" "(2::nat) ^ k > 0" using assms(3) by auto
  have uk: "unat ((2::u64) ^ k) = 2 ^ k" using assms(3) by auto
  have a: "unat (isz + 2 ^ k) = unat isz + 2 ^ k" using assms(2) p uk by (subst unat_plus_fits) auto
  have "unat (isz + 2 ^ k - 1) = unat isz + 2 ^ k - 1" using a assms(1) by (subst unat_minus_fits) (auto simp: word_le_nat_alt)
  then show n: "unat n = (unat isz + 2 ^ k - 1) div 2 ^ k" by (simp add: n_def unat_drop_bit_div)
  have "2 ^ k \<le> unat isz + 2 ^ k - 1" using assms(1) by simp
  then show n0: "0 < unat n" unfolding n using p by (simp add: div_greater_zero_iff)
  have "unat n * 2 ^ k \<le> unat isz + 2 ^ k - 1" unfolding n by (simp add: div_times_less_eq_dividend)
  then show b: "unat n * 2 ^ k < 2 ^ 30 + 2 ^ k" using assms(2) p by linarith
  have s: "unat (ucast (push_bit j n) :: u32) = unat n * 2 ^ j" if "j \<le> k" for j
  proof -
    have "unat n * 2 ^ j \<le> unat n * 2 ^ k" using that by (simp add: power_increasing)
    moreover have "(2::nat) ^ 30 + 2 ^ 21 < 2 ^ 31" by simp
    ultimately have lt: "unat n * 2 ^ j < 2 ^ 31" using b p by linarith
    have "unat (push_bit j n) = unat n * 2 ^ j" using lt by (subst unat_push_bit_fits) (auto simp: mult.commute)
    then show ?thesis using lt by (subst unat_ucast_fits) auto
  qed
  show "unat (ucast (push_bit (k - 12) n) :: u32) = unat n * 2 ^ (k - 12)" "unat (ucast (push_bit (k - 7) n) :: u32) = unat n * 2 ^ (k - 7)"
    by (rule s; simp)+
qed

lemma div_mult_pred: "0 < a \<Longrightarrow> 0 < c \<Longrightarrow> (a * c - 1) div c = a - (1::nat)"
proof -
  assume a: "0 < a" "0 < c"
  have "a * c - 1 = (a - 1) * c + (c - 1)" using a by (cases a) (auto simp: algebra_simps)
  then show ?thesis using a by (simp only:) (subst div_mult_self3, simp_all)
qed

lemma empty_file_ctx:
  assumes "balloc_inv s" "pi div 4096 \<in> used_blocks s" "pi mod 4096 \<le> 3968" "pi_height (rd_inode (mem s) pi) = 0"
    "pi_blk_type (rd_inode (mem s) pi) \<le> 2"
  shows "file_ctx pi s" "file_meta pi (mem s) = {}"
  using assms by (simp_all add: file_ctx_def tree_ctx_def file_meta_def Let_def)

lemma table_stage:
  assumes r: "pmfs_init_inode_table s = Some (Inr (), s')" and T: "pmfs_get_inode_table s = 256"
    and z: "pi_root (rd_inode (mem s) 256) = 0" and inv: "balloc_inv s" "0 \<in> used_blocks s"
    and b: "s_blocksize_bits s = 12" and ni: "unat (num_inodes (sbi s)) \<le> 2 ^ 23"
  shows "file_ctx 256 s'" "used_blocks s \<subseteq> used_blocks s'" "file_meta 256 (mem s') \<subseteq> used_blocks s' - used_blocks s"
    "\<And>x. mem s' x \<noteq> mem s x \<Longrightarrow> x div 4096 \<in> used_blocks s' - used_blocks s \<or> 256 \<le> x \<and> x < 320"
    "file_look 256 (mem s') 0 \<noteq> 0" "4096 dvd unat (file_look 256 (mem s') 0)"
    "unat (file_look 256 (mem s') 0) div 4096 \<in> used_blocks s' - used_blocks s - file_meta 256 (mem s')"
    "s_blocksize s' = s_blocksize s" "s_blocksize_bits s' = 12" "now s' = now s"
    "table_ok s' (unat (s_inodes_count (sbi s')))" "0 < unat (s_inodes_count (sbi s'))"
proof -
  let ?ni = "num_inodes (sbi s)"
  define isz where "isz = (if ?ni = 0 then if initsize (sbi s) \<ge> PMFS_LARGE_INODE_TABLE_THREASHOLD then PMFS_LARGE_INODE_TABLE_SIZE
               else 4096 else push_bit PMFS_INODE_BITS ?ni)"
  have "unat (push_bit 7 ?ni) = 128 * unat ?ni" using ni by (subst unat_push_bit_fits) auto
  then have i0: "0 < unat isz" "unat isz \<le> 2 ^ 30" using ni unat_0_iff[of ?ni] by (auto simp: isz_def)
  define bt where "bt = (if isz \<ge> PMFS_LARGE_INODE_TABLE_SIZE then PMFS_BLOCK_TYPE_2M else PMFS_BLOCK_TYPE_4K)"
  define k where "k = blk_type_to_shift bt"
  have k: "k = 12 \<or> k = 21" "ucast (blk_type_to_size bt) = (2 ^ k :: u64)" "bt \<le> 2"
    by (auto simp: k_def bt_def blk_type_to_shift_def blk_type_to_size_def)
  define n where "n = drop_bit k (isz + 2 ^ k - 1)"
  note N = table_numbers[OF i0 k(1), folded n_def]
  define s2 where "s2 = upd_sbi (\<lambda>b. b\<lparr>s_inodes_count := ucast (push_bit (k - 7) n)\<rparr>)
    (upd_mem (\<lambda>m. wr64 272 (push_bit k n) (wr8 259 bt (wr32 288 0 (wr8 258 0 (wr32 260 0 (wr16 294 1
                 (wr32 308 0 (wr32 304 0 (wr16 292 0 m))))))))) s)"
  obtain s3 where al: "raw_pmfs_alloc_blocks None 256 0 (ucast (push_bit (k - 12) n)) True s2 = Some (Inr (), s3)"
    and s': "s' = upd_sbi (\<lambda>b. b\<lparr>s_free_inodes_count := s_inodes_count b - PMFS_FREE_INODE_HINT_START,
               s_free_inode_hint := PMFS_FREE_INODE_HINT_START\<rparr>) s3"
    using r unfolding pmfs_init_inode_table_def Let_def isz_def[symmetric] bt_def[symmetric] T b k(2) k_def[symmetric] n_def[symmetric]
    by (auto simp: s2_def split: Option.bind_splits sum.splits)
  have f2: "pi_height (rd_inode (mem s2) 256) = 0" "pi_blk_type (rd_inode (mem s2) 256) = bt" "pi_root (rd_inode (mem s2) 256) = 0"
    using z by (simp_all add: s2_def rd_inode_def)
  have u2: "used_blocks s2 = used_blocks s" "balloc_inv s2" "s_blocksize_bits s2 = 12"
    using inv b by (simp_all add: s2_def used_blocks_def balloc_inv_def)
  have c2: "file_ctx 256 s2" "file_meta 256 (mem s2) = {}" 
    by (rule empty_file_ctx; use inv(2) u2 f2 k(3) in simp)+
  have l2: "file_look 256 (mem s2) j = 0" for j by (simp add: file_look_def f2)
  let ?num = "ucast (push_bit (k - 12) n) :: u32"
  have sh: "blk_type_to_shift (pi_blk_type (rd_inode (mem s2) 256)) - s_blocksize_bits s2 = k - 12" by (simp add: f2 u2 k_def)
  have num0: "?num \<noteq> 0" using N(2,4) by (metis mult_eq_0_iff not_gr_zero power_not_zero unat_0 zero_neq_numeral)
  have hi: "(unat ?num - 1) div 2 ^ (k - 12) = unat n - 1"
    unfolding N(4) by (rule div_mult_pred) (use N(2) in simp_all)
  have "unat (0::u64) + unat ?num < 2 ^ 64" using unat_less_size[of ?num] by simp
  from alloc_blocks_file[OF c2(1) num0 this, of None True, unfolded sh al]
  have g: "file_grow 256 bt 0 (unat n - 1) s2 s3" and full: "\<And>j. j \<le> unat n - 1 \<Longrightarrow> file_look 256 (mem s3) j \<noteq> 0"
    using hi by (auto simp: f2)
  have m': "mem s' = mem s3" "used_blocks s' = used_blocks s3" by (simp_all add: s' used_blocks_def)
  note G = file_growD[OF g, unfolded u2(1) c2(2), folded m']
  note fr = alloc_blocks_frame[OF al]
  have c': "file_ctx 256 s'"
    by (rule file_ctx_frame[OF G(1)]) (use G(1) in \<open>auto simp: s' used_blocks_def balloc_inv_def file_ctx_def tree_ctx_def Let_def\<close>)
  show "file_ctx 256 s'" by (rule c')
  show "used_blocks s \<subseteq> used_blocks s'" by (rule G(3))
  show "file_meta 256 (mem s') \<subseteq> used_blocks s' - used_blocks s" using G(4) by simp
  show ch: "x div 4096 \<in> used_blocks s' - used_blocks s \<or> 256 \<le> x \<and> x < 320" if x: "mem s' x \<noteq> mem s x" for x
  proof (cases "mem s' x = mem s2 x")
    case True
    show ?thesis
    proof (rule ccontr)
      assume "\<not> ?thesis"
      then have "mem s2 x = mem s x" by (auto simp: s2_def wrw_apply_other)
      then show False using x True by simp
    qed
  next
    case False
    then show ?thesis using G(5)[of x] by (auto simp: map_bytes_def)
  qed
  show l0: "file_look 256 (mem s') 0 \<noteq> 0" using full[of 0] m' by simp
  show "4096 dvd unat (file_look 256 (mem s') 0)" using G(7)[OF l2 l0] by blast
  show "unat (file_look 256 (mem s') 0) div 4096 \<in> used_blocks s' - used_blocks s - file_meta 256 (mem s')"
  proof -
    have "unat (file_look 256 (mem s') 0) div 4096 \<in> data_run bt (file_look 256 (mem s') 0)"
      by (auto simp: data_run_def block_run_def pmfs_get_blocknr_def unat_drop_bit_div pmfs_get_numblocks_def bt_def)
    then show ?thesis using G(7)[OF l2 l0] by blast
  qed
  show "s_blocksize s' = s_blocksize s" "s_blocksize_bits s' = 12" "now s' = now s"
    using alloc_frame_fields[OF fr] b by (simp_all add: s' s2_def)
  have cnt: "unat (s_inodes_count (sbi s')) = unat n * 2 ^ (k - 7)"
  proof -
    have "s_inodes_count (sbi s3) = s_inodes_count (sbi s2)"
      using arg_cong[OF fr, of "\<lambda>s. s_inodes_count (sbi s)"] by (simp add: alloc_rest_def)
    then show ?thesis by (simp add: s' s2_def N(5))
  qed
  show "0 < unat (s_inodes_count (sbi s'))" using N(2) by (simp add: cnt)
  have "mem s' x = mem s x" if "x < 48" for x using ch[of x] inv(2) that by (cases "mem s' x = mem s x") auto
  then have T': "pmfs_get_inode_table s' = 256"
    using T rdw_cong[of 40 "mem s'" "mem s", where 'a=64] by (simp add: pmfs_get_inode_table_def rd_super_def)
  have slots: "table_slots s' = 2 ^ (k - 7)" by (simp add: table_slots_def pmfs_inode_blk_shift_def T' G(2) k_def)
  have "i div 2 ^ (k - 7) \<le> unat n - 1" if "i < unat n * 2 ^ (k - 7)" for i
    using div_le_mono[of i "unat n * 2 ^ (k - 7) - 1" "2 ^ (k - 7)"] that div_mult_pred[OF N(2), of "2 ^ (k - 7)"] by simp
  moreover have "unat n * 2 ^ (k - 7) \<le> 2 ^ 24"
  proof -
    have "unat n * 2 ^ (k - 7) * 128 = unat n * 2 ^ k" using k(1) by auto
    moreover have "2 ^ 30 + (2::nat) ^ k \<le> 2 ^ 24 * 128" using k(1) by auto
    ultimately show ?thesis using N(3) by linarith
  qed
  ultimately show "table_ok s' (unat (s_inodes_count (sbi s')))"
    using c' full m' by (simp add: table_ok_def T' slots cnt)
qed

lemma root_dots_list:
  fixes m :: mem
  defines "m' a \<equiv> root_dots a 4096 m"
  shows "dir_ok (m' a) a (a + 4096)" "dir_list (m' a) a (a + 4096) = [([46], 128), ([46, 46], 128)]"
    "x < a \<or> a + 4096 \<le> x \<Longrightarrow> m' a x = m x"
proof -
  define m1 where "m1 = memput (a + 12) [46, 0] (wr16 (a + 8) 16 (wr8 (a + 10) 1 (wr64 a 128 m)))"
  have l: "rd16 m1 (a + 8) = 16" by (simp add: m1_def)
  have e: "m' a = memput (a + 28) [46, 46, 0] (wr8 (a + 26) 2 (wr16 (a + 24) 4080 (wr64 (a + 16) 128 m1)))"
    unfolding m'_def root_dots_def Let_def
    by (simp add: m1_def[symmetric] rd_direntry_def l PMFS_DIR_REC_LEN_def add.commute[of 28 a] add.commute[of 26 a] add.commute[of 24 a])
  have r: "rd64 (m' a) a = 128" "rd16 (m' a) (a + 8) = 16" "rd8 (m' a) (a + 10) = 1"
    "rd64 (m' a) (a + 16) = 128" "rd16 (m' a) (a + 24) = 4080" "rd8 (m' a) (a + 26) = 2"
    by (simp_all add: e m1_def)
  have b: "m' a (a + 12) = 46" "m' a (a + 28) = 46" "m' a (a + 29) = 46"
    by (simp_all add: e m1_def memput_def wrw_apply_other)
  have c: "dir_chain (m' a) (a + 4096) a [a, a + 16]" "dir_live (m' a) [a, a + 16] = [([46], 128), ([46, 46], 128)]"
    by (simp_all add: rec_ok_def rec_live_def rec_name_def r b r[unfolded add.commute[of a]] b[unfolded add.commute[of a]] PMFS_DIR_REC_LEN_def bytes_at_def upt_rec)
  show "dir_ok (m' a) a (a + 4096)" "dir_list (m' a) a (a + 4096) = [([46], 128), ([46, 46], 128)]"
    using dir_chain_dir[OF c(1)] c(2) by simp_all
  show "m' a x = m x" if "x < a \<or> a + 4096 \<le> x"
    using that by (auto simp: e m1_def memput_def wrw_apply_other)
qed

lemma root_inode_fields:
  fixes m :: mem
  defines "m' r b s \<equiv> root_inode r b s m"
  shows "pi_height (rd_inode (m' r b s) r) = 0" "pi_root (rd_inode (m' r b s) r) = pmfs_get_block_off b"
    "pi_blk_type (rd_inode (m' r b s) r) = 0" "pi_size (rd_inode (m' r b s) r) = s_blocksize s"
    "pi_mode (rd_inode (m' r b s) r) = sbi_mode (sbi s) OR S_IFDIR" "pi_links_count (rd_inode (m' r b s) r) = 2"
    "x < r + 2 \<or> r + 64 \<le> x \<Longrightarrow> m' r b s x = m x"
  by (simp_all add: m'_def root_inode_def rd_inode_def Let_def) (auto simp: wrw_apply_other)

lemma sync_super_frame:
  "\<not> x < 2 \<Longrightarrow> \<not> (60 \<le> x \<and> x < 64) \<Longrightarrow> \<not> (512 \<le> x \<and> x < 648) \<Longrightarrow> pmfs_sync_super crc16 0 t m x = m x"
  by (auto simp: pmfs_sync_super_def Let_def memcpy_def wrw_apply_other)

lemma check_size_fits:
  assumes "pmfs_check_size sz s" "s_blocksize_bits s = 12" "unat (num_inodes (sbi s)) \<le> 2 ^ 23"
  shows "12288 + unat (jsize (sbi s)) \<le> unat sz"
proof -
  let ?nb = "if num_inodes (sbi s) > 0 then drop_bit 5 (num_inodes (sbi s)) + 1 else 1 :: u64"
  have "unat (drop_bit 5 (num_inodes (sbi s))) \<le> 2 ^ 18" using assms(3) by (simp add: unat_drop_bit_div)
  moreover from this have "unat (drop_bit 5 (num_inodes (sbi s)) + 1) = unat (drop_bit 5 (num_inodes (sbi s))) + 1"
    by (subst unat_plus_fits) auto
  ultimately have nb: "1 \<le> unat ?nb" "unat ?nb \<le> 2 ^ 19" by auto
  have p: "unat (push_bit 12 ?nb) = 4096 * unat ?nb" using nb(2) by (subst unat_push_bit_fits) auto
  have j: "unat (ucast (jsize (sbi s)) :: u64) = unat (jsize (sbi s))" "unat (jsize (sbi s)) < 2 ^ 32"
    using unat_less_size[of "jsize (sbi s)"] by (auto simp: unat_ucast_fits)
  have "unat (8192 + push_bit 12 ?nb) = 8192 + 4096 * unat ?nb" using p nb(2) by (subst unat_plus_fits) auto
  then have "unat (8192 + push_bit 12 ?nb + ucast (jsize (sbi s))) = 8192 + 4096 * unat ?nb + unat (jsize (sbi s))"
    using j nb(2) by (subst unat_plus_fits) auto
  moreover have "8192 + push_bit 12 ?nb + ucast (jsize (sbi s)) \<le> sz"
    using assms(1)[unfolded pmfs_check_size_def assms(2) Let_def] by (auto simp: not_less split: if_splits)
  ultimately show ?thesis using nb(1) by (simp add: word_le_nat_alt)
qed

text \<open>Up to the inode table: page 0 holds the super block, on which the journal's header now lies.\<close>

lemma init_to_table:
  assumes run: "pmfs_init crc16 vo st sz s = Some (Inr root_i, s')"
    and l: "block_inuse_head (sbi s) = []" and ni: "unat (num_inodes (sbi s)) \<le> 2 ^ 23"
  obtains s6 s8 b where "pmfs_new_block 0 True (upd_mem (pmfs_sync_super crc16 0 (now s6)) s6) = Some (Inr b, s8)"
    "pmfs_get_inode s8 128 = Some root_i" "root_i \<noteq> 0"
    "s' = upd_mem (\<lambda>m. root_dots (unat (pmfs_get_block_off b)) (s_blocksize s8) (root_inode root_i b s8 m)) s8"
    "file_ctx 256 s6" "pmfs_get_inode_table s6 = 256" "0 \<in> used_blocks s6" "0 \<notin> file_meta 256 (mem s6)"
    "file_look 256 (mem s6) 0 \<noteq> 0" "4096 dvd unat (file_look 256 (mem s6) 0)"
    "unat (file_look 256 (mem s6) 0) div 4096 \<in> used_blocks s6 - file_meta 256 (mem s6) - {0}"
    "s_blocksize s6 = 4096" "s_blocksize_bits s6 = 12" "table_ok s6 (unat (s_inodes_count (sbi s6)))" "0 < unat (s_inodes_count (sbi s6))"
    "rd16 (mem s6) 2 = 0" "rd64 (mem s6) 0 = 4096"
proof -
  define n where "n = drop_bit 12 sz"
  define s2 where "s2 = s\<lparr>sbi := (sbi s)\<lparr>block_start := 0, block_end := n, num_free_blocks := n, blocksize := 4096\<rparr>,
    s_blocksize_bits := 12, s_blocksize := 4096\<rparr>"
  let ?s3 = "upd_mem (format_super sz) s2" and ?J = "jsize (sbi s)"
  obtain s4 s5 s6 s8 b where st: "pmfs_check_size sz s2" "pmfs_init_blockmap (4096 + ucast ?J) ?s3 = Some s4"
    "pmfs_journal_hard_init st 4096 (jsize (sbi s4)) s4 = Some (Inr (), s5)" "pmfs_init_inode_table s5 = Some (Inr (), s6)"
    and rest: "pmfs_new_block 0 True (upd_mem (pmfs_sync_super crc16 0 (now s6)) s6) = Some (Inr b, s8)"
    "pmfs_get_inode s8 128 = Some root_i" "root_i \<noteq> 0"
    "s' = upd_mem (\<lambda>m. root_dots (unat (pmfs_get_block_off b)) (s_blocksize s8) (root_inode root_i b s8 m)) s8"
    by (rule init_run[OF run n_def s2_def])
  have J: "unat (4096 + ucast ?J :: u64) = 4096 + unat ?J"
  proof -
    have j: "unat (ucast ?J :: u64) = unat ?J" "unat ?J < 2 ^ 32" using unat_less_size[of ?J] by (auto simp: unat_ucast_fits)
    then show ?thesis by (subst unat_plus_fits) auto
  qed
  have fits: "12288 + unat ?J \<le> unat sz" using check_size_fits[OF st(1)] ni by (simp add: s2_def)
  have n: "unat n = unat sz div 4096" by (simp add: n_def unat_drop_bit_div)
  have "(4096 + unat ?J + 4095) div 4096 \<le> unat n" unfolding n using fits by (intro div_le_mono) simp
  moreover have "unat n < 2 ^ 52" using unat_less_size[of sz] unfolding n by (simp add: div_less_iff_less_mult)
  moreover have "unat ?J < 2 ^ 32" using unat_less_size[of ?J] by simp
  ultimately have S4: "balloc_inv s4" "used_blocks s4 = {..<(4096 + unat ?J + 4095) div 4096}" "alloc_frame ?s3 s4" "mem s4 = mem ?s3"
    using blockmap_stage[OF st(2)] l by (simp_all add: J s2_def)
  define m5 where "m5 = memset 4096 0 (unat (jsize (sbi s4))) (wr16 24 0 (wr32 12 0 (wr32 16 0 (wr16 20 1
    (wr32 8 (jsize (sbi s4)) (wr64 0 4096 (mem s4)))))))"
  have s5: "s5 = s4\<lparr>mem := m5, sbi := (sbi s4)\<lparr>next_transaction_id := 0, journal_base_addr := 4096, jsize := jsize (sbi s4), redo_log := False\<rparr>\<rparr>"
    using st(3) hard_init_eq[of 4096 st "jsize (sbi s4)" s4] by (simp add: m5_def split: if_splits)
  have m4: "mem s4 = format_super sz (mem s)" using S4(4) by (simp add: s2_def)
  have T5: "pmfs_get_inode_table s5 = 256" "pi_root (rd_inode (mem s5) 256) = 0"
    by (simp_all add: s5 m5_def m4 format_super_def pmfs_get_inode_table_def rd_super_def rd_inode_def)
  have r5: "rd64 (mem s5) 0 = 4096" by (simp add: s5 m5_def)
  have u5: "balloc_inv s5" "used_blocks s5 = {..<(4096 + unat ?J + 4095) div 4096}"
    using S4(1,2) by (simp_all add: s5 balloc_inv_def used_blocks_def)
  have "0 \<in> used_blocks s5" unfolding u5(2) by simp
  moreover have "s_blocksize_bits s5 = 12" "s_blocksize s5 = 4096" "num_inodes (sbi s5) = num_inodes (sbi s)"
    using alloc_frame_fields[OF S4(3)] arg_cong[OF S4(3), of "\<lambda>s. num_inodes (sbi s)"] by (simp_all add: s5 s2_def alloc_rest_def)
  ultimately have b5: "0 \<in> used_blocks s5" "s_blocksize_bits s5 = 12" "unat (num_inodes (sbi s5)) \<le> 2 ^ 23" "s_blocksize s5 = 4096"
    using ni by simp_all
  note S6 = table_stage[OF st(4) T5 u5(1) b5(1-3)]
  have lo: "mem s6 x = mem s5 x" if "x < 256" for x using S6(4)[of x] b5(1) that by (cases "mem s6 x = mem s5 x") auto
  have "rd64 (mem s6) 40 = rd64 (mem s5) 40" "rd64 (mem s6) 0 = rd64 (mem s5) 0" "rd16 (mem s6) 2 = rd16 (mem s5) 2"
    by (rule rdw_cong; use lo in simp)+
  moreover have "rd16 (mem s5) 2 = 0"
  proof -
    have "rd16 (mem s5) 2 = rd16 (wr64 0 4096 (mem s4)) 2" by (simp add: s5 m5_def)
    also have "\<dots> = 0"
      using unat_rdw_wrw_inside[of 2 0 "4096::u64" "mem s4", where 'b=16] by (simp add: unat_eq_0 del: add_2_eq_Suc add_2_eq_Suc')
    finally show ?thesis .
  qed
  ultimately have lo6: "pmfs_get_inode_table s6 = 256" "rd16 (mem s6) 2 = 0" "rd64 (mem s6) 0 = 4096"
    using T5(1) r5 by (simp_all add: pmfs_get_inode_table_def rd_super_def)
  have pg: "unat (file_look 256 (mem s6) 0) div 4096 \<in> used_blocks s6 - file_meta 256 (mem s6) - {0}"
    using S6(7) b5(1) by (metis DiffD1 DiffD2 DiffI singletonD)
  show thesis
    by (rule that[OF rest S6(1) lo6(1) _ _ S6(5,6) pg _ S6(9,11,12) lo6(2,3)]) (use S6(2,3,8) b5 in auto)
qed

lemma root_slot:
  assumes ctx: "file_ctx 256 s" and T: "pmfs_get_inode_table s = 256" and look: "file_look 256 (mem s) 0 \<noteq> 0"
    "4096 dvd unat (file_look 256 (mem s) 0)" "unat (file_look 256 (mem s) 0) div 4096 \<notin> table_pages s"
    and ok: "table_ok s n"
  shows "in_table s 128" "pmfs_get_inode s 128 = Some (unat (file_look 256 (mem s) 0) + 128)"
proof -
  let ?p = "unat (file_look 256 (mem s) 0)"
  obtain k where k: "pmfs_inode_blk_shift s 256 = k + 7" "k = 5 \<or> k = 14 \<or> k = 23" "table_slots s = 2 ^ k"
    using table_shift[OF ok] T by metis
  have sl: "32 \<le> table_slots s" using k(2,3) by auto
  then have z: "i < 2 \<Longrightarrow> i div table_slots s = 0" for i by simp
  have ok2: "table_ok s 2" using ctx look(1) z by (simp add: table_ok_def T)
  have "slot s 1 = ?p + 128" using sl by (simp add: slot_def T)
  then show g: "pmfs_get_inode s 128 = Some (?p + 128)" using get_inode_slot(1)[OF ok2, of 1] by simp
  have "ino_block s 128 = 0" using k(2) by (auto simp: ino_block_def T k(1))
  moreover obtain q where q: "?p = 4096 * q" using look(2) by auto
  moreover have "(?p + 128) div 4096 = ?p div 4096" "(?p + 128) mod 128 = 0" unfolding q by simp_all
  ultimately show "in_table s 128" using g look(3) by (simp add: in_table_def T del: div_eq_0_iff)
qed

text \<open>The formatted device: the table and the root directory in it.\<close>

lemma init_layout:
  assumes run: "pmfs_init crc16 vo st sz s = Some (Inr root_i, s')"
    and l: "block_inuse_head (sbi s) = []" and ni: "unat (num_inodes (sbi s)) \<le> 2 ^ 23"
  obtains s6 s8 b where "s' = upd_mem (\<lambda>m. root_dots (unat b * 4096) 4096 (root_inode root_i b s8 m)) s8"
    "file_ctx 256 s6" "pmfs_get_inode_table s6 = 256" "in_table s6 128" "0 \<in> used_blocks s6" "0 \<notin> file_meta 256 (mem s6)"
    "pmfs_get_inode s6 128 = Some root_i" "root_i mod 4096 = 128" "root_i div 4096 \<in> used_blocks s6 - table_pages s6"
    "unat b < 2 ^ 52" "unat b \<notin> used_blocks s6" "balloc_inv s8" "used_blocks s8 = insert (unat b) (used_blocks s6)"
    "s_blocksize s8 = 4096" "s_blocksize_bits s8 = 12" "rd16 (mem s6) 2 = 0"
    "\<And>x. x div 4096 \<noteq> unat b \<Longrightarrow> mem s8 x = pmfs_sync_super crc16 0 (now s6) (mem s6) x"
proof -
  obtain s6 s8 b where nb: "pmfs_new_block 0 True (upd_mem (pmfs_sync_super crc16 0 (now s6)) s6) = Some (Inr b, s8)"
    and g8: "pmfs_get_inode s8 128 = Some root_i" "root_i \<noteq> 0"
    and s': "s' = upd_mem (\<lambda>m. root_dots (unat (pmfs_get_block_off b)) (s_blocksize s8) (root_inode root_i b s8 m)) s8"
    and c6: "file_ctx 256 s6" "pmfs_get_inode_table s6 = 256" "0 \<in> used_blocks s6" "0 \<notin> file_meta 256 (mem s6)"
    and look: "file_look 256 (mem s6) 0 \<noteq> 0" "4096 dvd unat (file_look 256 (mem s6) 0)"
      "unat (file_look 256 (mem s6) 0) div 4096 \<in> used_blocks s6 - file_meta 256 (mem s6) - {0}"
    and b6: "s_blocksize s6 = 4096" "s_blocksize_bits s6 = 12" and tok: "table_ok s6 (unat (s_inodes_count (sbi s6)))"
    and mg: "rd16 (mem s6) 2 = 0"
    by (rule init_to_table[OF run l ni])
  let ?s7 = "upd_mem (pmfs_sync_super crc16 0 (now s6)) s6"
  define D where "D = unat (pmfs_get_block_off b)"
  have inv6: "balloc_inv s6" using c6(1) by (simp add: file_ctx_def tree_ctx_def Let_def)
  then have inv7: "balloc_inv ?s7" "used_blocks ?s7 = used_blocks s6" by (simp_all add: balloc_inv_def used_blocks_def)
  have run0: "block_run 0 b = {unat b}" by (auto simp: block_run_def pmfs_get_numblocks_def)
  note B = pmfs_new_block_facts[OF inv7(1) nb, unfolded inv7(2) run0] and P = pmfs_new_block_pos[OF inv7(1) nb]
  have D: "D = unat b * 4096" using unat_block_off[OF P(2)] by (simp add: D_def)
  have fr8: "s_blocksize s8 = 4096" "s_blocksize_bits s8 = 12" using alloc_frame_fields[OF new_block_frame[OF nb]] b6 by simp_all
  have ch8: "mem s8 x = pmfs_sync_super crc16 0 (now s6) (mem s6) x" if "x div 4096 \<noteq> unat b" for x
    using B(4)[of x] that by auto
  have bb: "unat b \<notin> used_blocks s6" "unat b \<noteq> 0" using B(3) P(1) by auto
  have mU: "file_meta 256 (mem s6) \<subseteq> used_blocks s6" using c6(1) by (simp add: file_ctx_def tree_ctx_def file_meta_def Let_def)
  have tp: "table_pages s6 = insert 0 (file_meta 256 (mem s6))" by (simp add: table_pages_def c6(2))
  let ?p = "unat (file_look 256 (mem s6) 0)"
  have it6: "in_table s6 128" and r6: "pmfs_get_inode s6 128 = Some (?p + 128)"
    using root_slot[OF c6(1,2) look(1,2) _ tok] look(3) by (simp_all add: tp)
  have "pmfs_get_inode s8 128 = pmfs_get_inode s6 128"
  proof -
    have same: "mem s8 x = mem s6 x" if "64 \<le> x \<or> 2 \<le> x \<and> x < 60" "x < 512 \<or> 648 \<le> x" "x div 4096 \<noteq> unat b" for x
      using ch8[OF that(3)] sync_super_frame[of x crc16 "now s6" "mem s6"] that(1,2) by auto
    have "mem s8 x = mem s6 x" if "x div 4096 \<in> file_meta 256 (mem s6)" for x
    proof (rule same)
      have "x div 4096 \<noteq> 0" using c6(4) that by metis
      then show "64 \<le> x \<or> 2 \<le> x \<and> x < 60" "x < 512 \<or> 648 \<le> x" by auto
      show "x div 4096 \<noteq> unat b" using mU bb(1) that by auto
    qed
    from get_inode_frame(4)[OF c6(1)[folded c6(2)] same same this, unfolded c6(2), OF _ _ _ _ _ _ _ B(1) _ it6]
    show ?thesis using bb(2) B(2) by auto
  qed
  then have ri: "root_i = ?p + 128" using g8(1) r6 by simp
  obtain q where q: "?p = 4096 * q" using look(2) by auto
  have rp: "root_i mod 4096 = 128" "root_i div 4096 = ?p div 4096" unfolding ri q by simp_all
  show thesis
    by (rule that[OF _ c6(1,2) it6 c6(3,4) _ rp(1) _ P(2) bb(1) B(1) _ fr8 mg ch8])
      (use s' fr8 r6 ri rp(2) look(3) B(2) D in \<open>simp_all add: D_def tp\<close>)
qed

lemma rdw_cong_in:
  assumes "\<And>x. a \<le> x \<Longrightarrow> x < a + n \<Longrightarrow> m' x = m x" "k + LENGTH('a) div 8 \<le> n"
  shows "(rdw m' (a + k) :: 'a::len word) = rdw m (a + k)"
  by (rule rdw_cong, rule assms(1)) (use assms(2) in simp_all)

lemma rd_inode_cong: "(\<And>x. pi \<le> x \<Longrightarrow> x < pi + 80 \<Longrightarrow> m' x = m x) \<Longrightarrow> rd_inode m' pi = rd_inode m pi"
  by (simp add: rd_inode_def rdw_cong_in[of pi 80 m' m] del: add_2_eq_Suc add_2_eq_Suc')

lemma init_result:
  assumes run: "pmfs_init crc16 vo st sz s = Some (Inr root_i, s')"
    and l: "block_inuse_head (sbi s) = []" and ni: "unat (num_inodes (sbi s)) \<le> 2 ^ 23"
  shows "\<And>v. i_ino v = 128 \<Longrightarrow> i_size v = 4096 \<Longrightarrow>
      dir_ctx v root_i s' \<and> dir_entries root_i (mem s') (dir_nblocks v) = [([46], 128), ([46, 46], 128)]"
    "pi_size (rd_inode (mem s') root_i) = 4096" "\<exists>md. pi_mode (rd_inode (mem s') root_i) = md OR S_IFDIR"
    "pi_links_count (rd_inode (mem s') root_i) = 2" "rd16 (mem s') 2 = 0" "rd16 (mem s') 514 = 0"
proof -
  obtain s6 s8 b where s': "s' = upd_mem (\<lambda>m. root_dots (unat b * 4096) 4096 (root_inode root_i b s8 m)) s8"
    and c6: "file_ctx 256 s6" "pmfs_get_inode_table s6 = 256" "in_table s6 128" "0 \<in> used_blocks s6" "0 \<notin> file_meta 256 (mem s6)"
    and ri: "pmfs_get_inode s6 128 = Some root_i" "root_i mod 4096 = 128" "root_i div 4096 \<in> used_blocks s6 - table_pages s6"
    and b: "unat b < 2 ^ 52" "unat b \<notin> used_blocks s6" "balloc_inv s8" "used_blocks s8 = insert (unat b) (used_blocks s6)"
    and b8: "s_blocksize s8 = 4096" "s_blocksize_bits s8 = 12" and mg: "rd16 (mem s6) 2 = 0"
    and m8: "\<And>x. x div 4096 \<noteq> unat b \<Longrightarrow> mem s8 x = pmfs_sync_super crc16 0 (now s6) (mem s6) x"
    by (rule init_layout[OF run l ni], rule that; assumption)
  let ?D = "unat b * 4096"
  note dots = root_dots_list[where m="root_inode root_i b s8 (mem s8)"] and rin = root_inode_fields[where r=root_i and b=b and s=s8 and m="mem s8"]
  have inv': "balloc_inv s'" "used_blocks s' = used_blocks s8" using b(3) by (simp_all add: s' balloc_inv_def used_blocks_def)
  have mU: "file_meta 256 (mem s6) \<subseteq> used_blocks s6" using c6(1) by (simp add: file_ctx_def tree_ctx_def file_meta_def Let_def)
  have tp: "table_pages s6 = insert 0 (file_meta 256 (mem s6))" by (simp add: table_pages_def c6(2))
  have pg: "x div 4096 = unat b" if "?D \<le> x" "x < ?D + 4096" for x using that by (simp add: div_nat_eqI)
  have mp: "mem s' x = root_inode root_i b s8 (mem s8) x" if "x div 4096 \<noteq> unat b" for x
  proof -
    have "x < ?D \<or> ?D + 4096 \<le> x" using pg[of x] that by linarith
    then show ?thesis using dots(3)[where x=x and a="?D"] by (simp add: s')
  qed
  have rb: "root_i div 4096 \<noteq> unat b" "unat b \<noteq> 0" using ri(3) b(2) c6(4) by (metis DiffD1)+
  have rpage: "(root_i + k) div 4096 = root_i div 4096" if "k < 128" for k
  proof -
    have "(root_i + k) div 4096 = root_i div 4096 + (root_i mod 4096 + k) div 4096"
      by (subst div_mult_mod_eq[of root_i 4096, symmetric], subst add.assoc, subst div_mult_self3) simp_all
    then show ?thesis using that by (simp add: ri(2))
  qed
  have ch: "mem s' x = pmfs_sync_super crc16 0 (now s6) (mem s6) x" if "x div 4096 \<notin> {unat b, root_i div 4096}" for x
  proof -
    have "x < root_i + 2 \<or> root_i + 64 \<le> x"
    proof (rule ccontr)
      assume "\<not> ?thesis"
      then have "x - root_i < 128" "root_i + (x - root_i) = x" by linarith+
      then show False using rpage[of "x - root_i"] that by simp
    qed
    then show ?thesis using mp[of x] rin(7)[where x=x] m8[of x] that by simp
  qed
  have same: "mem s' x = mem s6 x" if "64 \<le> x \<or> 2 \<le> x \<and> x < 60" "x < 512 \<or> 648 \<le> x" "x div 4096 \<in> table_pages s6" for x
  proof -
    have "x div 4096 \<noteq> unat b" "x div 4096 \<noteq> root_i div 4096" using that(3) mU ri(3) b(2) c6(4) tp by auto
    then show ?thesis using ch[of x] sync_super_frame[of x crc16 "now s6" "mem s6"] that(1,2) by auto
  qed
  have z: "x div 4096 \<in> table_pages s6" if "x < 4096" for x using that by (simp add: tp)
  have meta: "mem s' x = mem s6 x" if "x div 4096 \<in> file_meta 256 (mem s6)" for x
  proof (rule same)
    have "x div 4096 \<noteq> 0" using c6(5) that by metis
    then show "64 \<le> x \<or> 2 \<le> x \<and> x < 60" "x < 512 \<or> 648 \<le> x" by auto
    show "x div 4096 \<in> table_pages s6" using that by (simp add: tp)
  qed
  have t1: "mem s' x = mem s6 x" if "40 \<le> x" "x < 48" for x by (rule same) (use that z[of x] in auto)
  have t2: "mem s' x = mem s6 x" if "258 \<le> x" "x < 272" for x by (rule same) (use that z[of x] in auto)
  have u': "used_blocks s6 \<subseteq> used_blocks s'" using inv'(2) b(4) by auto
  note F = get_inode_frame[where s=s6 and s'=s', unfolded c6(2), OF c6(1) t1 _ meta inv'(1) u']
  have F': "pmfs_get_inode_table s' = 256" "file_ctx 256 s'" "file_meta 256 (mem s') = file_meta 256 (mem s6)"
    by (rule F; use t2 in simp)+
  have F4: "in_table s' 128 \<and> pmfs_get_inode s' 128 = pmfs_get_inode s6 128"
    by (rule F(4)) (use t2 c6(3) in simp_all)
  have f: "pi_height (rd_inode (mem s') root_i) = 0" "pi_root (rd_inode (mem s') root_i) = pmfs_get_block_off b"
    "pi_blk_type (rd_inode (mem s') root_i) = 0" "pi_size (rd_inode (mem s') root_i) = 4096"
    "pi_mode (rd_inode (mem s') root_i) = sbi_mode (sbi s8) OR S_IFDIR" "pi_links_count (rd_inode (mem s') root_i) = 2"
  proof -
    have "mem s' x = root_inode root_i b s8 (mem s8) x" if "root_i \<le> x" "x < root_i + 128" for x
      using mp[of x] rpage[of "x - root_i"] rb(1) that by simp
    then have "rd_inode (mem s') root_i = rd_inode (root_inode root_i b s8 (mem s8)) root_i"
      by (intro rd_inode_cong) simp
    then show "pi_height (rd_inode (mem s') root_i) = 0" "pi_root (rd_inode (mem s') root_i) = pmfs_get_block_off b"
      "pi_blk_type (rd_inode (mem s') root_i) = 0" "pi_size (rd_inode (mem s') root_i) = 4096"
      "pi_mode (rd_inode (mem s') root_i) = sbi_mode (sbi s8) OR S_IFDIR" "pi_links_count (rd_inode (mem s') root_i) = 2"
      by (simp_all only: rin b8)
  qed
  show "pi_size (rd_inode (mem s') root_i) = 4096" "\<exists>md. pi_mode (rd_inode (mem s') root_i) = md OR S_IFDIR"
    "pi_links_count (rd_inode (mem s') root_i) = 2" using f by auto
  show "rd16 (mem s') 2 = 0" 
  proof -
    have "rd16 (mem s') 2 = rd16 (mem s6) 2" by (rule rdw_cong, rule same) (auto simp: tp)
    then show ?thesis using mg by simp
  qed
  show "rd16 (mem s') 514 = 0"
  proof -
    have "rd16 (mem s') 514 = rd16 (pmfs_sync_super crc16 0 (now s6) (mem s6)) 514"
      by (rule rdw_cong, rule ch) (use rb ri(3) tp in auto)
    also have "\<dots> = rd16 (mem s6) 2" by (simp add: pmfs_sync_super_def Let_def rdw_memcpy_inside del: add_2_eq_Suc add_2_eq_Suc')
    finally show ?thesis using mg by simp
  qed
  show "dir_ctx v root_i s' \<and> dir_entries root_i (mem s') (dir_nblocks v) = [([46], 128), ([46, 46], 128)]"
    if v: "i_ino v = 128" "i_size v = 4096" for v
  proof -
    have bs: "s_blocksize s' = 4096" "s_blocksize_bits s' = 12" using b8 by (simp_all add: s')
    have n1: "dir_nblocks v = 1" by (simp add: dir_nblocks_def v)
    have lk: "file_look root_i (mem s') k = (if k = 0 then pmfs_get_block_off b else 0)" for k by (simp add: file_look_def f)
    have off: "unat (pmfs_get_block_off b) = ?D" using unat_block_off[OF b(1)] by simp
    have base: "dir_base root_i (mem s') 0 = ?D" by (simp add: dir_base_def lk off)
    have mt: "file_meta root_i (mem s') = {}" by (simp add: file_meta_def f)
    have tp': "table_pages s' = table_pages s6" by (simp add: table_pages_def F' c6(2))
    have ru: "root_i div 4096 \<in> used_blocks s'" using ri(3) u' by auto
    have "inode_at v root_i s'"
      using F' F4 ri empty_file_ctx[OF inv'(1) ru _ f(1)] c6(5) v(1) tp' mt f
      by (auto simp: inode_at_def in_table_def)
    moreover have "dir_page root_i s' ?D"
    proof -
      have "dir_ok (mem s') ?D (?D + 4096)" using dots(1)[of ?D] by (simp add: s')
      moreover have "unat b \<in> used_blocks s' - (table_pages s' \<union> file_meta root_i (mem s') \<union> {root_i div 4096})"
        unfolding tp' tp mt inv'(2) b(4) using rb mU b(2) by auto
      ultimately show ?thesis by (simp add: dir_page_def)
    qed
    moreover have "dir_entries root_i (mem s') 1 = [([46], 128), ([46, 46], 128)]"
    proof -
      have "dir_list (mem s') ?D (?D + 4096) = [([46], 128), ([46, 46], 128)]" using dots(2)[of ?D] by (simp add: s')
      then show ?thesis by (simp add: dir_entries_def dir_blk_list_def base)
    qed
    moreover have "pmfs_get_block_off b \<noteq> 0" using off rb(2) by (metis mult_eq_0_iff unat_0 zero_neq_numeral)
    ultimately show ?thesis unfolding dir_ctx_def n1
      using bs v(2) by (auto simp: f lk base lessThan_Suc)
  qed
qed

section \<open>An example device\<close>

text \<open>A device of 4 MB with a journal of 64 KB, formatted stage by stage.\<close>

definition ex_blank :: fs where
  "ex_blank = blank_fs\<lparr>sbi := blank_sbi\<lparr>jsize := 65536, block_inuse_head := [], num_inodes := 0\<rparr>\<rparr>"

definition ex_s2 :: fs where
  "ex_s2 = ex_blank\<lparr>sbi := (sbi ex_blank)\<lparr>block_start := 0, block_end := 1024, num_free_blocks := 1024, blocksize := 4096\<rparr>,
    s_blocksize_bits := 12, s_blocksize := 4096\<rparr>"

lemma ex_check_size: "pmfs_check_size 4194304 ex_s2"
  by (simp add: pmfs_check_size_def ex_s2_def ex_blank_def blank_fs_def blank_sbi_def)

lemma ex_stage4: "pmfs_init_blockmap 69632 (upd_mem (format_super 4194304) ex_s2) = Some (ex_s2\<lparr>mem := format_super 4194304 (\<lambda>_. 0),
   sbi := (sbi ex_s2)\<lparr>num_blocknode_allocated := 1, num_free_blocks := 1024 - 17 - 25 * 1024 * 1024,
     block_inuse_head := [\<lparr>block_low = 0, block_high = 16\<rparr>]\<rparr>\<rparr>)"
  by (simp add: pmfs_init_blockmap_def pmfs_alloc_blocknode_def kmem_cache_alloc_def ex_s2_def ex_blank_def blank_fs_def blank_sbi_def)


definition ex_s4 :: fs where
  "ex_s4 = ex_s2\<lparr>mem := format_super 4194304 (\<lambda>_. 0),
   sbi := (sbi ex_s2)\<lparr>num_blocknode_allocated := 1, num_free_blocks := 1024 - 17 - 25 * 1024 * 1024,
     block_inuse_head := [\<lparr>block_low = 0, block_high = 16\<rparr>]\<rparr>\<rparr>"

definition ex_s5 :: fs where
  "ex_s5 = ex_s4\<lparr>mem := memset 4096 0 65536 (wr16 24 0 (wr32 12 0 (wr32 16 0 (wr16 20 1 (wr32 8 65536 (wr64 0 4096 (mem ex_s4))))))),
        sbi := (sbi ex_s4)\<lparr>next_transaction_id := 0, journal_base_addr := 4096, jsize := 65536, redo_log := False\<rparr>\<rparr>"

lemma ex_simps: "jsize (sbi ex_s4) = 65536" "block_inuse_head (sbi ex_s5) = [\<lparr>block_low = 0, block_high = 16\<rparr>]"
  "block_start (sbi ex_s5) = 0" "block_end (sbi ex_s5) = 1024" "s_blocksize ex_s5 = 4096" "s_blocksize_bits ex_s5 = 12"
  "num_inodes (sbi ex_s5) = 0" "initsize (sbi ex_s5) = 0" "kmem ex_s5 = []"
  by (simp_all add: ex_s5_def ex_s4_def ex_s2_def ex_blank_def blank_fs_def blank_sbi_def)

lemma ex_mem5: "rd64 (mem ex_s5) 40 = 256" "rd64 (mem ex_s5) 264 = 0" "rd8 (mem ex_s5) 259 = 0" "rd32 (mem ex_s5) 260 = 0" "rd64 (mem ex_s5) 296 = 0"
  by (simp_all add: ex_s5_def ex_s4_def format_super_def)

lemma ex_stage6: "\<exists>s6. pmfs_init_inode_table ex_s5 = Some (Inr (), s6) \<and> block_inuse_head (sbi s6) = [\<lparr>block_low = 0, block_high = 17\<rparr>]
  \<and> block_end (sbi s6) = 1024 \<and> block_start (sbi s6) = 0 \<and> rd64 (mem s6) 40 = 256 \<and> rd64 (mem s6) 264 = 69632 \<and> rd8 (mem s6) 258 = 0 \<and> rd8 (mem s6) 259 = 0
  \<and> s_blocksize s6 = 4096 \<and> s_blocksize_bits s6 = 12"
  unfolding pmfs_init_inode_table_def Let_def pmfs_get_inode_table_def rd_super_def
  by (simp add: ex_mem5 ex_simps pmfs_get_block_off_def blk_type_to_shift_def blk_type_to_size_def raw_pmfs_alloc_blocks_def rd_inode_def pmfs_new_data_block_def Let_def pmfs_new_block_def
     pmfs_get_numblocks_def tree_height.simps)

lemma ex_init: "\<exists>s'. pmfs_init crc16 True True 4194304 ex_blank = Some (Inr 69760, s')"
proof -
  obtain s6 where s6: "pmfs_init_inode_table ex_s5 = Some (Inr (), s6)" "block_inuse_head (sbi s6) = [\<lparr>block_low = 0, block_high = 17\<rparr>]"
    "block_end (sbi s6) = 1024" "block_start (sbi s6) = 0" "rd64 (mem s6) 40 = 256" "rd64 (mem s6) 264 = 69632" "rd8 (mem s6) 258 = 0"
    "rd8 (mem s6) 259 = 0" "s_blocksize s6 = 4096" "s_blocksize_bits s6 = 12"
    using ex_stage6 by auto
  let ?s7 = "upd_mem (pmfs_sync_super crc16 0 (now s6)) s6"
  obtain s8 where s8: "pmfs_new_block 0 True ?s7 = Some (Inr 18, s8)" "mem s8 = memset 73728 0 4096 (mem ?s7)"
    by (simp add: pmfs_new_block_def pmfs_get_numblocks_def s6 pmfs_get_block_off_def)
  have r: "rd64 (mem s8) 40 = 256" "rd64 (mem s8) 264 = 69632" "rd8 (mem s8) 258 = 0" "rd8 (mem s8) 259 = 0"
    using s6 by (simp_all add: s8(2) pmfs_sync_super_def Let_def)
  have g: "pmfs_get_inode s8 128 = Some 69760"
    by (simp add: pmfs_get_inode_def pmfs_get_inode_table_def rd_super_def raw_pmfs_find_data_block_def pmfs_inode_blk_shift_def
        pmfs_inode_blk_size_def rd_inode_def r blk_type_to_shift_def blk_type_to_size_def)
  have st: "pmfs_journal_hard_init True 4096 65536 ex_s4 = Some (Inr (), ex_s5)"
    using hard_init_eq[of 4096 True 65536 ex_s4] by (simp add: ex_s5_def)
  have s2: "ex_s2 = ex_blank\<lparr>sbi := (sbi ex_blank)\<lparr>block_start := 0, block_end := 1024, num_free_blocks := 1024, blocksize := 4096\<rparr>,
    s_blocksize_bits := 12, s_blocksize := 4096\<rparr>" by (rule ex_s2_def)
  have j: "jsize (sbi ex_s2) = 65536" "s_blocksize ex_s2 = 4096" by (simp_all add: ex_s2_def ex_blank_def)
  show ?thesis
    unfolding pmfs_init_def Let_def set_blocksize_4096 format_offsets
    by (simp add: s2[symmetric] j ex_check_size ex_stage4[unfolded format_super_def ex_s4_def[unfolded format_super_def, symmetric], simplified]
        ex_simps(1) st s6(1) s8(1) g pmfs_get_block_off_def del: add_2_eq_Suc add_2_eq_Suc')
qed

section \<open>The integrity check\<close>

text \<open>The checksum covers the static fields behind it.\<close>

lemma calc_checksum_cong:
  assumes "\<And>x. x < 48 \<Longrightarrow> m' (b + x) = m (a + x)"
  shows "pmfs_calc_checksum crc16 b 48 m' = pmfs_calc_checksum crc16 a 48 m"
proof -
  have "rd16 m' b = rd16 m a" unfolding rdw_def by (subst rdn_shift[of _ m' b m a]) (use assms in auto)
  moreover have "bytes_at m' (b + 2) 46 = bytes_at m (a + 2) 46"
    using assms[of "2 + _"] by (intro nth_equalityI) (auto simp: add.assoc)
  ultimately show ?thesis by (simp add: pmfs_calc_checksum_def)
qed

lemma sync_super_copy:
  fixes m a crc t
  defines "m' \<equiv> pmfs_sync_super crc a t m"
  shows "x < 136 \<Longrightarrow> m' (a + 512 + x) = m' (a + x)" "\<not> pmfs_calc_checksum crc a 48 m'"
    "s_magic (rd_super m' a) = s_magic (rd_super m a)"
proof -
  define m1 where "m1 = wr16 a 0 (wr32 (a + 60) t m)"
  define c where "c = crc (NOT 0) (bytes_at m1 (a + 2) 46)"
  have m': "m' = memcpy (a + 512) a 136 (wr16 a c m1)"
    by (simp add: m'_def pmfs_sync_super_def Let_def m1_def c_def)
  show "x < 136 \<Longrightarrow> m' (a + 512 + x) = m' (a + x)" by (simp add: m' memcpy_def)
  have "bytes_at m' (a + 2) 46 = bytes_at (wr16 a c m1) (a + 2) 46" by (rule bytes_at_cong) (simp add: m' memcpy_def)
  then have "bytes_at m' (a + 2) 46 = bytes_at m1 (a + 2) 46" by simp
  moreover have "rd16 m' a = c" by (simp add: m')
  ultimately show "\<not> pmfs_calc_checksum crc a 48 m'" by (simp add: pmfs_calc_checksum_def c_def)
  show "s_magic (rd_super m' a) = s_magic (rd_super m a)" by (simp add: rd_super_def m' m1_def)
qed

section \<open>Properties of formatting\<close>



text \<open>C4. Formatting sets up a file system: when \<open>pmfs_init\<close> succeeds on a device without used blocks, the
  allocator's invariant holds, the inode table and its tree are in place, inode number 128 is the
  root directory, a well-formed directory of one block in use that holds exactly \<open>.\<close> and \<open>..\<close>, both
  naming itself, with size 4096 and two links, so that all directory operations work on it.\<close>

theorem format_makes_root:
  assumes "pmfs_init crc16 vo st sz s = Some (Inr root_i, s')" "block_inuse_head (sbi s) = []" "unat (num_inodes (sbi s)) \<le> 2 ^ 23"
  shows "pi_size (rd_inode (mem s') root_i) = 4096 \<and> pi_links_count (rd_inode (mem s') root_i) = 2
    \<and> (\<exists>md. pi_mode (rd_inode (mem s') root_i) = md OR S_IFDIR)
    \<and> (\<forall>v. i_ino v = PMFS_ROOT_INO \<and> i_size v = 4096 \<longrightarrow>
          dir_ctx v root_i s' \<and> dir_map v root_i s' = [[46] \<mapsto> PMFS_ROOT_INO, [46, 46] \<mapsto> PMFS_ROOT_INO])"
proof -
  note R = init_result[OF assms]
  have "dir_map v root_i s' = [[46] \<mapsto> 128, [46, 46] \<mapsto> 128]" if "i_ino v = 128" "i_size v = 4096" for v
    using R(1)[OF that] by (simp add: dir_map_def fun_upd_twist)
  then show ?thesis using R by simp
qed

theorem format_makes_root_witness:
  "\<exists>s'. pmfs_init (\<lambda>_ _. 7) True True 4194304 ex_blank = Some (Inr 69760, s') \<and> dir_ctx ex_dir_vinode 69760 s'"
proof -
  obtain s' where s': "pmfs_init (\<lambda>_ _. 7) True True 4194304 ex_blank = Some (Inr 69760, s')" using ex_init by blast
  then show ?thesis using format_makes_root[OF s'] by (auto simp: ex_blank_def ex_dir_vinode_def ex_vinode_def)
qed

text \<open>C22. A formatted device cannot be mounted again. \<open>pmfs_get_journal\<close> places the journal's header at the
  start of the super block, whatever \<open>s_journal_offset\<close> says, so that formatting the journal overwrites
  the magic number, and \<open>pmfs_sync_super\<close> copies the damaged super block: after every successful
  \<open>pmfs_init\<close> the magic number is 0 in both, and the integrity check of the next mount fails.\<close>

theorem formatted_image_refused:
  assumes "pmfs_init crc16 vo st sz s = Some (Inr root_i, s')" "block_inuse_head (sbi s) = []" "unat (num_inodes (sbi s)) \<le> 2 ^ 23"
  shows "s_magic (rd_super (mem s') (pmfs_get_super s')) = 0 \<and> fst (pmfs_check_integrity crc (pmfs_get_super s') (mem s')) = False"
proof -
  have "rd16 (mem s') 2 = 0" "rd16 (mem s') 514 = 0" by (rule init_result(5,6)[OF assms])+
  then show ?thesis by (simp add: pmfs_check_integrity_def rd_super_def del: add_2_eq_Suc add_2_eq_Suc')
qed

theorem formatted_image_refused_witness:
  "\<exists>s'. pmfs_init (\<lambda>_ _. 7) True True 4194304 ex_blank = Some (Inr 69760, s') \<and> \<not> fst (pmfs_check_integrity (\<lambda>_ _. 7) 0 (mem s'))"
proof -
  obtain s' where s': "pmfs_init (\<lambda>_ _. 7) True True 4194304 ex_blank = Some (Inr 69760, s')" using ex_init by blast
  then show ?thesis using formatted_image_refused[OF s', of "\<lambda>_ _. 7"] by (auto simp: ex_blank_def)
qed

end
