(* ===== verification/Rebuild.thy ===== *)
theory Rebuild
  imports Bbuild Inode_Place
begin

text \<open>
  The allocator's list at mount (\<open>bbuild.c\<close>): that the list built from the crawl's bitmaps covers exactly the
  blocks in use, that the crawl finds exactly the blocks reachable from the inode table, and that the runs
  stored at a clean unmount are read back.
\<close>

section \<open>Entering a run\<close>

text \<open>Slab allocations succeed.\<close>

definition kmem_good :: "fs \<Rightarrow> bool" where
  "kmem_good s \<longleftrightarrow> False \<notin> set (kmem s)"

lemma alloc_blocknode_good:
  assumes "kmem_good s"
  obtains s' where "pmfs_alloc_blocknode s = (True, s')" "kmem_good s'" "mem s' = mem s"
    "block_inuse_head (sbi s') = block_inuse_head (sbi s)" "num_free_blocks (sbi s') = num_free_blocks (sbi s)"
    "block_start (sbi s') = block_start (sbi s)" "block_end (sbi s') = block_end (sbi s)"
proof -
  obtain ok s' where a: "pmfs_alloc_blocknode s = (ok, s')" by (cases "pmfs_alloc_blocknode s")
  have "ok" "kmem_good s'"
    using a assms by (auto simp: pmfs_alloc_blocknode_def kmem_cache_alloc_def kmem_good_def split: list.splits bool.splits)
  then show thesis using that[of s'] a pmfs_alloc_blocknode_frame[OF a] by simp
qed

lemma insert_loop_step:
  fixes s :: fs and low high :: u64 and i :: pmfs_blocknode and rest :: "pmfs_blocknode list"
  defines "hi \<equiv> unat (block_high i)" and "e \<equiv> unat (block_end (sbi s))"
  defines "nl \<equiv> (case rest of [] \<Rightarrow> e | j # _ \<Rightarrow> unat (block_low j))"
  assumes ch: "chain l (i # rest) e" and e: "e < 2 ^ 52" and above: "hi < unat low"
    and n: "0 < n" "unat high = unat low + n - 1"
  shows "insert_loop low high (i # rest) s =
    (if unat low + n > nl then
       (case insert_loop low high rest s of (r, rest', s') \<Rightarrow> (r, i # rest', s'))
     else if unat low = hi + 1 \<and> unat low + n = nl then
       (case rest of
          j # rest' \<Rightarrow>
            (True, i\<lparr>block_high := block_high j\<rparr> # rest',
             upd_sbi (num_blocknode_allocated_update (\<lambda>n. n - 1)) s)
        | [] \<Rightarrow> (True, [i\<lparr>block_high := high\<rparr>], s))
     else if unat low = hi + 1 then (True, i\<lparr>block_high := high\<rparr> # rest, s)
     else if unat low + n = nl \<and> rest \<noteq> [] then
       (True, i # (hd rest)\<lparr>block_low := low\<rparr> # tl rest, s)
     else (case pmfs_alloc_blocknode s of
             (False, s') \<Rightarrow> (False, i # rest, s')
           | (True, s') \<Rightarrow> (True, i # \<lparr>block_low = low, block_high = high\<rparr> # rest, s')))"
proof -
  note ci = chain_ConsD[OF ch]
  have hi52: "unat (block_high i) < 2 ^ 52" using ci(2) e by simp
  define nlw where "nlw = (case rest of [] \<Rightarrow> block_end (sbi s) | j # _ \<Rightarrow> block_low j)"
  have nlw: "unat nlw = nl" by (simp add: nlw_def nl_def e_def split: list.split)
  have h1: "unat (block_high i + 1) = hi + 1"
    using hi52 by (subst unat_plus_fits) (auto simp: hi_def)
  have hc: "hi + 1 \<le> unat low" using above by simp
  have c1: "(high \<ge> nlw) = (unat low + n > nl)"
    using n nlw by (auto simp: word_le_nat_alt)
  have c2: "(low = block_high i + 1) = (unat low = hi + 1)" by (simp add: word_unat_eq_iff h1)
  have c3: "(low > block_high i + 1) = (unat low \<noteq> hi + 1)"
    using hc by (auto simp: word_less_nat_alt h1)
  have c4: "(high = nlw - 1) = (unat low + n = nl)" "(high < nlw - 1) = (unat low + n < nl)"
    if "\<not> unat low + n > nl"
  proof -
    have "1 \<le> nlw" using that n nlw by (simp add: word_le_nat_alt)
    then have "unat (nlw - 1) = nl - 1" using that n by (subst unat_minus_fits) (auto simp: nlw)
    then show "(high = nlw - 1) = (unat low + n = nl)" "(high < nlw - 1) = (unat low + n < nl)"
      using n that by (auto simp: word_unat_eq_iff word_less_nat_alt)
  qed
  show ?thesis
    unfolding insert_loop.simps Let_def nlw_def[symmetric] c1
    using hc by (auto simp: c2 c3 c4 split: list.split)
qed

lemma insert_loop_enters:
  assumes "chain l ns (unat (block_end (sbi s)))" "unat (block_end (sbi s)) < 2 ^ 52" "kmem_good s"
    and "ns \<noteq> []" "unat (block_high (hd ns)) < unat low" "0 < n" "unat high = unat low + n - 1"
    and "unat low + n \<le> unat (block_end (sbi s))" "{unat low..<unat low + n} \<inter> used ns = {}"
  shows "\<exists>ns' s'. insert_loop low high ns s = (True, ns', s') \<and> chain l ns' (unat (block_end (sbi s)))
    \<and> used ns' = used ns \<union> {unat low..<unat low + n} \<and> kmem_good s' \<and> mem s' = mem s
    \<and> num_free_blocks (sbi s') = num_free_blocks (sbi s) \<and> block_start (sbi s') = block_start (sbi s)
    \<and> block_end (sbi s') = block_end (sbi s)"
  using assms
proof (induction ns arbitrary: l)
  case (Cons i ns)
  let ?e = "unat (block_end (sbi s))"
  let ?nl = "case ns of [] \<Rightarrow> ?e | j # _ \<Rightarrow> unat (block_low j)"
  note ch = Cons.prems(1) and ci = chain_ConsD[OF Cons.prems(1)]
  have ab: "unat (block_high i) < unat low" using Cons.prems(5) by simp
  note step = insert_loop_step[OF ch Cons.prems(2) ab Cons.prems(6,7)]
  obtain s1 where al: "pmfs_alloc_blocknode s = (True, s1)" "kmem_good s1" "mem s1 = mem s"
    "num_free_blocks (sbi s1) = num_free_blocks (sbi s)"
    "block_start (sbi s1) = block_start (sbi s)" "block_end (sbi s1) = block_end (sbi s)"
    using alloc_blocknode_good[OF Cons.prems(3)] by blast
  have good: "kmem_good (upd_sbi f s)" for f using Cons.prems(3) by (simp add: kmem_good_def)
  show ?case
  proof (cases "unat low + n > ?nl")
    case True
    then obtain j ns2 where j: "ns = j # ns2" using Cons.prems(8) by (cases ns) auto
    have "unat (block_high j) < unat low"
    proof (rule ccontr)
      assume c: "\<not> ?thesis"
      have "max (unat low) (unat (block_low j)) \<in> {unat low..<unat low + n} \<inter> used (i # ns)"
        using c True j Cons.prems(6) chain_ConsD(1)[OF ci(4)[unfolded j]] by (auto simp: max_def)
      then show False using Cons.prems(9) by blast
    qed
    then have "unat (block_high (hd ns)) < unat low" by (simp add: j)
    from Cons.IH[OF ci(4) Cons.prems(2,3) _ this Cons.prems(6-8)] j Cons.prems(9)
    obtain ns' s' where r: "insert_loop low high ns s = (True, ns', s')" "chain (unat (block_high i) + 2) ns' ?e"
      "used ns' = used ns \<union> {unat low..<unat low + n}" "kmem_good s' \<and> mem s' = mem s
    \<and> num_free_blocks (sbi s') = num_free_blocks (sbi s) \<and> block_start (sbi s') = block_start (sbi s)
    \<and> block_end (sbi s') = block_end (sbi s)" by fastforce
    have "chain l (i # ns') ?e" using ch r(2) by simp
    then show ?thesis unfolding step using True r by auto
  next
    case False
    let ?p = "unat low = unat (block_high i) + 1" and ?q = "unat low + n = ?nl \<and> ns \<noteq> []"
    consider (fill) "?p" "?q" | (left) "?p" "\<not> ?q" | (right) "\<not> ?p" "?q" | (middle) "\<not> ?p" "\<not> ?q" by blast
    then show ?thesis
    proof cases
      case k: fill
      from k obtain j ns2 where j: "ns = j # ns2" by (auto simp: neq_Nil_conv)
      then show ?thesis unfolding step using place_fill[OF ch[unfolded j] k(1), of n] k j good by simp
    next
      case k: left
      then have "insert_loop low high (i # ns) s = (True, i\<lparr>block_high := high\<rparr> # ns, s)"
        unfolding step using False by (cases ns) auto
      then show ?thesis using place_left[OF ch Cons.prems(6,7) k(1)] False k Cons.prems(3) by auto
    next
      case k: right
      from k obtain j ns2 where j: "ns = j # ns2" by (auto simp: neq_Nil_conv)
      then show ?thesis unfolding step using place_right[OF ch[unfolded j] _ ab k(1), of n] k j Cons.prems(3) by simp
    next
      case k: middle
      then have "insert_loop low high (i # ns) s = (True, i # \<lparr>block_low = low, block_high = high\<rparr> # ns, s1)"
        unfolding step using False al(1) by auto
      then show ?thesis using place_middle[OF ch Cons.prems(6,7) ab k(1)] False k al by auto
    qed
  qed
qed simp

text \<open>What building the list from a bitmap keeps and adds.\<close>

definition entered :: "nat set \<Rightarrow> fs \<Rightarrow> fs \<Rightarrow> bool" where
  "entered A s s' \<longleftrightarrow> balloc_inv s' \<and> used_blocks s' = used_blocks s \<union> A \<and> kmem_good s' \<and> mem s' = mem s
     \<and> num_free_blocks (sbi s') = num_free_blocks (sbi s) - of_nat (card A)
     \<and> block_start (sbi s') = block_start (sbi s) \<and> block_end (sbi s') = block_end (sbi s)"

lemma insert_run_enters:
  assumes inv: "balloc_inv s" "kmem_good s" and u: "u \<in> used_blocks s" "u < unat low"
    and n: "0 < n" "unat high = unat low + n - 1"
    and r: "unat low + n \<le> unat (block_end (sbi s))" "{unat low..<unat low + n} \<inter> used_blocks s = {}"
  shows "fst (pmfs_alloc_insert_blocknode_map low high s) = Inr ()"
    "entered {unat low..<unat low + n} s (snd (pmfs_alloc_insert_blocknode_map low high s))"
proof -
  let ?ns = "block_inuse_head (sbi s)" and ?e = "unat (block_end (sbi s))"
  have ch: "chain (unat (block_start (sbi s))) ?ns ?e" and e: "?e < 2 ^ 52" using inv by (simp_all add: balloc_inv_def)
  obtain i ns where i: "?ns = i # ns" using u by (cases ?ns) (auto simp: used_blocks_def)
  note ci = chain_ConsD[OF ch[unfolded i]]
  have "unat (block_high i) < unat low"
  proof (rule ccontr)
    assume c: "\<not> ?thesis"
    have "unat (block_low i) \<le> u" using u(1) ci(1) ci(5)[of u] by (auto simp: used_blocks_def i)
    then have "unat low \<in> {unat low..<unat low + n} \<inter> used_blocks s" using c u(2) n(1) by (simp add: used_blocks_def i)
    then show False using r(2) by blast
  qed
  then have "unat (block_high (hd ?ns)) < unat low" by (simp add: i)
  from insert_loop_enters[OF ch e inv(2) _ this n r(1)] r(2) i
  obtain ns' s' where l: "insert_loop low high ?ns s = (True, ns', s')" "chain (unat (block_start (sbi s))) ns' ?e"
    "used ns' = used ?ns \<union> {unat low..<unat low + n}" "kmem_good s'" "mem s' = mem s"
    "num_free_blocks (sbi s') = num_free_blocks (sbi s)" "block_start (sbi s') = block_start (sbi s)"
    "block_end (sbi s') = block_end (sbi s)" by (auto simp: used_blocks_def)
  have "of_nat (unat high) = (of_nat (unat low + n - 1) :: u64)" using n(2) by (rule arg_cong)
  then have "high = low + of_nat n - 1" using n(1) by (simp add: of_nat_diff)
  then have cnt: "high - low + 1 = of_nat n" by simp
  show "fst (pmfs_alloc_insert_blocknode_map low high s) = Inr ()"
    by (simp add: pmfs_alloc_insert_blocknode_map_def l)
  show "entered {unat low..<unat low + n} s (snd (pmfs_alloc_insert_blocknode_map low high s))"
    using l e cnt by (simp add: pmfs_alloc_insert_blocknode_map_def entered_def balloc_inv_def used_blocks_def kmem_good_def)
qed

section \<open>From bitmaps to runs\<close>

lemma entered_trans:
  assumes "entered A s s1" "entered B s1 s2" "A \<inter> B = {}" "finite A" "finite B"
  shows "entered (A \<union> B) s s2"
  using assms by (auto simp: entered_def card_Un_disjoint)

lemma entered_none: "balloc_inv s \<Longrightarrow> kmem_good s \<Longrightarrow> entered {} s s"
  by (simp add: entered_def)

text \<open>The 4K blocks of the bits set from \<open>pos\<close> on; a bit stands for \<open>2 ^ scale\<close> blocks.\<close>

definition bit_blocks :: "nat \<Rightarrow> (nat \<Rightarrow> bool) \<Rightarrow> nat \<Rightarrow> nat \<Rightarrow> nat set" where
  "bit_blocks scale bits pos bsize = {b. pos \<le> b div 2 ^ scale \<and> b div 2 ^ scale < bsize \<and> bits (b div 2 ^ scale)}"

lemma find_next_props:
  assumes "off \<le> sz"
  shows "off \<le> find_next v bits sz off" "find_next v bits sz off \<le> sz"
    "\<And>i. off \<le> i \<Longrightarrow> i < find_next v bits sz off \<Longrightarrow> bits i \<noteq> v"
    "find_next v bits sz off < sz \<Longrightarrow> bits (find_next v bits sz off) = v"
proof -
  let ?f = "find_next v bits sz off"
  have "off \<le> ?f \<and> ?f \<le> sz \<and> (\<forall>i. off \<le> i \<longrightarrow> i < ?f \<longrightarrow> bits i \<noteq> v) \<and> (?f < sz \<longrightarrow> bits ?f = v)"
  proof (cases "find (\<lambda>i. bits i = v) [off..<sz]")
    case None
    then have f: "?f = sz" by (simp add: find_next_def)
    have "\<forall>i. off \<le> i \<longrightarrow> i < sz \<longrightarrow> bits i \<noteq> v" using None unfolding find_None_iff by auto
    then show ?thesis unfolding f using assms by blast
  next
    case (Some k)
    then obtain j where j: "j < sz - off" "bits (off + j) = v" "k = off + j" "\<forall>l<j. bits (off + l) \<noteq> v"
      unfolding find_Some_iff by (auto simp: nth_upt)
    have "bits i \<noteq> v" if "off \<le> i" "i < k" for i using j(3) j(4)[rule_format, of "i - off"] that by simp
    moreover have "?f = k" using Some by (simp add: find_next_def)
    ultimately show ?thesis using j by auto
  qed
  then show "off \<le> ?f" "?f \<le> sz" "\<And>i. off \<le> i \<Longrightarrow> i < ?f \<Longrightarrow> bits i \<noteq> v" "?f < sz \<Longrightarrow> bits ?f = v" by blast+
qed

lemma finite_bit_blocks [simp]: "finite (bit_blocks scale bits pos bsize)"
proof (rule finite_subset)
  show "bit_blocks scale bits pos bsize \<subseteq> {..<bsize * 2 ^ scale}"
    by (auto simp: bit_blocks_def div_less_iff_less_mult)
qed simp

text \<open>One maximal run of set bits.\<close>

lemma bit_blocks_split:
  assumes "pos \<le> low" "low < hi" "hi \<le> bsize" "\<And>i. pos \<le> i \<Longrightarrow> i < low \<Longrightarrow> \<not> bits i" "\<And>i. low \<le> i \<Longrightarrow> i < hi \<Longrightarrow> bits i"
  shows "bit_blocks scale bits pos bsize = {low * 2 ^ scale..<hi * 2 ^ scale} \<union> bit_blocks scale bits hi bsize"
    "{low * 2 ^ scale..<hi * 2 ^ scale} \<inter> bit_blocks scale bits hi bsize = {}"
proof -
  have run: "b \<in> {low * 2 ^ scale..<hi * 2 ^ scale} \<longleftrightarrow> low \<le> b div 2 ^ scale \<and> b div 2 ^ scale < hi" for b :: nat
    by (simp add: div_less_iff_less_mult less_eq_div_iff_mult_less_eq)
  have "b \<in> bit_blocks scale bits pos bsize \<longleftrightarrow> b \<in> {low * 2 ^ scale..<hi * 2 ^ scale} \<union> bit_blocks scale bits hi bsize" for b
  proof -
    let ?i = "b div 2 ^ scale"
    consider "?i < low" | "low \<le> ?i" "?i < hi" | "hi \<le> ?i" by linarith
    then show ?thesis unfolding Un_iff run bit_blocks_def mem_Collect_eq using assms by cases auto
  qed
  then show "bit_blocks scale bits pos bsize = {low * 2 ^ scale..<hi * 2 ^ scale} \<union> bit_blocks scale bits hi bsize" by blast
  show "{low * 2 ^ scale..<hi * 2 ^ scale} \<inter> bit_blocks scale bits hi bsize = {}"
    unfolding disjoint_iff run bit_blocks_def mem_Collect_eq by auto
qed

lemma unat_scaled:
  assumes "i * 2 ^ scale < 2 ^ 52"
  shows "unat (push_bit scale (of_nat i :: u64)) = i * 2 ^ scale"
proof -
  have "i * 2 ^ scale < (2::nat) ^ 64" using assms by (rule less_le_trans) simp
  then have "i < 2 ^ 64" by (rule le_less_trans[rotated]) simp
  then have "unat (of_nat i :: u64) = i" by (simp add: unat_of_nat)
  then show ?thesis using assms by (subst unat_push_bit_fits) auto
qed

lemma build_loop_enters:
  assumes "balloc_inv s" "kmem_good s" "u \<in> used_blocks s" "u < pos * 2 ^ scale" "pos \<le> bsize"
    and "bit_blocks scale bits pos bsize \<inter> used_blocks s = {}" "bit_blocks scale bits pos bsize \<subseteq> {..<unat (block_end (sbi s))}"
  shows "entered (bit_blocks scale bits pos bsize) s (build_loop bits bsize scale pos s)"
  using assms
proof (induction bits bsize scale pos s rule: build_loop.induct)
  case (1 bits bsize scale pos s)
  let ?B = "bit_blocks scale bits pos bsize"
  define low where "low = find_next True bits bsize pos"
  define hi where "hi = find_next False bits bsize low"
  note L = find_next_props[OF "1.prems"(5), where v = True and bits = bits, folded low_def]
  show ?case
  proof (cases "bsize \<le> low")
    case True
    then have "?B = {}" using L(3) by (auto simp: bit_blocks_def)
    then show ?thesis using True "1.prems"(1,2) entered_none by (simp add: build_loop.simps[of bits bsize scale pos] low_def[symmetric])
  next
    case False
    then have lb: "low \<le> bsize" and bl: "bits low" using L(4) by auto
    note H = find_next_props[OF lb, where v = False and bits = bits, folded hi_def]
    have lh: "low < hi" using H(1,4) bl False by (cases "hi = low") auto
    let ?R = "{low * 2 ^ scale..<hi * 2 ^ scale}"
    note sp = bit_blocks_split[OF L(1) lh H(2), where bits = bits and scale = scale]
    have B: "?B = ?R \<union> bit_blocks scale bits hi bsize" "?R \<inter> bit_blocks scale bits hi bsize = {}"
      using sp L(3) H(3) by auto
    have e: "unat (block_end (sbi s)) < 2 ^ 52" using "1.prems"(1) by (simp add: balloc_inv_def)
    have lt: "low * 2 ^ scale < hi * 2 ^ scale" using lh by simp
    then have "hi * 2 ^ scale - 1 \<in> ?R" unfolding atLeastLessThan_iff by linarith
    then have "hi * 2 ^ scale - 1 < unat (block_end (sbi s))" using B(1) "1.prems"(7) by blast
    then have he: "hi * 2 ^ scale \<le> unat (block_end (sbi s))" by linarith
    let ?lw = "push_bit scale (of_nat low) :: u64" and ?hw = "push_bit scale (of_nat hi) - 1 :: u64"
    let ?n = "hi * 2 ^ scale - low * 2 ^ scale"
    have ul: "unat ?lw = low * 2 ^ scale" using lt he e by (intro unat_scaled) linarith
    have uh: "unat (push_bit scale (of_nat hi) :: u64) = hi * 2 ^ scale" using he e by (intro unat_scaled) linarith
    then have uh1: "unat ?hw = hi * 2 ^ scale - 1" using lt by (subst unat_minus_fits) (auto simp: word_le_nat_alt)
    have up: "u < unat ?lw" using "1.prems"(4) L(1) unfolding ul by (meson le_trans mult_le_mono1 not_le)
    let ?s' = "snd (pmfs_alloc_insert_blocknode_map ?lw ?hw s)"
    have R: "{unat ?lw..<unat ?lw + ?n} = ?R" using lt by (simp add: ul)
    have ent: "entered ?R s ?s'"
      using insert_run_enters(2)[OF "1.prems"(1,2,3) up, of ?n ?hw, unfolded R] lt he ul uh1 B(1) "1.prems"(6) by auto
    have st: "build_loop bits bsize scale pos s = (if bsize \<le> hi then ?s' else build_loop bits bsize scale hi ?s')"
      using False by (simp add: build_loop.simps[of bits bsize scale pos] Let_def low_def[symmetric] hi_def[symmetric])
    show ?thesis
    proof (cases "bsize \<le> hi")
      case True
      then have "bit_blocks scale bits hi bsize = {}" by (auto simp: bit_blocks_def)
      then show ?thesis using ent True B(1) st by simp
    next
      case hb: False
      have "entered (bit_blocks scale bits hi bsize) ?s' (build_loop bits bsize scale hi ?s')"
      proof (rule "1.IH"[OF low_def False hi_def refl hb])
        show "balloc_inv ?s'" "kmem_good ?s'" "u \<in> used_blocks ?s'" using ent "1.prems"(3) by (simp_all add: entered_def)
        show "u < hi * 2 ^ scale" using up lt unfolding ul by linarith
        show "hi \<le> bsize" by (rule H(2))
        show "bit_blocks scale bits hi bsize \<inter> used_blocks ?s' = {}" using ent B "1.prems"(6) by (auto simp: entered_def)
        show "bit_blocks scale bits hi bsize \<subseteq> {..<unat (block_end (sbi ?s'))}" using ent B(1) "1.prems"(7) by (auto simp: entered_def)
      qed
      from entered_trans[OF ent this B(2)] show ?thesis using hb by (simp add: st B(1))
    qed
  qed
qed

text \<open>The blocks the three bitmaps mark; bit 0 of each is never entered.\<close>

definition marked_blocks :: "scan_bitmap \<Rightarrow> nat set" where
  "marked_blocks bm = bit_blocks 0 (bitmap_4k bm) 1 (bitmap_4k_size bm * 8) \<union> bit_blocks 9 (bitmap_2M bm) 1 (bitmap_2M_size bm * 8)
     \<union> bit_blocks 18 (bitmap_1G bm) 1 (bitmap_1G_size bm * 8)"

definition levels_apart :: "scan_bitmap \<Rightarrow> bool" where
  "levels_apart bm \<longleftrightarrow>
     (let A = bit_blocks 0 (bitmap_4k bm) 1 (bitmap_4k_size bm * 8); B = bit_blocks 9 (bitmap_2M bm) 1 (bitmap_2M_size bm * 8);
          C = bit_blocks 18 (bitmap_1G bm) 1 (bitmap_1G_size bm * 8)
      in A \<inter> B = {} \<and> (A \<union> B) \<inter> C = {})"

lemma build_one_level:
  assumes "balloc_inv s" "kmem_good s" "0 \<in> used_blocks s"
    and "bit_blocks scale bits 1 bsize \<inter> used_blocks s = {}" "bit_blocks scale bits 1 bsize \<subseteq> {..<unat (block_end (sbi s))}"
  shows "entered (bit_blocks scale bits 1 bsize) s (raw_pmfs_build_blocknode_map bits bsize scale s)"
proof (cases "bsize = 0")
  case True
  then have "find_next True bits bsize 1 = 0" by (simp add: find_next_def)
  moreover have "bit_blocks scale bits 1 bsize = {}" using True by (simp add: bit_blocks_def)
  ultimately show ?thesis using True entered_none[OF assms(1,2)]
    by (simp add: raw_pmfs_build_blocknode_map_def build_loop.simps[of bits 0 scale "Suc 0"])
next
  case False
  then show ?thesis unfolding raw_pmfs_build_blocknode_map_def
    using assms by (intro build_loop_enters[where u = 0]) auto
qed

lemma build_map_enters:
  assumes inv: "balloc_inv s" "kmem_good s" "0 \<in> used_blocks s" "levels_apart bm"
    and m: "marked_blocks bm \<inter> used_blocks s = {}" "marked_blocks bm \<subseteq> {..<unat (block_end (sbi s))}"
  shows "entered (marked_blocks bm) s (pmfs_build_blocknode_map bm s)"
proof -
  let ?A = "bit_blocks 0 (bitmap_4k bm) 1 (bitmap_4k_size bm * 8)" and ?B = "bit_blocks 9 (bitmap_2M bm) 1 (bitmap_2M_size bm * 8)"
  let ?C = "bit_blocks 18 (bitmap_1G bm) 1 (bitmap_1G_size bm * 8)"
  let ?s1 = "raw_pmfs_build_blocknode_map (bitmap_4k bm) (bitmap_4k_size bm * 8) 0 s"
  let ?s2 = "raw_pmfs_build_blocknode_map (bitmap_2M bm) (bitmap_2M_size bm * 8) 9 ?s1"
  have ap: "?A \<inter> ?B = {}" "(?A \<union> ?B) \<inter> ?C = {}" using inv(4) by (simp_all add: levels_apart_def Let_def)
  have 1: "entered ?A s ?s1" using inv m by (intro build_one_level) (auto simp: marked_blocks_def)
  have 2: "entered ?B ?s1 ?s2"
    using inv m 1 ap(1) by (intro build_one_level) (auto simp: marked_blocks_def entered_def)
  note 12 = entered_trans[OF 1 2 ap(1) finite_bit_blocks finite_bit_blocks]
  have 3: "entered ?C ?s2 (pmfs_build_blocknode_map bm s)" unfolding pmfs_build_blocknode_map_def
    using inv m 12 ap(2) by (intro build_one_level) (auto simp: marked_blocks_def entered_def)
  show ?thesis using entered_trans[OF 12 3 ap(2)] by (simp add: marked_blocks_def)
qed

section \<open>What the crawl marks\<close>

text \<open>A mark is the bitmap (4K, 2M or 1G) and the bit.\<close>

definition mark_add :: "(nat \<times> nat) set \<Rightarrow> scan_bitmap \<Rightarrow> scan_bitmap" where
  "mark_add M bm = bm\<lparr>bitmap_4k := \<lambda>i. bitmap_4k bm i \<or> (0, i) \<in> M, bitmap_2M := \<lambda>i. bitmap_2M bm i \<or> (1, i) \<in> M,
     bitmap_1G := \<lambda>i. bitmap_1G bm i \<or> (2, i) \<in> M\<rparr>"

definition mark_fits :: "(nat \<times> nat) set \<Rightarrow> scan_bitmap \<Rightarrow> bool" where
  "mark_fits M bm \<longleftrightarrow> (\<forall>i. ((0, i) \<in> M \<longrightarrow> i < 8 * bitmap_4k_size bm) \<and> ((1, i) \<in> M \<longrightarrow> i < 8 * bitmap_2M_size bm)
     \<and> ((2, i) \<in> M \<longrightarrow> i < 8 * bitmap_1G_size bm))"

lemma mark_add_simps [simp]:
  "mark_add M (mark_add N bm) = mark_add (N \<union> M) bm" "mark_fits M (mark_add N bm) = mark_fits M bm" "mark_add {} bm = bm"
  "mark_fits (M \<union> N) bm \<longleftrightarrow> mark_fits M bm \<and> mark_fits N bm" "mark_fits {} bm"
  by (auto simp: mark_add_def mark_fits_def)

lemma mark_fits_mono: "mark_fits M bm \<Longrightarrow> N \<subseteq> M \<Longrightarrow> mark_fits N bm"
  by (auto simp: mark_fits_def)

lemma set_bit_marks:
  "mark_fits {(0, i)} bm \<Longrightarrow> set_bit_4k i bm = Some (mark_add {(0, i)} bm)"
  "mark_fits {(1, i)} bm \<Longrightarrow> set_bit_2M i bm = Some (mark_add {(1, i)} bm)"
  "mark_fits {(2, i)} bm \<Longrightarrow> set_bit_1G i bm = Some (mark_add {(2, i)} bm)"
  by (auto simp: set_bit_4k_def set_bit_2M_def set_bit_1G_def mark_fits_def mark_add_def fun_eq_iff fun_upd_def
      intro!: scan_bitmap.equality)

definition block_mark :: "u8 \<Rightarrow> u64 \<Rightarrow> nat \<times> nat" where
  "block_mark bt p = (if bt = 0 then (0, unat p div 2 ^ 12) else if bt = 1 then (1, unat p div 2 ^ 21) else (2, unat p div 2 ^ 30))"

text \<open>The marks of a tree: its nodes and the blocks it points to.\<close>

definition tree_marks :: "nat \<Rightarrow> u8 \<Rightarrow> mem \<Rightarrow> u64 \<Rightarrow> (nat \<times> nat) set" where
  "tree_marks h bt m b = Pair 0 ` tree_meta h m b \<union> block_mark bt ` {p. p \<noteq> 0 \<and> (\<exists>k<512 ^ h. tree_look h m b k = p)}"

lemma tree_ptrs_Suc:
  assumes "b \<noteq> 0"
  shows "{p. p \<noteq> 0 \<and> (\<exists>k<512 ^ Suc h. tree_look (Suc h) m b k = p)}
    = (\<Union>i<512. {p. p \<noteq> 0 \<and> (\<exists>k<512 ^ h. tree_look h m (child m b i) k = p)})" (is "?L = ?R")
proof
  show "?L \<subseteq> ?R"
  proof
    fix p assume "p \<in> ?L"
    then obtain k where k: "k < 512 ^ Suc h" "tree_look (Suc h) m b k = p" "p \<noteq> 0" by blast
    then have i: "k div 512 ^ h < 512" "k mod 512 ^ h < 512 ^ h" by (simp_all add: div_less_iff_less_mult)
    have "tree_look h m (child m b (k div 512 ^ h)) (k mod 512 ^ h) = p" using k(2) assms by simp
    with i k(3) show "p \<in> ?R" by blast
  qed
  show "?R \<subseteq> ?L"
  proof
    fix p assume "p \<in> ?R"
    then obtain i k where k: "i < 512" "k < 512 ^ h" "tree_look h m (child m b i) k = p" "p \<noteq> 0" by blast
    have "Suc i * 512 ^ h \<le> 512 * 512 ^ h" using k(1) by (intro mult_le_mono1) simp
    then have "i * 512 ^ h + k < 512 ^ Suc h" using k(2) unfolding mult_Suc power_Suc by linarith
    moreover have "tree_look (Suc h) m b (i * 512 ^ h + k) = p" using k assms by simp
    ultimately show "p \<in> ?L" using k(4) by blast
  qed
qed

lemma tree_marks_Suc:
  assumes "b \<noteq> 0"
  shows "tree_marks (Suc h) bt m b
    = insert (0, unat b div 4096) (\<Union>i\<in>{i. i < 512 \<and> child m b i \<noteq> 0}. tree_marks h bt m (child m b i))"
proof -
  have "tree_marks h bt m 0 = {}" by (cases h) (auto simp: tree_marks_def)
  then have "(\<Union>i<512. tree_marks h bt m (child m b i)) = (\<Union>i\<in>{i. i < 512 \<and> child m b i \<noteq> 0}. tree_marks h bt m (child m b i))"
    by (auto split: if_splits)
  moreover have "tree_marks (Suc h) bt m b = insert (0, unat b div 4096) (\<Union>i<512. tree_marks h bt m (child m b i))"
    unfolding tree_marks_def tree_ptrs_Suc[OF assms] image_UN tree_meta.simps using assms by auto
  ultimately show ?thesis by simp
qed

lemma for_loop_marks:
  assumes "\<And>i bm. i \<in> set is \<Longrightarrow> mark_fits (S i) bm \<Longrightarrow> body i bm = Some (mark_add (S i) bm, False)"
    and "mark_fits (\<Union>i\<in>set is. S i) bm"
  shows "for_loop body is bm = Some (mark_add (\<Union>i\<in>set is. S i) bm)"
  using assms by (induction "is" arbitrary: bm) simp_all

lemma crawl_marks:
  assumes "b \<noteq> 0" "mark_fits (tree_marks h bt m b) bm"
  shows "pmfs_inode_crawl_recursive h bt m b bm = Some (mark_add (tree_marks h bt m b) bm)"
  using assms
proof (induction h arbitrary: b bm)
  case 0
  have "tree_marks 0 bt m b = {block_mark bt b}" using 0(1) by (auto simp: tree_marks_def)
  then show ?case using 0(2) set_bit_marks[of "unat b div 2 ^ 12" bm] set_bit_marks[of "unat b div 2 ^ 21" bm]
      set_bit_marks[of "unat b div 2 ^ 30" bm] by (auto simp: block_mark_def)
next
  case (Suc h)
  let ?S = "\<lambda>i. if child m b i = 0 then {} else tree_marks h bt m (child m b i)"
  let ?body = "\<lambda>i bm. let p = rd64 m (unat b + 8 * i) in if p = 0 then Some (bm, False)
      else do { b' \<leftarrow> pmfs_inode_crawl_recursive h bt m p bm; Some (b', False) }"
  have S: "(\<Union>i\<in>set [0..<512]. ?S i) = (\<Union>i\<in>{i. i < 512 \<and> child m b i \<noteq> 0}. tree_marks h bt m (child m b i))" by auto
  have all: "tree_marks (Suc h) bt m b = {(0, unat b div 2 ^ 12)} \<union> (\<Union>i\<in>set [0..<512]. ?S i)"
    unfolding S tree_marks_Suc[OF Suc.prems(1)] by simp
  have f: "mark_fits {(0, unat b div 2 ^ 12)} bm" "mark_fits (\<Union>i\<in>set [0..<512]. ?S i) bm"
    by (rule mark_fits_mono[OF Suc.prems(2)], unfold all, blast)+
  have step: "?body i bm = Some (mark_add (?S i) bm, False)" if "mark_fits (?S i) bm" for i bm
    using that Suc.IH[of "child m b i" bm] by (simp add: child_def[symmetric] Let_def split: if_splits)
  have f2: "mark_fits (\<Union>i\<in>set [0..<512]. ?S i) (mark_add {(0, unat b div 2 ^ 12)} bm)" using f(2) by (simp only: mark_add_simps)
  have "for_loop ?body [0..<512] (mark_add {(0, unat b div 2 ^ 12)} bm)
    = Some (mark_add (\<Union>i\<in>set [0..<512]. ?S i) (mark_add {(0, unat b div 2 ^ 12)} bm))"
    by (rule for_loop_marks[OF step f2])
  moreover have "unat b \<noteq> 0" using Suc.prems(1) by (simp add: unat_eq_0)
  ultimately show ?case unfolding all
    by (simp only: pmfs_inode_crawl_recursive.simps Let_def set_bit_marks(1)[OF f(1)] bind.bind_lunit if_False mark_add_simps)
qed

text \<open>The marks of an inode: the nodes and the blocks of its block map.\<close>

definition inode_marks :: "nat \<Rightarrow> mem \<Rightarrow> (nat \<times> nat) set" where
  "inode_marks pi m = Pair 0 ` file_meta pi m
     \<union> block_mark (pi_blk_type (rd_inode m pi)) ` {p. p \<noteq> 0 \<and> (\<exists>k. file_look pi m k = p)}"

lemma inode_marks_tree:
  "inode_marks pi m = (let i = rd_inode m pi in tree_marks (unat (pi_height i)) (pi_blk_type i) m (pi_root i))"
proof -
  have "{p. p \<noteq> 0 \<and> (\<exists>k. file_look pi m k = p)} = {p. p \<noteq> 0 \<and> (\<exists>k<512 ^ unat (pi_height (rd_inode m pi)).
      tree_look (unat (pi_height (rd_inode m pi))) m (pi_root (rd_inode m pi)) k = p)}"
    by (auto simp: file_look_def Let_def split: if_splits)
  then show ?thesis by (simp add: inode_marks_def tree_marks_def file_meta_def Let_def)
qed

lemma inode_crawl_marks:
  assumes "mark_fits (inode_marks pi m) bm"
  shows "pmfs_inode_crawl m pi bm = Some (mark_add (inode_marks pi m) bm)"
proof (cases "pi_root (rd_inode m pi) = 0")
  case True
  moreover have "tree_marks h bt m 0 = {}" for h bt by (cases h) (auto simp: tree_marks_def)
  ultimately show ?thesis by (simp add: pmfs_inode_crawl_def inode_marks_tree Let_def)
next
  case False
  then show ?thesis using assms crawl_marks by (simp add: pmfs_inode_crawl_def inode_marks_tree Let_def)
qed

section \<open>The crawl over the inode table\<close>

text \<open>The marks and the counts of one block of the table.\<close>

definition table_block_inodes :: "u8 \<Rightarrow> mem \<Rightarrow> u64 \<Rightarrow> nat set" where
  "table_block_inodes bt m p = {pi. \<exists>i<unat (INODES_PER_BLOCK bt). pi = unat p + 128 * i \<and> \<not> inode_free m pi}"

definition table_block_marks :: "u8 \<Rightarrow> mem \<Rightarrow> u64 \<Rightarrow> (nat \<times> nat) set" where
  "table_block_marks bt m p = insert (if bt = 1 then (1, unat p div 2 ^ 21) else (0, unat p div 2 ^ 12))
     (\<Union>pi\<in>table_block_inodes bt m p. inode_marks pi m)"

definition table_marks :: "nat \<Rightarrow> u8 \<Rightarrow> mem \<Rightarrow> u64 \<Rightarrow> (nat \<times> nat) set" where
  "table_marks h bt m b = Pair 0 ` tree_meta h m b
     \<union> (\<Union>p\<in>{p. p \<noteq> 0 \<and> (\<exists>k<512 ^ h. tree_look h m b k = p)}. table_block_marks bt m p)"

definition table_used :: "nat \<Rightarrow> u8 \<Rightarrow> mem \<Rightarrow> u64 \<Rightarrow> nat" where
  "table_used h bt m b = (\<Sum>k<512 ^ h. let p = tree_look h m b k in if p = 0 then 0 else card (table_block_inodes bt m p))"

definition table_blocks :: "nat \<Rightarrow> mem \<Rightarrow> u64 \<Rightarrow> nat" where
  "table_blocks h m b = (\<Sum>k<512 ^ h. if tree_look h m b k = 0 then 0 else 1)"

lemma tree_sum_Suc:
  fixes f :: "u64 \<Rightarrow> nat"
  assumes "b \<noteq> 0"
  shows "(\<Sum>k<512 ^ Suc h. f (tree_look (Suc h) m b k)) = (\<Sum>i<512. \<Sum>k<512 ^ h. f (tree_look h m (child m b i) k))"
proof -
  have "(\<Sum>k<512 ^ Suc h. f (tree_look (Suc h) m b k)) = (\<Sum>i<512. \<Sum>k\<in>{i * 512 ^ h..<i * 512 ^ h + 512 ^ h}. f (tree_look (Suc h) m b k))"
    using sum.nat_group[of "\<lambda>k. f (tree_look (Suc h) m b k)" "512 ^ h" 512] by simp
  also have "\<dots> = (\<Sum>i<512. \<Sum>k<512 ^ h. f (tree_look h m (child m b i) k))"
  proof (rule sum.cong[OF refl])
    fix i :: nat
    show "(\<Sum>k\<in>{i * 512 ^ h..<i * 512 ^ h + 512 ^ h}. f (tree_look (Suc h) m b k)) = (\<Sum>k<512 ^ h. f (tree_look h m (child m b i) k))"
      using sum.shift_bounds_nat_ivl[of "\<lambda>k. f (tree_look (Suc h) m b k)" 0 "i * 512 ^ h" "512 ^ h"] assms
      by (simp add: add.commute atLeast0LessThan)
  qed
  finally show ?thesis .
qed

lemma for_loop_crawl:
  fixes c u :: u32
  assumes "\<And>i c u bm. i \<in> set is \<Longrightarrow> mark_fits (S i) bm
      \<Longrightarrow> body i (c, u, bm) = Some ((c + of_nat (C i), u + of_nat (U i), mark_add (S i) bm), False)"
    and "mark_fits (\<Union>i\<in>set is. S i) bm"
  shows "for_loop body is (c, u, bm)
    = Some (c + of_nat (\<Sum>i\<leftarrow>is. C i), u + of_nat (\<Sum>i\<leftarrow>is. U i), mark_add (\<Union>i\<in>set is. S i) bm)"
  using assms by (induction "is" arbitrary: c u bm) (simp_all add: add.assoc)

lemma sum_list_upt: "(\<Sum>i\<leftarrow>[0..<n]. f i) = (\<Sum>i<n. f i :: nat)"
  by (simp add: interv_sum_list_conv_sum_set_nat atLeast0LessThan)

lemma table_block_count: "card (table_block_inodes bt m p) = (\<Sum>i<unat (INODES_PER_BLOCK bt). if inode_free m (unat p + 128 * i) then 0 else 1)"
proof -
  let ?I = "{i. i < unat (INODES_PER_BLOCK bt) \<and> \<not> inode_free m (unat p + 128 * i)}"
  have "table_block_inodes bt m p = (\<lambda>i. unat p + 128 * i) ` ?I" by (auto simp: table_block_inodes_def)
  moreover have "inj_on (\<lambda>i. unat p + 128 * i) ?I" by (simp add: inj_on_def)
  ultimately have "card (table_block_inodes bt m p) = card ?I" by (simp add: card_image)
  also have "\<dots> = (\<Sum>i\<in>?I. 1)" by simp
  also have "\<dots> = (\<Sum>i<unat (INODES_PER_BLOCK bt). if inode_free m (unat p + 128 * i) then 0 else 1)"
    by (rule sum.mono_neutral_cong_left) auto
  finally show ?thesis .
qed

lemma table_leaf_crawl:
  fixes c u :: u32
  assumes "p \<noteq> 0" "mark_fits (table_block_marks bt m p) bm"
  shows "pmfs_inode_table_crawl_recursive 0 bt m p (c, u, bm)
    = Some (c + INODES_PER_BLOCK bt, u + of_nat (card (table_block_inodes bt m p)), mark_add (table_block_marks bt m p) bm)"
proof -
  let ?n = "unat (INODES_PER_BLOCK bt)" and ?a = "\<lambda>i. unat p + 128 * i"
  let ?l = "if bt = 1 then (1, unat p div 2 ^ 21) else (0, unat p div 2 ^ 12)"
  let ?S = "\<lambda>i. if inode_free m (?a i) then {} else inode_marks (?a i) m"
  have "table_block_inodes bt m p = ?a ` {i. i < ?n \<and> \<not> inode_free m (?a i)}" by (auto simp: table_block_inodes_def)
  then have S: "(\<Union>pi\<in>table_block_inodes bt m p. inode_marks pi m) = (\<Union>i\<in>set [0..<?n]. ?S i)"
    by (auto split: if_splits)
  have all: "table_block_marks bt m p = {?l} \<union> (\<Union>i\<in>set [0..<?n]. ?S i)" unfolding table_block_marks_def S by simp
  have f: "mark_fits {?l} bm" "mark_fits (\<Union>i\<in>set [0..<?n]. ?S i) bm"
    by (rule mark_fits_mono[OF assms(2)], unfold all, blast)+
  then have f2: "mark_fits (\<Union>i\<in>set [0..<?n]. ?S i) (mark_add {?l} bm)" by (simp only: mark_add_simps)
  let ?body = "\<lambda>i st. do { st' \<leftarrow> crawl_inode m (?a i) st; Some (st', False) }"
  have step: "?body i (c, u, bm) = Some ((c + of_nat 0, u + of_nat (if inode_free m (?a i) then 0 else 1), mark_add (?S i) bm), False)"
    if "mark_fits (?S i) bm" for i bm and c u :: u32
    using that inode_crawl_marks by (simp add: crawl_inode_def split: if_splits)
  have "for_loop ?body [0..<?n] (c + INODES_PER_BLOCK bt, u, mark_add {?l} bm)
    = Some (c + INODES_PER_BLOCK bt + of_nat (\<Sum>i\<leftarrow>[0..<?n]. 0), u + of_nat (\<Sum>i\<leftarrow>[0..<?n]. if inode_free m (?a i) then 0 else 1),
        mark_add (\<Union>i\<in>set [0..<?n]. ?S i) (mark_add {?l} bm))"
    by (rule for_loop_crawl[OF step f2])
  then have loop: "for_loop ?body [0..<?n] (c + INODES_PER_BLOCK bt, u, mark_add {?l} bm)
    = Some (c + INODES_PER_BLOCK bt, u + of_nat (card (table_block_inodes bt m p)), mark_add (table_block_marks bt m p) bm)"
    unfolding sum_list_upt table_block_count all by simp
  have "(if bt = PMFS_BLOCK_TYPE_2M then set_bit_2M (unat p div 2 ^ 21) bm else set_bit_4k (unat p div 2 ^ 12) bm) = Some (mark_add {?l} bm)"
    using f(1) set_bit_marks(1)[of "unat p div 2 ^ 12" bm] set_bit_marks(2)[of "unat p div 2 ^ 21" bm] by auto
  moreover have "unat p \<noteq> 0" using assms(1) by (simp add: unat_eq_0)
  ultimately show ?thesis
    by (simp only: pmfs_inode_table_crawl_recursive.simps Let_def prod.case bind.bind_lunit if_False loop)
qed

lemma table_marks_Suc:
  assumes "b \<noteq> 0"
  shows "table_marks (Suc h) bt m b
    = {(0, unat b div 2 ^ 12)} \<union> (\<Union>i\<in>set [0..<512]. if child m b i = 0 then {} else table_marks h bt m (child m b i))"
proof -
  have "table_marks h bt m 0 = {}" by (cases h) (auto simp: table_marks_def)
  then have "(\<Union>i\<in>set [0..<512]. if child m b i = 0 then {} else table_marks h bt m (child m b i)) = (\<Union>i<512. table_marks h bt m (child m b i))"
    by (auto split: if_splits)
  moreover have "table_marks (Suc h) bt m b = {(0, unat b div 2 ^ 12)} \<union> (\<Union>i<512. table_marks h bt m (child m b i))"
    unfolding table_marks_def tree_ptrs_Suc[OF assms] tree_meta.simps using assms by auto
  ultimately show ?thesis by simp
qed

lemma table_crawl:
  fixes c u :: u32
  assumes "b \<noteq> 0" "mark_fits (table_marks h bt m b) bm"
  shows "pmfs_inode_table_crawl_recursive h bt m b (c, u, bm)
    = Some (c + of_nat (table_blocks h m b) * INODES_PER_BLOCK bt, u + of_nat (table_used h bt m b), mark_add (table_marks h bt m b) bm)"
  using assms
proof (induction h arbitrary: b c u bm)
  case 0
  have p: "{p. p \<noteq> 0 \<and> (\<exists>k<512 ^ 0. tree_look 0 m b k = p)} = {b}" using 0(1) by auto
  have "table_marks 0 bt m b = table_block_marks bt m b" unfolding table_marks_def p by simp
  then show ?case using table_leaf_crawl[OF 0(1), of bt m bm c u] 0 by (simp add: table_blocks_def table_used_def)
next
  case (Suc h)
  let ?S = "\<lambda>i. if child m b i = 0 then {} else table_marks h bt m (child m b i)"
  let ?body = "\<lambda>i st. let p = rd64 m (unat b + 8 * i) in if p = 0 then Some (st, False)
      else do { st' \<leftarrow> pmfs_inode_table_crawl_recursive h bt m p st; Some (st', False) }"
  let ?C = "\<lambda>i. table_blocks h m (child m b i)" and ?U = "\<lambda>i. table_used h bt m (child m b i)"
  note all = table_marks_Suc[OF Suc.prems(1), of h bt m]
  have f: "mark_fits {(0, unat b div 2 ^ 12)} bm" "mark_fits (\<Union>i\<in>set [0..<512]. ?S i) bm"
    by (rule mark_fits_mono[OF Suc.prems(2)], unfold all, blast)+
  then have f2: "mark_fits (\<Union>i\<in>set [0..<512]. ?S i) (mark_add {(0, unat b div 2 ^ 12)} bm)" by (simp only: mark_add_simps)
  have z: "table_blocks h m 0 = 0" "table_used h bt m 0 = 0" by (simp_all add: table_blocks_def table_used_def)
  have step: "?body i (c, u, bm) = Some ((c + of_nat (?C i * unat (INODES_PER_BLOCK bt)), u + of_nat (?U i), mark_add (?S i) bm), False)"
    if "mark_fits (?S i) bm" for i bm and c u :: u32
    using that Suc.IH[of "child m b i" bm c u] z by (simp add: child_def[symmetric] Let_def split: if_splits)
  have "for_loop ?body [0..<512] (c, u, mark_add {(0, unat b div 2 ^ 12)} bm)
    = Some (c + of_nat (\<Sum>i\<leftarrow>[0..<512]. ?C i * unat (INODES_PER_BLOCK bt)), u + of_nat (\<Sum>i\<leftarrow>[0..<512]. ?U i),
        mark_add (\<Union>i\<in>set [0..<512]. ?S i) (mark_add {(0, unat b div 2 ^ 12)} bm))"
    by (rule for_loop_crawl[OF step f2])
  moreover have "(\<Sum>i<512. ?C i) = table_blocks (Suc h) m b" "(\<Sum>i<512. ?U i) = table_used (Suc h) bt m b"
    unfolding table_blocks_def table_used_def Let_def
    using tree_sum_Suc[OF Suc.prems(1), of "\<lambda>p. if p = 0 then 0 else 1" h m]
      tree_sum_Suc[OF Suc.prems(1), of "\<lambda>p. if p = 0 then 0 else card (table_block_inodes bt m p)" h m] by (simp_all only:)
  moreover have "(\<Sum>i<512. ?C i * unat (INODES_PER_BLOCK bt)) = (\<Sum>i<512. ?C i) * unat (INODES_PER_BLOCK bt)"
    by (rule sum_distrib_right[symmetric])
  moreover have "of_nat (n * unat (INODES_PER_BLOCK bt)) = of_nat n * INODES_PER_BLOCK bt" for n by simp
  ultimately have loop: "for_loop ?body [0..<512] (c, u, mark_add {(0, unat b div 2 ^ 12)} bm)
    = Some (c + of_nat (table_blocks (Suc h) m b) * INODES_PER_BLOCK bt, u + of_nat (table_used (Suc h) bt m b), mark_add (table_marks (Suc h) bt m b) bm)"
    unfolding sum_list_upt all mark_add_simps by metis
  have "unat b \<noteq> 0" using Suc.prems(1) by (simp add: unat_eq_0)
  then show ?case
    by (simp only: pmfs_inode_table_crawl_recursive.simps Let_def prod.case set_bit_marks(1)[OF f(1)] bind.bind_lunit if_False loop[unfolded Let_def])
qed

text \<open>The 4K blocks that a set of marks stands for.\<close>

definition mark_blocks :: "(nat \<times> nat) set \<Rightarrow> nat set" where
  "mark_blocks M = {b. b \<noteq> 0 \<and> ((0, b) \<in> M \<or> b div 512 \<noteq> 0 \<and> (1, b div 512) \<in> M \<or> b div 2 ^ 18 \<noteq> 0 \<and> (2, b div 2 ^ 18) \<in> M)}"

definition marks_apart :: "(nat \<times> nat) set \<Rightarrow> bool" where
  "marks_apart M \<longleftrightarrow> (\<forall>b. ((0, b) \<in> M \<longrightarrow> (1, b div 512) \<notin> M \<and> (2, b div 2 ^ 18) \<notin> M) \<and> ((1, b div 512) \<in> M \<longrightarrow> (2, b div 2 ^ 18) \<notin> M))"

definition empty_bitmap :: "scan_bitmap \<Rightarrow> bool" where
  "empty_bitmap bm \<longleftrightarrow> bitmap_4k bm = (\<lambda>_. False) \<and> bitmap_2M bm = (\<lambda>_. False) \<and> bitmap_1G bm = (\<lambda>_. False)"

lemma marked_from_empty:
  assumes "empty_bitmap bm" "mark_fits M bm"
  shows "marked_blocks (mark_add M bm) = mark_blocks M" "marks_apart M \<Longrightarrow> levels_apart (mark_add M bm)"
proof -
  let ?A = "bit_blocks 0 (bitmap_4k (mark_add M bm)) 1 (bitmap_4k_size (mark_add M bm) * 8)"
  let ?B = "bit_blocks 9 (bitmap_2M (mark_add M bm)) 1 (bitmap_2M_size (mark_add M bm) * 8)"
  let ?C = "bit_blocks 18 (bitmap_1G (mark_add M bm)) 1 (bitmap_1G_size (mark_add M bm) * 8)"
  have A: "b \<in> ?A \<longleftrightarrow> b \<noteq> 0 \<and> (0, b) \<in> M" for b
    using assms by (auto simp: bit_blocks_def mark_add_def empty_bitmap_def mark_fits_def)
  have B: "b \<in> ?B \<longleftrightarrow> b div 512 \<noteq> 0 \<and> (1, b div 512) \<in> M" for b
    using assms by (auto simp: bit_blocks_def mark_add_def empty_bitmap_def mark_fits_def)
  have C: "b \<in> ?C \<longleftrightarrow> b div 2 ^ 18 \<noteq> 0 \<and> (2, b div 2 ^ 18) \<in> M" for b
    using assms by (auto simp: bit_blocks_def mark_add_def empty_bitmap_def mark_fits_def)
  show "marked_blocks (mark_add M bm) = mark_blocks M"
  proof (rule set_eqI)
    fix b
    have "b \<in> marked_blocks (mark_add M bm) \<longleftrightarrow> b \<noteq> 0 \<and> (0, b) \<in> M \<or> b div 512 \<noteq> 0 \<and> (1, b div 512) \<in> M \<or> b div 2 ^ 18 \<noteq> 0 \<and> (2, b div 2 ^ 18) \<in> M"
      unfolding marked_blocks_def Un_iff A B C by blast
    then show "b \<in> marked_blocks (mark_add M bm) \<longleftrightarrow> b \<in> mark_blocks M"
      by (cases "b = 0") (simp_all add: mark_blocks_def)
  qed
  show "levels_apart (mark_add M bm)" if "marks_apart M"
    unfolding levels_apart_def Let_def disjoint_iff Un_iff A B C using that unfolding marks_apart_def by blast
qed

section \<open>Saving and restoring the runs\<close>

text \<open>Where run number \<open>i\<close> is stored: 256 runs of 16 bytes in each block of the inode.\<close>

definition run_addr :: "nat \<Rightarrow> mem \<Rightarrow> nat \<Rightarrow> nat" where
  "run_addr pi m i = unat (file_look pi m (i div 256)) + 16 * (i mod 256)"

text \<open>The blocks of the inode for \<open>n\<close> runs are mapped, aligned, apart from each other and from the tree.\<close>

definition run_store :: "nat \<Rightarrow> nat \<Rightarrow> mem \<Rightarrow> bool" where
  "run_store pi n m \<longleftrightarrow> (let i = rd_inode m pi in
     tree_wf (unat (pi_height i)) m (pi_root i) \<and> (pi_root i = 0 \<longrightarrow> pi_height i = 0) \<and> pi mod 4096 \<le> 3968
     \<and> n \<le> 2 ^ 32
     \<and> (\<forall>j. 256 * j < n \<longrightarrow> (let p = file_look pi m j in
          p \<noteq> 0 \<and> 4096 dvd unat p \<and> unat p div 4096 \<notin> insert (pi div 4096) (file_meta pi m)
          \<and> (\<forall>j'. 256 * j' < n \<longrightarrow> file_look pi m j' = p \<longrightarrow> j' = j))))"

lemma run_storeD:
  assumes "run_store pi n m" "256 * j < n"
  shows "file_look pi m j \<noteq> 0" "4096 dvd unat (file_look pi m j)"
    "unat (file_look pi m j) div 4096 \<noteq> pi div 4096" "unat (file_look pi m j) div 4096 \<notin> file_meta pi m"
    "256 * j' < n \<Longrightarrow> unat (file_look pi m j') div 4096 = unat (file_look pi m j) div 4096 \<Longrightarrow> j' = j"
proof -
  have a: "file_look pi m j \<noteq> 0 \<and> 4096 dvd unat (file_look pi m j) \<and> unat (file_look pi m j) div 4096 \<notin> insert (pi div 4096) (file_meta pi m)
      \<and> (\<forall>j'. 256 * j' < n \<longrightarrow> file_look pi m j' = file_look pi m j \<longrightarrow> j' = j)" if "256 * j < n" for j
    using assms(1) that by (auto simp: run_store_def Let_def)
  show "file_look pi m j \<noteq> 0" "4096 dvd unat (file_look pi m j)"
    "unat (file_look pi m j) div 4096 \<noteq> pi div 4096" "unat (file_look pi m j) div 4096 \<notin> file_meta pi m"
    using a[OF assms(2)] by auto
  show "j' = j" if "256 * j' < n" "unat (file_look pi m j') div 4096 = unat (file_look pi m j) div 4096"
  proof -
    have "unat (file_look pi m j') = unat (file_look pi m j)"
      using a[OF that(1)] a[OF assms(2)] that(2) by (metis dvd_div_mult_self)
    then have "file_look pi m j' = file_look pi m j" by (simp add: word_unat_eq_iff)
    then show ?thesis using a[OF assms(2)] that(1) by blast
  qed
qed

lemma run_addr_page:
  assumes "run_store pi n m" "i < n" "run_addr pi m i \<le> x" "x < run_addr pi m i + 16"
  shows "x div 4096 = unat (file_look pi m (i div 256)) div 4096"
proof -
  have "256 * (i div 256) < n" using assms(2) by (metis le_less_trans times_div_less_eq_dividend)
  from run_storeD(2)[OF assms(1) this] obtain q where q: "unat (file_look pi m (i div 256)) = 4096 * q" by (rule dvdE)
  have "i mod 256 < 256" by simp
  then have "4096 * q \<le> x" "x < 4096 * q + 4096" using assms(3,4) unfolding run_addr_def q by linarith+
  then have "x div 4096 = q" by (intro div_nat_eqI) (simp_all add: mult.commute)
  then show ?thesis by (simp add: q)
qed

lemma run_addr_apart:
  assumes "run_store pi n m" "i < n" "j < n" "i \<noteq> j"
  shows "run_addr pi m i + 16 \<le> run_addr pi m j \<or> run_addr pi m j + 16 \<le> run_addr pi m i"
proof (cases "i div 256 = j div 256")
  case True
  then have "i mod 256 \<noteq> j mod 256" using assms(4) by (metis mult_div_mod_eq)
  then have "i mod 256 + 1 \<le> j mod 256 \<or> j mod 256 + 1 \<le> i mod 256" by linarith
  then show ?thesis unfolding run_addr_def True by linarith
next
  case False
  show ?thesis
  proof (rule ccontr)
    let ?x = "max (run_addr pi m i) (run_addr pi m j)"
    assume "\<not> ?thesis"
    then have "?x div 4096 = unat (file_look pi m (i div 256)) div 4096" "?x div 4096 = unat (file_look pi m (j div 256)) div 4096"
      using run_addr_page[OF assms(1,2), of ?x] run_addr_page[OF assms(1,3), of ?x] by (auto simp: max_def split: if_splits)
    moreover have "256 * (i div 256) < n" "256 * (j div 256) < n"
      using assms(2,3) by (metis le_less_trans times_div_less_eq_dividend)+
    ultimately show False using run_storeD(5)[OF assms(1)] False by metis
  qed
qed

lemma run_store_frame:
  assumes st: "run_store pi n m"
    and ch: "\<And>x. m' x \<noteq> m x \<Longrightarrow> \<exists>i<n. run_addr pi m i \<le> x \<and> x < run_addr pi m i + 16"
  shows "file_look pi m' = file_look pi m" "run_store pi n m'"
proof -
  let ?i = "rd_inode m pi" let ?h = "unat (pi_height ?i)"
  have pg: "\<exists>j. 256 * j < n \<and> x div 4096 = unat (file_look pi m j) div 4096" if x: "m' x \<noteq> m x" for x
  proof -
    obtain i where i: "i < n" "run_addr pi m i \<le> x" "x < run_addr pi m i + 16" using ch[OF x] by blast
    have "256 * (i div 256) < n" using i(1) by (metis le_less_trans times_div_less_eq_dividend)
    then show ?thesis using run_addr_page[OF st i] by blast
  qed
  have p: "tree_wf ?h m (pi_root ?i)" "pi_root ?i = 0 \<longrightarrow> pi_height ?i = 0" "pi mod 4096 \<le> 3968" "n \<le> 2 ^ 32"
    using st by (simp_all add: run_store_def Let_def)
  have "m' x = m x" if "pi + 2 \<le> x" "x < pi + 16" for x
  proof (rule ccontr)
    assume "m' x \<noteq> m x"
    then obtain j where j: "256 * j < n" "x div 4096 = unat (file_look pi m j) div 4096" using pg by blast
    have "x div 4096 = pi div 4096" by (rule inode_page_le[OF p(3)]) (use that in auto)
    then show False using run_storeD(3)[OF st j(1)] j(2) by simp
  qed
  note f = inode_map_fields[of pi m' m, OF this]
  have "m' x = m x" if "x div 4096 \<in> tree_meta ?h m (pi_root ?i)" for x
  proof (rule ccontr)
    assume "m' x \<noteq> m x"
    then obtain j where j: "256 * j < n" "x div 4096 = unat (file_look pi m j) div 4096" using pg by blast
    then show False using run_storeD(4)[OF st j(1)] that by (simp add: file_meta_def Let_def)
  qed
  from tree_cong[OF p(1) this]
  have t: "tree_meta ?h m' (pi_root ?i) = tree_meta ?h m (pi_root ?i)" "tree_wf ?h m' (pi_root ?i)"
    "\<forall>k<512 ^ ?h. tree_look ?h m' (pi_root ?i) k = tree_look ?h m (pi_root ?i) k" by auto
  show l: "file_look pi m' = file_look pi m" using t(3) by (auto simp: file_look_def Let_def f fun_eq_iff)
  have "file_meta pi m' = file_meta pi m" using t(1) by (simp add: file_meta_def Let_def f)
  then show "run_store pi n m'" using st t(2) l by (simp add: run_store_def Let_def f)
qed

lemma run_addr_frame: "file_look pi m' = file_look pi m \<Longrightarrow> run_addr pi m' = run_addr pi m"
  by (auto simp: run_addr_def fun_eq_iff)

lemma find_run_block:
  assumes st: "run_store pi n (mem s)" and j: "256 * j < n"
  shows "raw_pmfs_find_data_block s pi (of_nat j) = Some (file_look pi (mem s) j)"
proof -
  let ?i = "rd_inode (mem s) pi" let ?h = "unat (pi_height ?i)"
  have "n \<le> 2 ^ 32" "?h = 0 \<or> pi_root ?i \<noteq> 0" using st by (auto simp: run_store_def Let_def)
  then have u: "unat (of_nat j :: u64) = j" and h: "?h = 0 \<or> pi_root ?i \<noteq> 0" using j by (auto simp: unat_of_nat)
  have "j < 512 ^ ?h" using run_storeD(1)[OF st j] by (auto simp: file_look_def Let_def split: if_splits)
  then show ?thesis
    using find_data_block_look[OF _ h, of "of_nat j" s] by (simp add: u raw_pmfs_find_data_block_def Let_def file_look_def)
qed

lemma run_block_index: "k < n \<Longrightarrow> 256 * (k div 256) < (n :: nat)"
  by (metis le_less_trans times_div_less_eq_dividend)

lemma save_loop_stores:
  assumes "run_store pi n (mem s)" "k + length runs \<le> n" "k mod 256 \<noteq> 0 \<longrightarrow> p = unat (file_look pi (mem s) (k div 256))"
  shows "\<exists>m'. save_loop pi k p runs s = Some (s\<lparr>mem := m'\<rparr>)
    \<and> (\<forall>i<length runs. rd_lowhigh m' (run_addr pi (mem s) (k + i)) = runs ! i)
    \<and> (\<forall>x. m' x \<noteq> mem s x \<longrightarrow> (\<exists>i. k \<le> i \<and> i < k + length runs \<and> run_addr pi (mem s) i \<le> x \<and> x < run_addr pi (mem s) i + 16))"
  using assms
proof (induction runs arbitrary: k p s)
  case Nil
  then show ?case by (intro exI[of _ "mem s"]) simp
next
  case (Cons r runs)
  let ?m = "mem s" and ?q = "unat (file_look pi (mem s) (k div 256))" and ?a = "run_addr pi (mem s) k"
  let ?m1 = "wr64 (?a + 8) (block_high r) (wr64 ?a (block_low r) ?m)"
  note st = Cons.prems(1)
  have kn: "k < n" using Cons.prems(2) by simp
  note kb = run_block_index[OF kn]
  have ch1: "?a \<le> x \<and> x < ?a + 16" if "?m1 x \<noteq> ?m x" for x
    using that wrw_changed[of "?a + 8" "block_high r" "wr64 ?a (block_low r) ?m" x] wrw_changed[of ?a "block_low r" ?m x]
    by (cases "wr64 ?a (block_low r) ?m x = ?m x") auto
  note fr = run_store_frame[OF st, of ?m1]
  have l1: "file_look pi ?m1 = file_look pi ?m" "run_store pi n ?m1" using fr ch1 kn by blast+
  have q: "?q \<noteq> 0" using run_storeD(1)[OF st kb] by (simp add: unat_eq_0)
  have step: "save_loop pi k p (r # runs) s = save_loop pi (Suc k) ?q runs (s\<lparr>mem := ?m1\<rparr>)"
    using q Cons.prems(3) find_run_block[OF st kb] by (auto simp: Let_def run_addr_def add.assoc)
  have nxt: "Suc k mod 256 \<noteq> 0 \<longrightarrow> ?q = unat (file_look pi (mem (s\<lparr>mem := ?m1\<rparr>)) (Suc k div 256))"
    by (simp add: l1(1) div_Suc mod_Suc)
  obtain m' where m': "save_loop pi (Suc k) ?q runs (s\<lparr>mem := ?m1\<rparr>) = Some (s\<lparr>mem := m'\<rparr>)"
    "\<forall>i<length runs. rd_lowhigh m' (run_addr pi ?m (Suc k + i)) = runs ! i"
    "\<forall>x. m' x \<noteq> ?m1 x \<longrightarrow> (\<exists>i. Suc k \<le> i \<and> i < Suc k + length runs \<and> run_addr pi ?m i \<le> x \<and> x < run_addr pi ?m i + 16)"
    using Cons.IH[of "s\<lparr>mem := ?m1\<rparr>" "Suc k" ?q, OF _ _ nxt] l1(2) Cons.prems(2) run_addr_frame[OF l1(1)] by auto
  have keep: "m' x = ?m1 x" if x: "?a \<le> x" "x < ?a + 16" for x
  proof (rule ccontr)
    assume "m' x \<noteq> ?m1 x"
    then obtain i where i: "Suc k \<le> i" "i < Suc k + length runs" "run_addr pi ?m i \<le> x" "x < run_addr pi ?m i + 16"
      using m'(3) by blast
    then show False using run_addr_apart[OF st kn, of i] Cons.prems(2) x by auto
  qed
  have "rd_lowhigh m' ?a = rd_lowhigh ?m1 ?a" unfolding rd_lowhigh_def
    using rdw_cong[of ?a m' ?m1, where 'a=64] rdw_cong[of "?a + 8" m' ?m1, where 'a=64] keep by simp
  also have "\<dots> = r" by (simp add: rd_lowhigh_def)
  finally have "rd_lowhigh m' (run_addr pi ?m (k + i)) = (r # runs) ! i" if "i < length (r # runs)" for i
    using m'(2) that by (cases i) auto
  moreover have "\<exists>i. k \<le> i \<and> i < k + length (r # runs) \<and> run_addr pi ?m i \<le> x \<and> x < run_addr pi ?m i + 16" if "m' x \<noteq> ?m x" for x
  proof (cases "m' x = ?m1 x")
    case True
    then have "?a \<le> x \<and> x < ?a + 16" using ch1 that by simp
    then show ?thesis by auto
  next
    case False
    then obtain i where "Suc k \<le> i" "i < Suc k + length runs" "run_addr pi ?m i \<le> x" "x < run_addr pi ?m i + 16" using m'(3) by blast
    then show ?thesis by (intro exI[of _ i]) simp
  qed
  ultimately show ?case using m'(1) step by auto
qed

lemma init_loop_reads:
  assumes "run_store pi n (mem s)" "i + k \<le> n" "i mod 256 \<noteq> 0 \<longrightarrow> p = unat (file_look pi (mem s) (i div 256))" "kmem_good s"
  shows "\<exists>s'. init_blockmap_loop pi k i p s = Some s' \<and> mem s' = mem s
    \<and> block_inuse_head (sbi s') = block_inuse_head (sbi s) @ map (\<lambda>j. rd_lowhigh (mem s) (run_addr pi (mem s) j)) [i..<i + k]"
  using assms
proof (induction k arbitrary: i p s)
  case 0
  then show ?case by simp
next
  case (Suc k)
  let ?q = "unat (file_look pi (mem s) (i div 256))"
  have i: "i < n" using Suc.prems(2) by simp
  note ib = run_block_index[OF i]
  obtain s1 where al: "pmfs_alloc_blocknode s = (True, s1)" "kmem_good s1" "mem s1 = mem s"
    "block_inuse_head (sbi s1) = block_inuse_head (sbi s)"
    using alloc_blocknode_good[OF Suc.prems(4)] by blast
  let ?s2 = "upd_sbi (\<lambda>b. b\<lparr>block_inuse_head := block_inuse_head b @ [rd_lowhigh (mem s1) (?q + 16 * (i mod 256))]\<rparr>) s1"
  have q: "?q \<noteq> 0" using run_storeD(1)[OF Suc.prems(1) ib] by (simp add: unat_eq_0)
  have step: "init_blockmap_loop pi (Suc k) i p s = init_blockmap_loop pi k (Suc i) ?q ?s2"
    using q Suc.prems(3) find_run_block[OF Suc.prems(1) ib] by (auto simp: Let_def al(1))
  have nxt: "Suc i mod 256 \<noteq> 0 \<longrightarrow> ?q = unat (file_look pi (mem ?s2) (Suc i div 256))"
    by (simp add: al(3) div_Suc mod_Suc)
  have good: "kmem_good ?s2" using al(2) by (simp add: kmem_good_def)
  obtain s' where "init_blockmap_loop pi k (Suc i) ?q ?s2 = Some s'" "mem s' = mem s"
    "block_inuse_head (sbi s') = block_inuse_head (sbi ?s2) @ map (\<lambda>j. rd_lowhigh (mem s) (run_addr pi (mem s) j)) [Suc i..<Suc i + k]"
    using Suc.IH[of ?s2 "Suc i" ?q, OF _ _ nxt good] Suc.prems(1,2) al(3) by auto
  moreover have "[i..<i + Suc k] = i # [Suc i..<Suc i + k]" using upt_conv_Cons[of i "i + Suc k"] by simp
  ultimately show ?case unfolding step using al by (simp add: run_addr_def del: upt_Suc)
qed

section \<open>Properties of the rebuilt list\<close>

text \<open>C24. From bitmaps to runs: if the marked blocks are inside the device, no block is marked at two
  granularities and none is in the list yet, \<open>pmfs_build_blocknode_map\<close> gives a sorted, coalesced list that
  covers exactly the old blocks and the marked ones, the count of free blocks falls by their number, and
  memory is unchanged.\<close>

theorem build_map_covers_bitmaps:
  assumes "balloc_inv s" "kmem_good s" "0 \<in> used_blocks s" "levels_apart bm"
    and "marked_blocks bm \<inter> used_blocks s = {}" "marked_blocks bm \<subseteq> {..<unat (block_end (sbi s))}"
  shows "balloc_inv (pmfs_build_blocknode_map bm s)
    \<and> used_blocks (pmfs_build_blocknode_map bm s) = used_blocks s \<union> marked_blocks bm
    \<and> num_free_blocks (sbi (pmfs_build_blocknode_map bm s)) = num_free_blocks (sbi s) - of_nat (card (marked_blocks bm))
    \<and> mem (pmfs_build_blocknode_map bm s) = mem s"
  using build_map_enters[OF assms] by (simp add: entered_def)

text \<open>A device of 2048 blocks of which only the first is in use; on it, an inode table of one block whose second
  inode is in use and has one block.\<close>

definition ex_crash :: fs where
  "ex_crash = ex_balloc\<lparr>sbi := (sbi ex_balloc)\<lparr>block_inuse_head := [\<lparr>block_low = 0, block_high = 0\<rparr>]\<rparr>,
     mem := wr16 4262 1 (wr64 4232 8192 (mem ex_balloc))\<rparr>"

lemma ex_crash_inv: "balloc_inv ex_crash" "kmem_good ex_crash" "used_blocks ex_crash = {0}" "unat (block_end (sbi ex_crash)) = 2048"
  by (simp_all add: balloc_inv_def kmem_good_def used_blocks_def ex_crash_def ex_balloc_simps)

definition ex_bitmap :: scan_bitmap where
  "ex_bitmap = \<lparr>bitmap_4k_size = 256, bitmap_2M_size = 1, bitmap_1G_size = 1, bitmap_4k = (\<lambda>_. False), bitmap_2M = (\<lambda>_. False),
     bitmap_1G = (\<lambda>_. False)\<rparr>"

lemma ex_bitmap_marks: "mark_fits {(0, 1), (0, 2)} ex_bitmap" "empty_bitmap ex_bitmap" "marks_apart {(0, 1), (0, 2)}"
  "mark_blocks {(0, 1), (0, 2)} = {1, 2}"
  by (auto simp: mark_fits_def ex_bitmap_def empty_bitmap_def marks_apart_def mark_blocks_def)

theorem build_map_covers_bitmaps_witness:
  "used_blocks (pmfs_build_blocknode_map (mark_add {(0, 1), (0, 2)} ex_bitmap) ex_crash) = {0, 1, 2}"
proof -
  have "marked_blocks (mark_add {(0, 1), (0, 2)} ex_bitmap) = {1, 2}" "levels_apart (mark_add {(0, 1), (0, 2)} ex_bitmap)"
    using marked_from_empty[OF ex_bitmap_marks(2,1)] ex_bitmap_marks(3,4) by simp_all
  then show ?thesis
    using build_map_covers_bitmaps[OF ex_crash_inv(1,2), of "mark_add {(0, 1), (0, 2)} ex_bitmap"] ex_crash_inv(3,4) by auto
qed

text \<open>C8. Rebuilding after a crash finds every reachable block: from empty bitmaps that are large enough, the
  crawl over the inode table returns, counts the inodes of the table and those in use, and the list built
  from its bitmaps covers, besides what was reserved before, exactly the nodes and blocks of the inode table
  and the nodes and blocks of the block maps of the inodes in use, whatever their heights and block sizes.\<close>

theorem rebuild_finds_reachable_blocks:
  assumes "b \<noteq> 0" "empty_bitmap bm" "mark_fits (table_marks h bt m b) bm" "marks_apart (table_marks h bt m b)"
    and "balloc_inv s" "kmem_good s" "0 \<in> used_blocks s"
    and "mark_blocks (table_marks h bt m b) \<inter> used_blocks s = {}"
      "mark_blocks (table_marks h bt m b) \<subseteq> {..<unat (block_end (sbi s))}"
  shows "\<exists>bm'. pmfs_inode_table_crawl_recursive h bt m b (0, 0, bm)
      = Some (of_nat (table_blocks h m b) * INODES_PER_BLOCK bt, of_nat (table_used h bt m b), bm')
    \<and> balloc_inv (pmfs_build_blocknode_map bm' s)
    \<and> used_blocks (pmfs_build_blocknode_map bm' s) = used_blocks s \<union> mark_blocks (table_marks h bt m b)"
proof -
  let ?bm = "mark_add (table_marks h bt m b) bm"
  note M = marked_from_empty[OF assms(2,3)]
  have "entered (marked_blocks ?bm) s (pmfs_build_blocknode_map ?bm s)"
    using assms M by (intro build_map_enters) auto
  then show ?thesis using table_crawl[OF assms(1,3), of 0 0] M(1) by (simp add: entered_def)
qed

lemma ex_crash_inode: "pi_height (rd_inode (mem ex_crash) 4224) = 0" "pi_root (rd_inode (mem ex_crash) 4224) = 8192"
  "pi_blk_type (rd_inode (mem ex_crash) 4224) = 0" "pi_links_count (rd_inode (mem ex_crash) 4224) = 1"
  by (simp_all add: rd_inode_def ex_crash_def ex_balloc_simps)

lemma ex_crash_free: "i < 32 \<Longrightarrow> inode_free (mem ex_crash) (4096 + 128 * i) \<longleftrightarrow> i \<noteq> 1"
proof (cases "i = 1")
  case False
  then have "i = 0 \<or> 2 \<le> i" by linarith
  then show ?thesis by (auto simp: inode_free_def rd_inode_def ex_crash_def ex_balloc_simps)
qed (simp add: inode_free_def ex_crash_inode)

lemma ex_crash_table: "table_block_inodes 0 (mem ex_crash) 4096 = {4224}"
proof -
  have n: "unat (INODES_PER_BLOCK 0) = 32" by (simp add: INODES_PER_BLOCK_def blk_type_to_shift_def)
  have "pi \<in> table_block_inodes 0 (mem ex_crash) 4096 \<longleftrightarrow> (\<exists>i<32. pi = 4096 + 128 * i \<and> i = 1)" for pi
    using ex_crash_free ex_crash_free[of 1] by (auto simp: table_block_inodes_def n)
  then show ?thesis by auto
qed

lemma ex_crash_marks: "table_marks 0 0 (mem ex_crash) 4096 = {(0, 1), (0, 2)}"
proof -
  have "{p. p \<noteq> 0 \<and> (\<exists>k. file_look 4224 (mem ex_crash) k = p)} = {8192}"
    by (auto simp: file_look_def ex_crash_inode split: if_splits)
  then have "inode_marks 4224 (mem ex_crash) = {(0, 2)}"
    by (simp add: inode_marks_def file_meta_def ex_crash_inode block_mark_def)
  then have "table_block_marks 0 (mem ex_crash) 4096 = {(0, 1), (0, 2)}" by (simp add: table_block_marks_def ex_crash_table)
  moreover have "{p. p \<noteq> 0 \<and> (\<exists>k<512 ^ 0. tree_look 0 (mem ex_crash) 4096 k = p)} = {4096}" by auto
  ultimately show ?thesis unfolding table_marks_def by simp
qed

theorem rebuild_finds_reachable_blocks_witness:
  "\<exists>bm'. pmfs_inode_table_crawl_recursive 0 0 (mem ex_crash) 4096 (0, 0, ex_bitmap) = Some (32, 1, bm')
    \<and> used_blocks (pmfs_build_blocknode_map bm' ex_crash) = {0, 1, 2}"
proof -
  have "table_blocks 0 (mem ex_crash) 4096 = 1" by (simp add: table_blocks_def)
  moreover have "table_used 0 0 (mem ex_crash) 4096 = 1" by (simp add: table_used_def ex_crash_table)
  moreover have "INODES_PER_BLOCK 0 = 32" by (simp add: INODES_PER_BLOCK_def blk_type_to_shift_def)
  ultimately show ?thesis
    using rebuild_finds_reachable_blocks[of 4096 ex_bitmap 0 0 "mem ex_crash" ex_crash] ex_crash_inv ex_bitmap_marks
    by (auto simp: ex_crash_marks)
qed

text \<open>C26. The list of used runs survives a clean unmount: whatever the runs, once the inode's blocks for
  them are allocated, storing them and reading them back at the next mount gives the same list in the same
  order, and storing changes no memory outside the inode's data blocks.\<close>

theorem save_restore_runs:
  assumes "run_store pi (length runs) (mem s)"
  shows "\<exists>m'. save_loop pi 0 0 runs s = Some (s\<lparr>mem := m'\<rparr>)
    \<and> (\<forall>x. m' x \<noteq> mem s x \<longrightarrow> (\<exists>j. file_look pi (mem s) j \<noteq> 0 \<and> x div 4096 = unat (file_look pi (mem s) j) div 4096))
    \<and> (\<forall>s2. mem s2 = m' \<longrightarrow> kmem_good s2 \<longrightarrow> block_inuse_head (sbi s2) = [] \<longrightarrow>
         (\<exists>s3. init_blockmap_loop pi (length runs) 0 0 s2 = Some s3 \<and> block_inuse_head (sbi s3) = runs))"
proof -
  let ?n = "length runs"
  obtain m' where m': "save_loop pi 0 0 runs s = Some (s\<lparr>mem := m'\<rparr>)"
    "\<forall>i<?n. rd_lowhigh m' (run_addr pi (mem s) i) = runs ! i"
    "\<forall>x. m' x \<noteq> mem s x \<longrightarrow> (\<exists>i<?n. run_addr pi (mem s) i \<le> x \<and> x < run_addr pi (mem s) i + 16)"
    using save_loop_stores[OF assms, of 0 runs 0] by auto
  have fr: "file_look pi m' = file_look pi (mem s)" "run_store pi ?n m'"
    using run_store_frame[OF assms, of m'] m'(3) by blast+
  have "\<exists>j. file_look pi (mem s) j \<noteq> 0 \<and> x div 4096 = unat (file_look pi (mem s) j) div 4096" if x: "m' x \<noteq> mem s x" for x
  proof -
    obtain i where i: "i < ?n" "run_addr pi (mem s) i \<le> x" "x < run_addr pi (mem s) i + 16" using m'(3) x by blast
    then show ?thesis using run_addr_page[OF assms i] run_storeD(1)[OF assms run_block_index[OF i(1)]] by blast
  qed
  moreover have "\<exists>s3. init_blockmap_loop pi ?n 0 0 s2 = Some s3 \<and> block_inuse_head (sbi s3) = runs"
    if s2: "mem s2 = m'" "kmem_good s2" "block_inuse_head (sbi s2) = []" for s2
  proof -
    obtain s3 where "init_blockmap_loop pi ?n 0 0 s2 = Some s3"
      "block_inuse_head (sbi s3) = map (\<lambda>j. rd_lowhigh m' (run_addr pi m' j)) [0..<?n]"
      using init_loop_reads[of pi ?n s2 0 ?n 0] fr(2) s2 by auto
    moreover have "map (\<lambda>j. rd_lowhigh m' (run_addr pi m' j)) [0..<?n] = runs"
      by (rule nth_equalityI) (use m'(2) run_addr_frame[OF fr(1)] in simp_all)
    ultimately show ?thesis by simp
  qed
  ultimately show ?thesis using m'(1) by blast
qed

lemma ex_crash_store: "run_store 4224 2 (mem ex_crash)"
  by (auto simp: run_store_def ex_crash_inode file_look_def file_meta_def)

theorem save_restore_runs_witness:
  "\<exists>m'. save_loop 4224 0 0 [\<lparr>block_low = 0, block_high = 5\<rparr>, \<lparr>block_low = 8, block_high = 9\<rparr>] ex_crash = Some (ex_crash\<lparr>mem := m'\<rparr>)
    \<and> (\<exists>s3. init_blockmap_loop 4224 2 0 0 (ex_crash\<lparr>mem := m', sbi := (sbi ex_crash)\<lparr>block_inuse_head := []\<rparr>\<rparr>) = Some s3
       \<and> block_inuse_head (sbi s3) = [\<lparr>block_low = 0, block_high = 5\<rparr>, \<lparr>block_low = 8, block_high = 9\<rparr>])"
proof -
  let ?runs = "[\<lparr>block_low = 0, block_high = 5\<rparr>, \<lparr>block_low = 8, block_high = 9\<rparr>] :: pmfs_blocknode list"
  have st: "run_store 4224 (length ?runs) (mem ex_crash)" using ex_crash_store by (simp add: numeral_2_eq_2)
  obtain m' where m: "save_loop 4224 0 0 ?runs ex_crash = Some (ex_crash\<lparr>mem := m'\<rparr>)"
    "\<forall>s2. mem s2 = m' \<longrightarrow> kmem_good s2 \<longrightarrow> block_inuse_head (sbi s2) = [] \<longrightarrow>
         (\<exists>s3. init_blockmap_loop 4224 (length ?runs) 0 0 s2 = Some s3 \<and> block_inuse_head (sbi s3) = ?runs)"
    using save_restore_runs[OF st] by blast
  have "kmem_good (ex_crash\<lparr>mem := m', sbi := (sbi ex_crash)\<lparr>block_inuse_head := []\<rparr>\<rparr>)"
    using ex_crash_inv(2) by (simp add: kmem_good_def)
  then have "\<exists>s3. init_blockmap_loop 4224 (length ?runs) 0 0 (ex_crash\<lparr>mem := m', sbi := (sbi ex_crash)\<lparr>block_inuse_head := []\<rparr>\<rparr>) = Some s3
       \<and> block_inuse_head (sbi s3) = ?runs"
    using m(2) by simp
  then have "\<exists>s3. init_blockmap_loop 4224 2 0 0 (ex_crash\<lparr>mem := m', sbi := (sbi ex_crash)\<lparr>block_inuse_head := []\<rparr>\<rparr>) = Some s3
       \<and> block_inuse_head (sbi s3) = ?runs" by (simp add: numeral_2_eq_2)
  then show ?thesis using m(1) by blast
qed

end
