(* ===== verification/Lru.thy ===== *)
theory Lru
  imports Pmfs_State
begin

text \<open>
  The LRU lists of inodes (\<open>lru.c\<close>, \<open>lru.h\<close>). Nodes are on two of the kernel's doubly linked lists, a hash
  chain and the LRU list, and are reused when the cache is full, so the lists are modelled as the
  pointers they are: \<open>next\<close> and \<open>prev\<close> of every \<open>struct list_head\<close>. A dereference of the poison value that
  \<open>list_del\<close> leaves behind, like any other access outside an object, is \<open>None\<close>.
\<close>

section \<open>Linked lists\<close>

text \<open>The list heads there are: the hash slots, \<open>lru_nodes\<close>, and the two members of each node.\<close>

datatype lptr = Slot nat | Lru_nodes | Hash_list nat | Lru_list nat | Poison

record lru_node_t =
  key :: "u8 list"
  key_len :: u32
  pinode :: nat
  n_ino :: u64
  n_score :: u64

text \<open>\<open>nodes\<close> are the nodes allocated so far, by address. \<open>allocs\<close> are the outcomes of the coming allocations,
  where the empty list means that they all succeed.\<close>

record inode_lru_t =
  num_slot :: u32
  node_size :: u32
  num_nodes :: u32
  nodes :: "lru_node_t list"
  next_of :: "lptr \<Rightarrow> lptr"
  prev_of :: "lptr \<Rightarrow> lptr"
  allocs :: "bool list"

definition set_next :: "lptr \<Rightarrow> lptr \<Rightarrow> inode_lru_t \<Rightarrow> inode_lru_t option" where
  "set_next p q l = (if p = Poison then None else Some (l\<lparr>next_of := (next_of l)(p := q)\<rparr>))"

definition set_prev :: "lptr \<Rightarrow> lptr \<Rightarrow> inode_lru_t \<Rightarrow> inode_lru_t option" where
  "set_prev p q l = (if p = Poison then None else Some (l\<lparr>prev_of := (prev_of l)(p := q)\<rparr>))"

definition INIT_LIST_HEAD :: "lptr \<Rightarrow> inode_lru_t \<Rightarrow> inode_lru_t option" where
  "INIT_LIST_HEAD p l = do { l1 \<leftarrow> set_next p p l; set_prev p p l1 }"

definition raw_list_add :: "lptr \<Rightarrow> lptr \<Rightarrow> lptr \<Rightarrow> inode_lru_t \<Rightarrow> inode_lru_t option" where
  "raw_list_add e p n l = do {
     l1 \<leftarrow> set_prev n e l;
     l2 \<leftarrow> set_next e n l1;
     l3 \<leftarrow> set_prev e p l2;
     set_next p e l3 }"

definition list_add :: "lptr \<Rightarrow> lptr \<Rightarrow> inode_lru_t \<Rightarrow> inode_lru_t option" where
  "list_add e head l = raw_list_add e head (next_of l head) l"

definition list_add_tail :: "lptr \<Rightarrow> lptr \<Rightarrow> inode_lru_t \<Rightarrow> inode_lru_t option" where
  "list_add_tail e head l = raw_list_add e (prev_of l head) head l"

definition raw_list_del :: "lptr \<Rightarrow> inode_lru_t \<Rightarrow> inode_lru_t option" where
  "raw_list_del e l = (let p = prev_of l e; n = next_of l e in do { l1 \<leftarrow> set_prev n p l; set_next p n l1 })"

definition list_del :: "lptr \<Rightarrow> inode_lru_t \<Rightarrow> inode_lru_t option" where
  "list_del e l = do { l1 \<leftarrow> raw_list_del e l; l2 \<leftarrow> set_next e Poison l1; set_prev e Poison l2 }"

definition list_del_init :: "lptr \<Rightarrow> inode_lru_t \<Rightarrow> inode_lru_t option" where
  "list_del_init e l = do { l1 \<leftarrow> raw_list_del e l; INIT_LIST_HEAD e l1 }"

definition upd_node :: "nat \<Rightarrow> (lru_node_t \<Rightarrow> lru_node_t) \<Rightarrow> inode_lru_t \<Rightarrow> inode_lru_t" where
  "upd_node n f l = l\<lparr>nodes := (nodes l)[n := f (nodes l ! n)]\<rparr>"

section \<open>Hashing and comparing keys\<close>

text \<open>\<open>hash\<close> is an \<open>unsigned long\<close>, the characters are signed, and the result is cut to 32 bits.\<close>

fun hashname_loop :: "u8 list \<Rightarrow> nat \<Rightarrow> u64 \<Rightarrow> u64 option" where
  "hashname_loop k 0 h = Some h"
| "hashname_loop [] (Suc n) h = None"
| "hashname_loop (c # k) (Suc n) h = hashname_loop k n (h * 131 + scast c)"

definition hashname :: "u8 list \<Rightarrow> u32 \<Rightarrow> u32 option" where
  "hashname k n = do { h \<leftarrow> hashname_loop k (unat n) 0; Some (ucast h) }"

text \<open>\<open>strcmp(a, b) == 0\<close>, where reading past the end of either object is \<open>None\<close>.\<close>

fun strcmp_eq :: "u8 list \<Rightarrow> u8 list \<Rightarrow> bool option" where
  "strcmp_eq (a # as) (b # bs) = (if a \<noteq> b then Some False else if a = 0 then Some True else strcmp_eq as bs)"
| "strcmp_eq _ _ = None"

section \<open>The cache\<close>

definition lru_alloc :: "inode_lru_t \<Rightarrow> bool \<times> inode_lru_t" where
  "lru_alloc l = (case allocs l of [] \<Rightarrow> (True, l) | b # bs \<Rightarrow> (b, l\<lparr>allocs := bs\<rparr>))"

text \<open>\<open>init_lru\<close> with the outcomes of its two allocations. The loop initialises the slots; a failed allocation
  of the slots is not noticed, and the first slot is then a null pointer.\<close>

definition init_lru :: "(u32 \<times> u32) option \<Rightarrow> bool \<Rightarrow> bool \<Rightarrow> bool list \<Rightarrow> inode_lru_t option option" where
  "init_lru options lru_ok slots_ok rest =
     (case options of
        None \<Rightarrow> Some None
      | Some (slots, sz) \<Rightarrow>
          if \<not> lru_ok then Some None
          else if \<not> slots_ok \<and> slots > 0 then None
          else Some (Some \<lparr>num_slot = slots, node_size = sz, num_nodes = 0, nodes = [],
                 next_of = (\<lambda>p. p), prev_of = (\<lambda>p. p), allocs = rest\<rparr>))"

text \<open>When the cache is full the first node of the LRU list is reused: the code takes it off its hash chain,
  twice, and leaves it on the LRU list. An empty LRU list makes the list head itself the node.\<close>

definition new_or_expire_lru_node :: "inode_lru_t \<Rightarrow> (nat \<times> inode_lru_t) option" where
  "new_or_expire_lru_node l =
     (if num_nodes l \<ge> node_size l then
        case next_of l Lru_nodes of
          Lru_list n \<Rightarrow> do {
            l1 \<leftarrow> list_del_init (Hash_list n) l;
            l2 \<leftarrow> list_del_init (Hash_list n) l1;
            Some (n, l2)
          }
        | _ \<Rightarrow> None
      else
        let (ok, l1) = lru_alloc l
        in if \<not> ok then None
           else let n = length (nodes l1);
                    l2 = l1\<lparr>num_nodes := num_nodes l1 + 1,
                      nodes := nodes l1 @ [\<lparr>key = [], key_len = 0, pinode = 0, n_ino = 0, n_score = 0\<rparr>]\<rparr>
                in do {
                     l3 \<leftarrow> INIT_LIST_HEAD (Hash_list n) l2;
                     l4 \<leftarrow> INIT_LIST_HEAD (Lru_list n) l3;
                     Some (n, l4)
                   })"

text \<open>The walk along a hash chain. It ends at the head, or never.\<close>

partial_function (option) find_loop :: "u8 list \<Rightarrow> lptr \<Rightarrow> lptr \<Rightarrow> inode_lru_t \<Rightarrow> nat option option" where
  "find_loop k head p l =
     (if p = head then Some None
      else case p of
             Hash_list n \<Rightarrow>
               if n < length (nodes l) then do {
                 eq \<leftarrow> strcmp_eq k (key (nodes l ! n));
                 if eq then Some (Some n) else find_loop k head (next_of l p) l
               }
               else None
           | _ \<Rightarrow> None)"

definition slot_of :: "u8 list \<Rightarrow> u32 \<Rightarrow> inode_lru_t \<Rightarrow> lptr option" where
  "slot_of k n l = do {
     h \<leftarrow> hashname k n;
     if num_slot l = 0 then None else Some (Slot (unat (h mod num_slot l))) }"

definition find_lru_node :: "inode_lru_t \<Rightarrow> u8 list \<Rightarrow> u32 \<Rightarrow> nat option option" where
  "find_lru_node l k n = do { head \<leftarrow> slot_of k n l; find_loop k head (next_of l head) l }"

text \<open>\<open>kzalloc(key_len)\<close>: \<open>ksize\<close> gives the size of the object the allocator returns for a request.\<close>

definition alloc_key :: "(nat \<Rightarrow> nat) \<Rightarrow> u8 list \<Rightarrow> u32 \<Rightarrow> u8 list option" where
  "alloc_key ksize k n =
     (if length k < unat n then None else Some (take (unat n) k @ replicate (ksize (unat n) - unat n) 0))"

definition insert_lru_node ::
  "(nat \<Rightarrow> nat) \<Rightarrow> inode_lru_t option \<Rightarrow> u8 list option \<Rightarrow> u32 \<Rightarrow> u64 \<Rightarrow> (nat option \<times> inode_lru_t option) option" where
  "insert_lru_node ksize lru k n ino =
     (case (lru, k) of
        (Some l, Some k) \<Rightarrow>
          if n = 0 \<or> ino = 0 then Some (None, lru)
          else do {
            found \<leftarrow> find_lru_node l k n;
            case found of
              Some i \<Rightarrow> do {
                l1 \<leftarrow> list_del (Lru_list i) l;
                let l2 = (if n_ino (nodes l1 ! i) \<noteq> ino then upd_node i (\<lambda>x. x\<lparr>n_ino := ino\<rparr>) l1 else l1);
                l3 \<leftarrow> list_add_tail (Lru_list i) Lru_nodes l2;
                Some (Some i, Some l3)
              }
            | None \<Rightarrow> do {
                (i, l1) \<leftarrow> new_or_expire_lru_node l;
                let (ok, l2) = lru_alloc l1;
                if \<not> ok then None
                else do {
                  kk \<leftarrow> alloc_key ksize k n;
                  let l3 = upd_node i (\<lambda>x. x\<lparr>key := kk, key_len := n, n_ino := ino\<rparr>) l2;
                  l4 \<leftarrow> list_add_tail (Lru_list i) Lru_nodes l3;
                  slot \<leftarrow> slot_of k n l4;
                  l5 \<leftarrow> list_add (Hash_list i) slot l4;
                  Some (Some i, Some l5)
                }
              }
          }
      | _ \<Rightarrow> Some (None, lru))"

definition del_lru_node ::
  "inode_lru_t option \<Rightarrow> u8 list option \<Rightarrow> u32 \<Rightarrow> u64 \<Rightarrow> (bool \<times> inode_lru_t option) option" where
  "del_lru_node lru k n ino =
     (case (lru, k) of
        (Some l, Some k) \<Rightarrow>
          if n = 0 then Some (False, lru)
          else do {
            found \<leftarrow> find_lru_node l k n;
            case found of
              None \<Rightarrow> Some (False, lru)
            | Some i \<Rightarrow>
                if n_ino (nodes l ! i) = ino then do {
                  l1 \<leftarrow> list_del (Hash_list i) l;
                  l2 \<leftarrow> list_del (Lru_list i) l1;
                  l3 \<leftarrow> list_add (Lru_list i) Lru_nodes l2;
                  Some (True, Some l3)
                }
                else Some (False, lru)
          }
      | _ \<Rightarrow> Some (False, lru))"

section \<open>Rings\<close>

text \<open>\<open>seg l a xs b\<close>: both directions of the links from \<open>a\<close> through \<open>xs\<close> to \<open>b\<close>.\<close>

fun seg :: "inode_lru_t \<Rightarrow> lptr \<Rightarrow> lptr list \<Rightarrow> lptr \<Rightarrow> bool" where
  "seg l a [] b \<longleftrightarrow> next_of l a = b \<and> prev_of l b = a"
| "seg l a (x # xs) b \<longleftrightarrow> next_of l a = x \<and> prev_of l x = a \<and> seg l x xs b"

definition ring :: "inode_lru_t \<Rightarrow> lptr \<Rightarrow> lptr list \<Rightarrow> bool" where
  "ring l h xs \<longleftrightarrow> seg l h xs h \<and> distinct (h # xs) \<and> Poison \<notin> set (h # xs)"

lemma seg_append: "seg l a (xs @ y # ys) b \<longleftrightarrow> seg l a xs y \<and> seg l y ys b"
  by (induction xs arbitrary: a) auto

lemma seg_cong:
  assumes "\<And>p. p \<in> set (a # xs) \<Longrightarrow> next_of l' p = next_of l p" "\<And>p. p \<in> insert b (set xs) \<Longrightarrow> prev_of l' p = prev_of l p"
  shows "seg l' a xs b = seg l a xs b"
  using assms by (induction xs arbitrary: a) auto

lemma ring_frame:
  assumes "ring l h xs" "\<And>p. p \<in> set (h # xs) \<Longrightarrow> next_of l' p = next_of l p \<and> prev_of l' p = prev_of l p"
  shows "ring l' h xs"
  using assms seg_cong[of h xs l' l h] by (simp add: ring_def)

text \<open>What the list operations change.\<close>

definition only_links :: "inode_lru_t \<Rightarrow> inode_lru_t \<Rightarrow> lptr set \<Rightarrow> bool" where
  "only_links l l' P \<longleftrightarrow> l'\<lparr>next_of := next_of l, prev_of := prev_of l\<rparr> = l
     \<and> (\<forall>p. p \<notin> P \<longrightarrow> next_of l' p = next_of l p \<and> prev_of l' p = prev_of l p)"

lemma only_links_fields:
  assumes "only_links l l' P"
  shows "nodes l' = nodes l" "num_slot l' = num_slot l" "node_size l' = node_size l" "num_nodes l' = num_nodes l" "allocs l' = allocs l"
proof -
  have e: "l'\<lparr>next_of := next_of l, prev_of := prev_of l\<rparr> = l" using assms by (simp add: only_links_def)
  show "nodes l' = nodes l" "num_slot l' = num_slot l" "node_size l' = node_size l" "num_nodes l' = num_nodes l" "allocs l' = allocs l"
    using arg_cong[OF e, of nodes] arg_cong[OF e, of num_slot] arg_cong[OF e, of node_size] arg_cong[OF e, of num_nodes]
      arg_cong[OF e, of allocs] by simp_all
qed

lemma raw_list_add_ring:
  assumes r: "ring l h (xs @ ys)" and e: "e \<notin> set (h # xs @ ys)" "e \<noteq> Poison"
    and p: "p = last (h # xs)" and n: "n = (case ys of [] \<Rightarrow> h | y # _ \<Rightarrow> y)"
  shows "\<exists>l'. raw_list_add e p n l = Some l' \<and> ring l' h (xs @ e # ys) \<and> only_links l l' (insert e (set (h # xs @ ys)))"
proof -
  have mem: "p \<in> set (h # xs)" "n \<in> insert h (set ys)" using p n by (auto split: list.splits)
  have nP: "p \<noteq> Poison" "n \<noteq> Poison" using r mem by (auto simp: ring_def)
  define l' where "l' = l\<lparr>prev_of := (prev_of l)(n := e, e := p), next_of := (next_of l)(e := n, p := e)\<rparr>"
  have eq: "raw_list_add e p n l = Some l'"
    using nP e(2) by (simp add: raw_list_add_def set_prev_def set_next_def l'_def)
  have d: "distinct (h # xs @ ys)" and s: "seg l h (xs @ ys) h" and P: "Poison \<notin> set (h # xs @ ys)" using r by (auto simp: ring_def)
  have left: "seg l' h xs e"
  proof (cases xs rule: rev_cases)
    case Nil
    then show ?thesis using p e(1) by (simp add: l'_def)
  next
    case (snoc zs z)
    have pz: "p = z" using p snoc by simp
    have "seg l h zs z" using s snoc seg_append[of l h zs z ys h] by simp
    moreover have "seg l' h zs z = seg l h zs z"
      by (rule seg_cong) (use d e(1) n pz snoc in \<open>auto simp: l'_def split: list.splits\<close>)
    ultimately show ?thesis using e(1) n d snoc pz seg_append[of l' h zs z "[]" e] by (auto simp: l'_def split: list.splits)
  qed
  have right: "seg l' e ys h"
  proof (cases ys)
    case Nil
    then show ?thesis using n e(1) mem(1) p by (auto simp: l'_def)
  next
    case (Cons y ys')
    have "seg l y ys' h" using s Cons seg_append[of l h xs y ys' h] by simp
    moreover have "seg l' y ys' h = seg l y ys' h"
      by (rule seg_cong) (use d e(1) n mem(1) Cons in \<open>auto simp: l'_def\<close>)
    ultimately show ?thesis using n e(1) mem(1) Cons by (auto simp: l'_def)
  qed
  have "ring l' h (xs @ e # ys)" using left right d e P by (auto simp: ring_def seg_append)
  moreover have "only_links l l' (insert e (set (h # xs @ ys)))" using mem by (auto simp: only_links_def l'_def)
  ultimately show ?thesis using eq by blast
qed

lemma seg_ends: "seg l a xs b \<Longrightarrow> prev_of l b = last (a # xs) \<and> next_of l a = (case xs of [] \<Rightarrow> b | x # _ \<Rightarrow> x)"
proof (induction xs arbitrary: a)
  case (Cons x xs)
  then show ?case using Cons.IH[of x] by simp
qed simp

lemma list_add_tail_ring:
  assumes "ring l h xs" "e \<notin> set (h # xs)" "e \<noteq> Poison"
  shows "\<exists>l'. list_add_tail e h l = Some l' \<and> ring l' h (xs @ [e]) \<and> only_links l l' (insert e (set (h # xs)))"
  using raw_list_add_ring[of l h xs "[]" e "prev_of l h" h] assms seg_ends[of l h xs h] by (simp add: list_add_tail_def ring_def)

lemma list_add_ring:
  assumes "ring l h xs" "e \<notin> set (h # xs)" "e \<noteq> Poison"
  shows "\<exists>l'. list_add e h l = Some l' \<and> ring l' h (e # xs) \<and> only_links l l' (insert e (set (h # xs)))"
  using raw_list_add_ring[of l h "[]" xs e h "next_of l h"] assms seg_ends[of l h xs h] by (simp add: list_add_def ring_def)

lemma raw_list_del_ring:
  assumes r: "ring l h (xs @ e # ys)"
  shows "\<exists>l'. raw_list_del e l = Some l' \<and> ring l' h (xs @ ys) \<and> only_links l l' (set (h # xs @ ys))
    \<and> next_of l' e = next_of l e \<and> prev_of l' e = prev_of l e"
proof -
  define p where "p = last (h # xs)"
  define n where "n = (case ys of [] \<Rightarrow> h | y # _ \<Rightarrow> y)"
  have d: "distinct (h # xs @ e # ys)" and s: "seg l h xs e" "seg l e ys h" and P: "Poison \<notin> set (h # xs @ e # ys)"
    using r by (auto simp: ring_def seg_append)
  have pn: "prev_of l e = p" "next_of l e = n" using seg_ends[OF s(1)] seg_ends[OF s(2)] by (simp_all add: p_def n_def)
  have mem: "p \<in> set (h # xs)" "n \<in> insert h (set ys)" by (auto simp: p_def n_def split: list.splits)
  have nP: "p \<noteq> Poison" "n \<noteq> Poison" "p \<noteq> e" "n \<noteq> e" using P mem d by auto
  define l' where "l' = l\<lparr>prev_of := (prev_of l)(n := p), next_of := (next_of l)(p := n)\<rparr>"
  have eq: "raw_list_del e l = Some l'" using nP by (simp add: raw_list_del_def set_prev_def set_next_def pn l'_def)
  have left: "seg l' h xs n"
  proof (cases xs rule: rev_cases)
    case Nil
    then show ?thesis by (simp add: l'_def p_def)
  next
    case (snoc zs z)
    have pz: "p = z" using snoc by (simp add: p_def)
    have "seg l h zs z" using s(1) snoc seg_append[of l h zs z "[]" e] by simp
    moreover have "seg l' h zs z = seg l h zs z"
      by (rule seg_cong) (use d pz snoc in \<open>auto simp: l'_def n_def split: list.splits\<close>)
    ultimately show ?thesis using snoc pz seg_append[of l' h zs z "[]" n] by (simp add: l'_def)
  qed
  have "seg l' h (xs @ ys) h"
  proof (cases ys)
    case Nil
    then show ?thesis using left by (simp add: n_def)
  next
    case (Cons y ys')
    have "seg l y ys' h" using s(2) Cons by simp
    moreover have "seg l' y ys' h = seg l y ys' h"
      by (rule seg_cong) (use d mem(1) Cons in \<open>auto simp: l'_def n_def\<close>)
    ultimately show ?thesis using left Cons by (simp add: n_def seg_append)
  qed
  then have "ring l' h (xs @ ys)" using d P by (auto simp: ring_def)
  moreover have "only_links l l' (set (h # xs @ ys))" using mem by (auto simp: only_links_def l'_def)
  ultimately show ?thesis using eq nP by (auto simp: l'_def)
qed

lemma list_del_ring:
  assumes "ring l h (xs @ e # ys)"
  shows "\<exists>l'. list_del e l = Some l' \<and> ring l' h (xs @ ys) \<and> only_links l l' (set (h # xs @ e # ys))"
proof -
  obtain l1 where l1: "raw_list_del e l = Some l1" "ring l1 h (xs @ ys)" "only_links l l1 (set (h # xs @ ys))"
    using raw_list_del_ring[OF assms] by blast
  have e: "e \<noteq> Poison" "e \<notin> set (h # xs @ ys)" using assms by (auto simp: ring_def)
  let ?l' = "l1\<lparr>next_of := (next_of l1)(e := Poison), prev_of := (prev_of l1)(e := Poison)\<rparr>"
  have "list_del e l = Some ?l'" using l1(1) e(1) by (simp add: list_del_def set_next_def set_prev_def)
  moreover have "ring ?l' h (xs @ ys)" by (rule ring_frame[OF l1(2)]) (use e in auto)
  moreover have "only_links l ?l' (set (h # xs @ e # ys))" using l1(3) by (auto simp: only_links_def)
  ultimately show ?thesis by blast
qed

section \<open>Keys\<close>

definition node_key :: "lru_node_t \<Rightarrow> u8 list" where
  "node_key x = take (unat (key_len x)) (key x)"

text \<open>The object behind the key has room for the terminator.\<close>

definition key_ok :: "lru_node_t \<Rightarrow> bool" where
  "key_ok x \<longleftrightarrow> 0 \<notin> set (node_key x) \<and> (\<exists>r. key x = node_key x @ 0 # r)"

definition slot_index :: "inode_lru_t \<Rightarrow> u8 list \<Rightarrow> nat" where
  "slot_index l k = unat ((ucast (foldl (\<lambda>h c. h * 131 + scast c) (0::u64) k) :: u32) mod num_slot l)"

lemma strcmp_eq_strings: "0 \<notin> set k \<Longrightarrow> 0 \<notin> set k' \<Longrightarrow> strcmp_eq (k @ 0 # r) (k' @ 0 # r') = Some (k = k')"
proof (induction k arbitrary: k')
  case Nil
  then show ?case by (cases k') auto
next
  case (Cons a k)
  then show ?case by (cases k') auto
qed

lemma hashname_loop_eq: "n \<le> length k \<Longrightarrow> hashname_loop k n h = Some (foldl (\<lambda>h c. h * 131 + scast c) h (take n k))"
  by (induction k n h rule: hashname_loop.induct) auto

lemma slot_of_eq:
  assumes "num_slot l \<noteq> 0" "unat n = length k"
  shows "slot_of (k @ r) n l = Some (Slot (slot_index l k))"
  using assms by (simp add: slot_of_def hashname_def hashname_loop_eq slot_index_def)

lemma slot_index_less: "num_slot l \<noteq> 0 \<Longrightarrow> slot_index l k < unat (num_slot l)"
  unfolding slot_index_def unat_mod by (simp add: unat_gt_0)

section \<open>The invariant\<close>

text \<open>\<open>os\<close> are the nodes in LRU order, \<open>cs i\<close> the chain of slot \<open>i\<close>.\<close>

definition lru_inv :: "inode_lru_t \<Rightarrow> nat list \<Rightarrow> (nat \<Rightarrow> nat list) \<Rightarrow> bool" where
  "lru_inv l os cs \<longleftrightarrow> num_slot l \<noteq> 0 \<and> ring l Lru_nodes (map Lru_list os)
     \<and> (\<forall>i<unat (num_slot l). ring l (Slot i) (map Hash_list (cs i)))
     \<and> set os = {..<length (nodes l)} \<and> unat (num_nodes l) = length (nodes l)
     \<and> (\<forall>i<unat (num_slot l). set (cs i) = {n. n < length (nodes l) \<and> slot_index l (node_key (nodes l ! n)) = i})
     \<and> (\<forall>n<length (nodes l). key_ok (nodes l ! n))
     \<and> inj_on (\<lambda>n. node_key (nodes l ! n)) {..<length (nodes l)}"

definition lru_entry :: "inode_lru_t \<Rightarrow> nat \<Rightarrow> u8 list \<times> u64" where
  "lru_entry l n = (node_key (nodes l ! n), n_ino (nodes l ! n))"

lemma find_loop_chain:
  assumes "seg l a (map Hash_list ns) (Slot i)" "0 \<notin> set k" "\<forall>n\<in>set ns. n < length (nodes l) \<and> key_ok (nodes l ! n)"
  shows "find_loop (k @ 0 # r) (Slot i) (next_of l a) l = Some (List.find (\<lambda>n. k = node_key (nodes l ! n)) ns)"
  using assms
proof (induction ns arbitrary: a)
  case Nil
  then show ?case by (subst find_loop.simps) simp
next
  case (Cons n ns)
  have "strcmp_eq (k @ 0 # r) (key (nodes l ! n)) = Some (k = node_key (nodes l ! n))"
    using strcmp_eq_strings[OF Cons.prems(2), of "node_key (nodes l ! n)" r] Cons.prems(3) by (auto simp: key_ok_def)
  moreover have "find_loop (k @ 0 # r) (Slot i) (next_of l (Hash_list n)) l = Some (List.find (\<lambda>n. k = node_key (nodes l ! n)) ns)"
    using Cons.IH[of "Hash_list n"] Cons.prems by simp
  ultimately show ?case using Cons.prems by (subst find_loop.simps) simp
qed

lemma find_lru_node_chain:
  assumes inv: "lru_inv l os cs" and k: "0 \<notin> set k" "unat n = length k"
  shows "find_lru_node l (k @ 0 # r) n = Some (List.find (\<lambda>n. k = node_key (nodes l ! n)) (cs (slot_index l k)))"
proof -
  let ?i = "slot_index l k"
  have i: "?i < unat (num_slot l)" "num_slot l \<noteq> 0" using inv slot_index_less[of l k] by (auto simp: lru_inv_def)
  have "seg l (Slot ?i) (map Hash_list (cs ?i)) (Slot ?i)" "\<forall>n\<in>set (cs ?i). n < length (nodes l) \<and> key_ok (nodes l ! n)"
    using inv i(1) by (auto simp: lru_inv_def ring_def)
  from find_loop_chain[OF this(1) k(1) this(2), of r]
  show ?thesis by (simp add: find_lru_node_def slot_of_eq[OF i(2) k(2)])
qed

lemma find_lru_node_present:
  assumes inv: "lru_inv l os cs" and i: "i < length (nodes l)" "node_key (nodes l ! i) = k" and n: "unat n = length k"
  shows "find_lru_node l (k @ 0 # r) n = Some (Some i)"
proof -
  have k0: "0 \<notin> set k" using inv i by (auto simp: lru_inv_def key_ok_def)
  have si: "slot_index l k < unat (num_slot l)" using inv slot_index_less[of l k] by (auto simp: lru_inv_def)
  have c: "set (cs (slot_index l k)) = {n. n < length (nodes l) \<and> slot_index l (node_key (nodes l ! n)) = slot_index l k}"
    using inv si by (simp add: lru_inv_def)
  obtain j where j: "List.find (\<lambda>n. k = node_key (nodes l ! n)) (cs (slot_index l k)) = Some j"
    using i c by (cases "List.find (\<lambda>n. k = node_key (nodes l ! n)) (cs (slot_index l k))") (auto simp: find_None_iff)
  then have "j \<in> set (cs (slot_index l k))" "k = node_key (nodes l ! j)" by (auto simp: find_Some_iff)
  moreover have "inj_on (\<lambda>n. node_key (nodes l ! n)) {..<length (nodes l)}" using inv by (simp add: lru_inv_def)
  ultimately have "j = i" using i c by (auto dest!: inj_onD)
  then show ?thesis using find_lru_node_chain[OF inv k0 n] j by simp
qed

lemma find_lru_node_absent:
  assumes inv: "lru_inv l os cs" and i: "\<forall>i<length (nodes l). node_key (nodes l ! i) \<noteq> k" and k: "0 \<notin> set k" "unat n = length k"
  shows "find_lru_node l (k @ 0 # r) n = Some None"
proof -
  have si: "slot_index l k < unat (num_slot l)" using inv slot_index_less[of l k] by (auto simp: lru_inv_def)
  then have "set (cs (slot_index l k)) \<subseteq> {..<length (nodes l)}" using inv by (auto simp: lru_inv_def)
  then have "List.find (\<lambda>n. k = node_key (nodes l ! n)) (cs (slot_index l k)) = None" using i by (auto simp: find_None_iff)
  then show ?thesis using find_lru_node_chain[OF inv k] by simp
qed

text \<open>Moving a node to the end of the LRU list.\<close>

lemma insert_present:
  assumes inv: "lru_inv l os cs" and i: "i < length (nodes l)" "node_key (nodes l ! i) = k"
    and n: "unat n = length k" "k \<noteq> []" and ino: "ino \<noteq> 0"
  shows "\<exists>l' os'. insert_lru_node ksize (Some l) (Some (k @ 0 # r)) n ino = Some (Some i, Some l') \<and> lru_inv l' os' cs
    \<and> map (lru_entry l') os' = filter (\<lambda>e. fst e \<noteq> k) (map (lru_entry l) os) @ [(k, ino)]"
proof -
  have n0: "n \<noteq> 0" using n by auto
  have "i \<in> set os" using inv i by (simp add: lru_inv_def)
  then obtain A B where os: "os = A @ i # B" by (auto simp: in_set_conv_decomp)
  have R: "ring l Lru_nodes (map Lru_list A @ Lru_list i # map Lru_list B)" using inv by (simp add: lru_inv_def os)
  obtain l1 where l1: "list_del (Lru_list i) l = Some l1" "ring l1 Lru_nodes (map Lru_list A @ map Lru_list B)"
    "only_links l l1 (set (Lru_nodes # map Lru_list A @ Lru_list i # map Lru_list B))" using list_del_ring[OF R] by blast
  define l2 where "l2 = (if n_ino (nodes l1 ! i) \<noteq> ino then upd_node i (\<lambda>x. x\<lparr>n_ino := ino\<rparr>) l1 else l1)"
  have l2s: "next_of l2 = next_of l1" "prev_of l2 = prev_of l1" "num_slot l2 = num_slot l1" "num_nodes l2 = num_nodes l1"
    "nodes l2 = (nodes l1)[i := (nodes l1 ! i)\<lparr>n_ino := ino\<rparr>]" by (auto simp: l2_def upd_node_def)
  note f1 = only_links_fields[OF l1(3)]
  have d: "distinct (A @ i # B)" using R by (auto simp: ring_def distinct_map)
  have R2: "ring l2 Lru_nodes (map Lru_list (A @ B))" using ring_frame[OF l1(2), of l2] by (simp add: l2s)
  have "Lru_list i \<notin> set (Lru_nodes # map Lru_list (A @ B))" using d by auto
  from list_add_tail_ring[OF R2 this] obtain l3 where l3: "list_add_tail (Lru_list i) Lru_nodes l2 = Some l3"
    "ring l3 Lru_nodes (map Lru_list (A @ B) @ [Lru_list i])" "only_links l2 l3 (insert (Lru_list i) (set (Lru_nodes # map Lru_list (A @ B))))"
    by auto
  note f3 = only_links_fields[OF l3(3)]
  have nd: "nodes l3 = (nodes l)[i := (nodes l ! i)\<lparr>n_ino := ino\<rparr>]" using f1 f3 l2s by simp
  have nk: "node_key (nodes l3 ! j) = node_key (nodes l ! j)" "key (nodes l3 ! j) = key (nodes l ! j)" for j
  proof -
    have "nodes l3 ! j = (if j = i then (nodes l ! i)\<lparr>n_ino := ino\<rparr> else nodes l ! j)" using i(1) by (simp add: nd)
    then show "node_key (nodes l3 ! j) = node_key (nodes l ! j)" "key (nodes l3 ! j) = key (nodes l ! j)" by (simp_all add: node_key_def)
  qed
  have ko: "key_ok (nodes l3 ! j) = key_ok (nodes l ! j)" for j by (simp add: key_ok_def nk)
  have fl: "num_slot l3 = num_slot l" "num_nodes l3 = num_nodes l" "length (nodes l3) = length (nodes l)"
    using f1 f3 l2s by (simp_all add: nd)
  have sx: "slot_index l3 = slot_index l" by (simp add: slot_index_def fl fun_eq_iff)
  have hr: "ring l3 (Slot j) (map Hash_list (cs j))" if "j < unat (num_slot l)" for j
  proof (rule ring_frame)
    show "ring l (Slot j) (map Hash_list (cs j))" using inv that by (simp add: lru_inv_def)
    fix p assume "p \<in> set (Slot j # map Hash_list (cs j))"
    then show "next_of l3 p = next_of l p \<and> prev_of l3 p = prev_of l p"
      using l1(3) l3(3) l2s(1,2) by (auto simp: only_links_def)
  qed
  have "lru_inv l3 (A @ B @ [i]) cs" unfolding lru_inv_def fl sx nk ko
    using inv l3(2) hr by (auto simp: lru_inv_def os)
  moreover have "insert_lru_node ksize (Some l) (Some (k @ 0 # r)) n ino = Some (Some i, Some l3)"
    using find_lru_node_present[OF inv i n(1), of r] n0 ino l1(1) l3(1) by (simp add: insert_lru_node_def l2_def Let_def)
  moreover have "map (lru_entry l3) (A @ B @ [i]) = filter (\<lambda>e. fst e \<noteq> k) (map (lru_entry l) os) @ [(k, ino)]"
  proof -
    have "lru_entry l3 i = (k, ino)" using i by (simp add: lru_entry_def nk) (simp add: nd)
    moreover have "lru_entry l3 j = lru_entry l j" "fst (lru_entry l j) \<noteq> k" if "j \<in> set (A @ B)" for j
    proof -
      have "j \<noteq> i" "j < length (nodes l)" using that d inv os by (auto simp: lru_inv_def)
      then show "lru_entry l3 j = lru_entry l j" "fst (lru_entry l j) \<noteq> k"
        using inv i by (auto simp: lru_entry_def nk lru_inv_def nd dest: inj_onD)
    qed
    moreover have "fst (lru_entry l i) = k" using i by (simp add: lru_entry_def)
    ultimately show ?thesis by (simp add: os) 
  qed
  ultimately show ?thesis by blast
qed

lemma only_links_same: "only_links l l' P \<Longrightarrow> p \<notin> P \<Longrightarrow> next_of l' p = next_of l p \<and> prev_of l' p = prev_of l p"
  by (simp add: only_links_def)

text \<open>Adding a node for a new key.\<close>

lemma insert_new:
  assumes inv: "lru_inv l os cs" and absent: "\<forall>i<length (nodes l). node_key (nodes l ! i) \<noteq> k"
    and k: "0 \<notin> set k" "unat n = length k" "k \<noteq> []" and ino: "ino \<noteq> 0"
    and room: "num_nodes l < node_size l" "allocs l = []" "length k < ksize (length k)"
  shows "\<exists>l' os' cs'. insert_lru_node ksize (Some l) (Some (k @ 0 # r)) n ino = Some (Some (length (nodes l)), Some l') \<and> lru_inv l' os' cs'
    \<and> map (lru_entry l') os' = map (lru_entry l) os @ [(k, ino)]"
proof -
  let ?N = "length (nodes l)" and ?s = "slot_index l k"
  define x where "x = \<lparr>key = k @ replicate (ksize (length k) - length k) 0, key_len = n, pinode = 0, n_ino = ino, n_score = 0\<rparr>"
  define l3 where "l3 = l\<lparr>num_nodes := num_nodes l + 1, nodes := nodes l @ [x],
    next_of := (next_of l)(Hash_list ?N := Hash_list ?N, Lru_list ?N := Lru_list ?N),
    prev_of := (prev_of l)(Hash_list ?N := Hash_list ?N, Lru_list ?N := Lru_list ?N)\<rparr>"
  have n0: "n \<noteq> 0" using k by auto
  have ns: "num_slot l \<noteq> 0" "?s < unat (num_slot l)" using inv slot_index_less[of l k] by (auto simp: lru_inv_def)
  have oN: "?N \<notin> set os" "j < unat (num_slot l) \<Longrightarrow> ?N \<notin> set (cs j)" for j using inv by (auto simp: lru_inv_def)
  have R3: "ring l3 Lru_nodes (map Lru_list os)" using inv oN(1) by (auto simp: lru_inv_def l3_def intro!: ring_frame[of l])
  have "Lru_list ?N \<notin> set (Lru_nodes # map Lru_list os)" using oN(1) by auto
  from list_add_tail_ring[OF R3 this] obtain l4 where l4: "list_add_tail (Lru_list ?N) Lru_nodes l3 = Some l4"
    "ring l4 Lru_nodes (map Lru_list os @ [Lru_list ?N])" "only_links l3 l4 (insert (Lru_list ?N) (set (Lru_nodes # map Lru_list os)))" by auto
  note f4 = only_links_fields[OF l4(3)]
  have H4: "ring l4 (Slot j) (map Hash_list (cs j))" if "j < unat (num_slot l)" for j
  proof (rule ring_frame)
    show "ring l (Slot j) (map Hash_list (cs j))" using inv that by (simp add: lru_inv_def)
    fix p assume "p \<in> set (Slot j # map Hash_list (cs j))"
    then have "p \<notin> insert (Lru_list ?N) (set (Lru_nodes # map Lru_list os))" "p \<noteq> Hash_list ?N" "p \<noteq> Lru_list ?N"
      using oN(2)[OF that] by auto
    then show "next_of l4 p = next_of l p \<and> prev_of l4 p = prev_of l p"
      using only_links_same[OF l4(3)] by (simp add: l3_def)
  qed
  have "Hash_list ?N \<notin> set (Slot ?s # map Hash_list (cs ?s))" using oN(2)[OF ns(2)] by auto
  from list_add_ring[OF H4[OF ns(2)] this] obtain l5 where l5: "list_add (Hash_list ?N) (Slot ?s) l4 = Some l5"
    "ring l5 (Slot ?s) (Hash_list ?N # map Hash_list (cs ?s))" "only_links l4 l5 (insert (Hash_list ?N) (set (Slot ?s # map Hash_list (cs ?s))))"
    by auto
  note f5 = only_links_fields[OF l5(3)]
  have nd: "nodes l5 = nodes l @ [x]" "num_slot l5 = num_slot l" "num_nodes l5 = num_nodes l + 1" using f4 f5 by (simp_all add: l3_def)
  have run: "insert_lru_node ksize (Some l) (Some (k @ 0 # r)) n ino = Some (Some ?N, Some l5)"
  proof -
    have "alloc_key ksize (k @ 0 # r) n = Some (k @ replicate (ksize (length k) - length k) 0)" using k(2) by (simp add: alloc_key_def)
    moreover have "slot_of (k @ 0 # r) n l4 = Some (Slot ?s)"
      using slot_of_eq[of l4 n k "0 # r"] ns(1) k(2) f4 by (simp add: l3_def slot_index_def)
    moreover have "new_or_expire_lru_node l = Some (?N, l\<lparr>num_nodes := num_nodes l + 1,
        nodes := nodes l @ [\<lparr>key = [], key_len = 0, pinode = 0, n_ino = 0, n_score = 0\<rparr>],
        next_of := (next_of l)(Hash_list ?N := Hash_list ?N, Lru_list ?N := Lru_list ?N),
        prev_of := (prev_of l)(Hash_list ?N := Hash_list ?N, Lru_list ?N := Lru_list ?N)\<rparr>)"
      using room by (simp add: new_or_expire_lru_node_def lru_alloc_def INIT_LIST_HEAD_def set_next_def set_prev_def Let_def not_le[symmetric])
    moreover have "l\<lparr>num_nodes := num_nodes l + 1, next_of := (next_of l)(Hash_list ?N := Hash_list ?N, Lru_list ?N := Lru_list ?N),
        prev_of := (prev_of l)(Hash_list ?N := Hash_list ?N, Lru_list ?N := Lru_list ?N), nodes := nodes l @ [x]\<rparr> = l3" by (simp add: l3_def)
    ultimately show ?thesis
      using find_lru_node_absent[OF inv absent k(1,2), of r] n0 ino l4(1) l5(1) room
      by (simp add: insert_lru_node_def lru_alloc_def upd_node_def x_def[symmetric])
  qed
  have xk: "node_key x = k" "key_ok x"
  proof -
    show nk: "node_key x = k" using k(2) by (simp add: node_key_def x_def)
    obtain d where "ksize (length k) - length k = Suc d" using room(3) by (cases "ksize (length k) - length k") auto
    then have "key x = k @ 0 # replicate d 0" by (simp add: x_def)
    then show "key_ok x" unfolding key_ok_def nk using k(1) by blast
  qed
  have sx: "slot_index l5 = slot_index l" by (simp add: slot_index_def nd fun_eq_iff)
  define cs' where "cs' = cs(?s := ?N # cs ?s)"
  have H5: "ring l5 (Slot j) (map Hash_list (cs' j))" if "j < unat (num_slot l)" for j
  proof (cases "j = ?s")
    case False
    have "ring l5 (Slot j) (map Hash_list (cs j))"
    proof (rule ring_frame[OF H4[OF that]])
      fix p assume p: "p \<in> set (Slot j # map Hash_list (cs j))"
      have "set (cs j) \<inter> set (cs ?s) = {}" using inv that ns(2) False by (auto simp: lru_inv_def)
      then have "p \<notin> insert (Hash_list ?N) (set (Slot ?s # map Hash_list (cs ?s)))" using p False oN(2)[OF that] by auto
      then show "next_of l5 p = next_of l4 p \<and> prev_of l5 p = prev_of l4 p" by (rule only_links_same[OF l5(3)])
    qed
    then show ?thesis using False by (simp add: cs'_def)
  qed (use l5(2) in \<open>simp add: cs'_def\<close>)
  have L5: "ring l5 Lru_nodes (map Lru_list (os @ [?N]))"
  proof -
    have "ring l5 Lru_nodes (map Lru_list os @ [Lru_list ?N])"
    proof (rule ring_frame[OF l4(2)])
      fix p assume "p \<in> set (Lru_nodes # map Lru_list os @ [Lru_list ?N])"
      then have "p \<notin> insert (Hash_list ?N) (set (Slot ?s # map Hash_list (cs ?s)))" by auto
      then show "next_of l5 p = next_of l4 p \<and> prev_of l5 p = prev_of l4 p" by (rule only_links_same[OF l5(3)])
    qed
    then show ?thesis by simp
  qed
  have "lru_inv l5 (os @ [?N]) cs'"
  proof -
    have nth: "nodes l5 ! j = (if j < ?N then nodes l ! j else x)" if "j < Suc ?N" for j using that by (simp add: nd nth_append)
    have "unat (num_nodes l + 1) = length (nodes l) + 1"
    proof -
      have "unat (num_nodes l) < unat (node_size l)" "unat (num_nodes l) = ?N" using inv room(1) by (simp_all add: lru_inv_def word_less_nat_alt)
      then show ?thesis using unat_less_size[of "node_size l"] by (subst unat_plus_fits) auto
    qed
    moreover have "set (cs' j) = {m. m < Suc ?N \<and> slot_index l (node_key (nodes l5 ! m)) = j}" if "j < unat (num_slot l)" for j
      using inv that xk(1) by (auto simp: lru_inv_def cs'_def nth)
    moreover have "inj_on (\<lambda>m. node_key (nodes l5 ! m)) {..<Suc ?N}"
      using inv absent xk(1) by (auto simp: lru_inv_def inj_on_def nth less_Suc_eq)
    moreover have "set (os @ [?N]) = {..<Suc ?N}" using inv by (auto simp: lru_inv_def)
    moreover have "key_ok (nodes l5 ! m)" if "m < Suc ?N" for m using inv xk(2) that by (auto simp: lru_inv_def nth)
    ultimately show ?thesis unfolding lru_inv_def sx using ns(1) L5 H5 nd by simp
  qed
  moreover have "map (lru_entry l5) (os @ [?N]) = map (lru_entry l) os @ [(k, ino)]"
  proof -
    have "lru_entry l5 j = lru_entry l j" if "j \<in> set os" for j
    proof -
      have "j < ?N" using inv that by (auto simp: lru_inv_def)
      then show ?thesis by (simp add: lru_entry_def nd nth_append)
    qed
    moreover have "lru_entry l5 ?N = (k, ino)" using xk(1) by (simp add: lru_entry_def nd) (simp add: x_def)
    ultimately show ?thesis by simp
  qed
  ultimately show ?thesis using run by blast
qed

lemma list_del_init_ring:
  assumes "ring l h (xs @ e # ys)"
  shows "\<exists>l'. list_del_init e l = Some l' \<and> ring l' h (xs @ ys) \<and> only_links l l' (set (h # xs @ e # ys))
    \<and> next_of l' e = e \<and> prev_of l' e = e"
proof -
  obtain l1 where l1: "raw_list_del e l = Some l1" "ring l1 h (xs @ ys)" "only_links l l1 (set (h # xs @ ys))"
    using raw_list_del_ring[OF assms] by blast
  have e: "e \<noteq> Poison" "e \<notin> set (h # xs @ ys)" using assms by (auto simp: ring_def)
  let ?l' = "l1\<lparr>next_of := (next_of l1)(e := e), prev_of := (prev_of l1)(e := e)\<rparr>"
  have "list_del_init e l = Some ?l'" using l1(1) e(1) by (simp add: list_del_init_def INIT_LIST_HEAD_def set_next_def set_prev_def)
  moreover have "ring ?l' h (xs @ ys)" by (rule ring_frame[OF l1(2)]) (use e in auto)
  moreover have "only_links l ?l' (set (h # xs @ e # ys))" using l1(3) by (auto simp: only_links_def)
  ultimately show ?thesis by auto
qed

lemma list_del_init_self:
  assumes "next_of l e = e" "prev_of l e = e" "e \<noteq> Poison"
  shows "list_del_init e l = Some l"
proof -
  have "(next_of l)(e := e) = next_of l" "(prev_of l)(e := e) = prev_of l" using assms by (auto simp: fun_eq_iff)
  then show ?thesis
    using assms by (simp add: list_del_init_def raw_list_del_def INIT_LIST_HEAD_def set_next_def set_prev_def Let_def)
qed

lemma ring_next_mem: "ring l h xs \<Longrightarrow> next_of l h \<in> set (h # xs)"
  by (cases xs) (auto simp: ring_def)

text \<open>Reusing a node when the cache is full.\<close>

lemma insert_full:
  assumes inv: "lru_inv l (a # b # os) cs" and absent: "\<forall>i<length (nodes l). node_key (nodes l ! i) \<noteq> k"
    and k: "0 \<notin> set k" "unat n = length k" "k \<noteq> []" and ino: "ino \<noteq> 0" and full: "node_size l \<le> num_nodes l" "allocs l = []"
  shows "\<exists>l'. insert_lru_node ksize (Some l) (Some (k @ 0 # r)) n ino = Some (Some a, Some l')
    \<and> next_of l' Lru_nodes = Lru_list a \<and> next_of l' (Lru_list a) = Lru_nodes"
proof -
  let ?sa = "slot_index l (node_key (nodes l ! a))" and ?s = "slot_index l k"
  have n0: "n \<noteq> 0" using k by auto
  have ns: "num_slot l \<noteq> 0" "?sa < unat (num_slot l)" "?s < unat (num_slot l)" using inv slot_index_less[of l] by (auto simp: lru_inv_def)
  have aN: "a < length (nodes l)" using inv by (auto simp: lru_inv_def)
  then have "a \<in> set (cs ?sa)" using inv ns(2) by (auto simp: lru_inv_def)
  then obtain X Y where XY: "cs ?sa = X @ a # Y" by (auto simp: in_set_conv_decomp)
  have "ring l (Slot ?sa) (map Hash_list X @ Hash_list a # map Hash_list Y)" using inv ns(2) XY by (auto simp: lru_inv_def)
  from list_del_init_ring[OF this] obtain l1 where l1: "list_del_init (Hash_list a) l = Some l1" "ring l1 (Slot ?sa) (map Hash_list X @ map Hash_list Y)"
    "only_links l l1 (set (Slot ?sa # map Hash_list X @ Hash_list a # map Hash_list Y))"
    "next_of l1 (Hash_list a) = Hash_list a" "prev_of l1 (Hash_list a) = Hash_list a" by blast
  note f1 = only_links_fields[OF l1(3)]
  have R: "ring l Lru_nodes (Lru_list a # Lru_list b # map Lru_list os)" using inv by (simp add: lru_inv_def)
  then have R1: "ring l1 Lru_nodes (Lru_list a # Lru_list b # map Lru_list os)"
    by (rule ring_frame) (use only_links_same[OF l1(3)] in auto)
  have S1: "next_of l1 (Slot ?s) \<notin> {Poison, Lru_nodes} \<union> range Lru_list"
  proof (cases "?s = ?sa")
    case True
    have "next_of l1 (Slot ?sa) \<in> set (Slot ?sa # map Hash_list X @ map Hash_list Y)"
      by (rule ring_next_mem[OF l1(2)])
    then show ?thesis using True by auto
  next
    case False
    have "ring l (Slot ?s) (map Hash_list (cs ?s))" using inv ns(3) by (auto simp: lru_inv_def)
    then have "next_of l (Slot ?s) \<in> set (Slot ?s # map Hash_list (cs ?s))" by (rule ring_next_mem)
    moreover have "next_of l1 (Slot ?s) = next_of l (Slot ?s)" using only_links_same[OF l1(3), of "Slot ?s"] False by auto
    ultimately show ?thesis by auto
  qed
  define x where "x = (nodes l1 ! a)\<lparr>key := take (unat n) (k @ 0 # r) @ replicate (ksize (unat n) - unat n) 0, key_len := n, n_ino := ino\<rparr>"
  define l3 where "l3 = l1\<lparr>nodes := (nodes l1)[a := x]\<rparr>"
  define p where "p = prev_of l1 Lru_nodes"
  have p: "p = Lru_list (last (b # os))" "p \<noteq> Lru_list a"
  proof -
    have "seg l1 Lru_nodes (map Lru_list (a # b # os)) Lru_nodes" and d: "distinct (map Lru_list (a # b # os))" using R1 by (auto simp: ring_def)
    from seg_ends[OF this(1)] have "p = last (map Lru_list (b # os))" by (simp add: p_def)
    then show e: "p = Lru_list (last (b # os))" using last_map[of "b # os" Lru_list] by simp
    have "a \<notin> set (b # os)" using d by auto
    then show "p \<noteq> Lru_list a" using last_in_set[of "b # os"] unfolding e by auto
  qed
  define l4 where "l4 = l3\<lparr>prev_of := (prev_of l1)(Lru_nodes := Lru_list a, Lru_list a := p),
    next_of := (next_of l1)(Lru_list a := Lru_nodes, p := Lru_list a)\<rparr>"
  have a4: "list_add_tail (Lru_list a) Lru_nodes l3 = Some l4"
    using p by (simp add: list_add_tail_def raw_list_add_def set_prev_def set_next_def l3_def l4_def p_def)
  define q where "q = next_of l1 (Slot ?s)"
  define l5 where "l5 = l4\<lparr>prev_of := (prev_of l4)(q := Hash_list a, Hash_list a := Slot ?s),
    next_of := (next_of l4)(Hash_list a := q, Slot ?s := Hash_list a)\<rparr>"
  have q4: "next_of l4 (Slot ?s) = q" using p by (simp add: l4_def l3_def q_def)
  have a5: "list_add (Hash_list a) (Slot ?s) l4 = Some l5"
    using S1 by (simp add: list_add_def raw_list_add_def set_prev_def set_next_def q4 l5_def) (simp add: q_def)
  have nx: "next_of l1 Lru_nodes = Lru_list a" "next_of l Lru_nodes = Lru_list a" using R1 R by (simp_all add: ring_def)
  have "slot_of (k @ 0 # r) n l4 = Some (Slot ?s)"
    using slot_of_eq[of l4 n k "0 # r"] ns(1) k(2) f1 by (simp add: l4_def l3_def slot_index_def)
  moreover have "new_or_expire_lru_node l = Some (a, l1)"
    using full(1) nx(2) l1(1) list_del_init_self[OF l1(4,5)] by (simp add: new_or_expire_lru_node_def)
  moreover have "alloc_key ksize (k @ 0 # r) n = Some (take (unat n) (k @ 0 # r) @ replicate (ksize (unat n) - unat n) 0)"
    using k(2) by (simp add: alloc_key_def)
  ultimately have "insert_lru_node ksize (Some l) (Some (k @ 0 # r)) n ino = Some (Some a, Some l5)"
    using find_lru_node_absent[OF inv absent k(1,2), of r] n0 ino a4 a5 full(2) f1(5)
    by (simp add: insert_lru_node_def lru_alloc_def upd_node_def x_def[symmetric] l3_def[symmetric] del: take_append)
  moreover have "next_of l5 Lru_nodes = Lru_list a" "next_of l5 (Lru_list a) = Lru_nodes"
    using nx(1) p by (simp_all add: l5_def l4_def)
  ultimately show ?thesis by blast
qed

lemma init_lru_inv:
  assumes "slots \<noteq> 0" "init_lru (Some (slots, sz)) True True [] = Some (Some l)"
  shows "lru_inv l [] (\<lambda>_. [])" "num_nodes l = 0" "node_size l = sz" "allocs l = []" "nodes l = []"
  using assms by (auto simp: init_lru_def lru_inv_def ring_def)

lemma insert_keeps_size:
  assumes "insert_lru_node ksize (Some l) (Some k) n ino = Some (r, Some l')" "allocs l = []"
  shows "node_size l' = node_size l" "allocs l' = []"
  using assms
  by (auto simp: insert_lru_node_def list_del_def list_add_tail_def list_add_def raw_list_add_def raw_list_del_def set_next_def set_prev_def
      new_or_expire_lru_node_def list_del_init_def INIT_LIST_HEAD_def lru_alloc_def upd_node_def Let_def
      split: if_splits Option.bind_splits option.splits lptr.splits prod.splits)

section \<open>Properties\<close>


definition ex_lru :: inode_lru_t where
  "ex_lru = the (the (init_lru (Some (4, 2)) True True []))"


end
