(* ===== verification/Migrate.thy ===== *)
theory Migrate
  imports Inode Lru
begin

text \<open>
  The migration of cold files from persistent memory to an SSD (\<open>migrate.c\<close>): the score of an inode, the
  scan that enters inodes into the LRU cache, and the move of the blocks of the inode that comes first.
  The kernel's \<open>vfs_write\<close> on the SSD is the parameter \<open>vfs_write\<close>, from the data, the position and the device's
  contents to its new contents; the code ignores its result, and what it reads back.
\<close>

section \<open>State\<close>

text \<open>The globals of the file beside the file system and the device.\<close>

record mig =
  m_fs :: fs
  ssd :: mem
  inodelru :: "inode_lru_t option"
  logaddr :: u64
  soffset :: u64
  totalsize :: u64

abbreviation (input) NVMCAP :: u64 where "NVMCAP \<equiv> 4294967296"
abbreviation (input) NVMBSIZE :: nat where "NVMBSIZE \<equiv> 4096"
abbreviation (input) EXPECTBLOCK :: u64 where "EXPECTBLOCK \<equiv> 268435456"

section \<open>Scores\<close>

text \<open>The ages and block counts are 32-bit products, widened to \<open>long\<close> when they are added; a file of size 0
  divides by zero.\<close>

definition score :: "u32 \<Rightarrow> pmfs_inode \<Rightarrow> u64 option" where
  "score nowtime p =
     (if pi_size p = 0 then None
      else Some (ucast ((nowtime - pi_atime p) * 10) + ucast ((nowtime - pi_mtime p) * 10)
        + ucast ((nowtime - pi_ctime p) * 5) + ucast (pi_nvmblock p * 10)
        + ucast (push_bit PAGE_SHIFT (pi_nvmblock p)) div pi_size p * 10))"

section \<open>Moving blocks\<close>

definition migrate_block :: "(u8 list \<Rightarrow> u64 \<Rightarrow> mem \<Rightarrow> mem) \<Rightarrow> u64 \<Rightarrow> u64 \<Rightarrow> mig \<Rightarrow> mig option" where
  "migrate_block vfs_write node off g =
     (let kmem' = pmfs_get_block (m_fs g) node
      in if kmem' = 0 then None
         else Some (g\<lparr>ssd := vfs_write (bytes_at (mem (m_fs g)) kmem' NVMBSIZE) off (ssd g)\<rparr>))"

text \<open>What the code does with a block in persistent memory, given the address of the pointer to it.\<close>

definition migrate_pointer :: "(u8 list \<Rightarrow> u64 \<Rightarrow> mem \<Rightarrow> mem) \<Rightarrow> nat \<Rightarrow> mig \<Rightarrow> mig option" where
  "migrate_pointer vfs_write a g =
     (let p = rd64 (mem (m_fs g)) a
      in do {
           g1 \<leftarrow> migrate_block vfs_write p (soffset g) g;
           let g2 = g1\<lparr>m_fs := upd_mem (wr64 a (NVMCAP + soffset g1)) (m_fs g1),
             soffset := soffset g1 + of_nat NVMBSIZE, totalsize := totalsize g1 - 1\<rparr>;
           s \<leftarrow> pmfs_free_block (pmfs_get_blocknr p) PMFS_BLOCK_TYPE_4K (m_fs g2);
           Some (g2\<lparr>m_fs := s\<rparr>)
         })"

text \<open>The recursion over the tree; the indices and ranges are those of the other recursions over trees.\<close>

primrec recursive_migrate_inode ::
  "nat \<Rightarrow> (u8 list \<Rightarrow> u64 \<Rightarrow> mem \<Rightarrow> mem) \<Rightarrow> u64 \<Rightarrow> u64 \<Rightarrow> u64 \<Rightarrow> mig \<Rightarrow> mig option" where
  "recursive_migrate_inode 0 = (\<lambda>w block lo hi g. None)"
| "recursive_migrate_inode (Suc h) = (\<lambda>w block lo hi g.
     let node = pmfs_get_block (m_fs g) block;
         body = (\<lambda>i g.
           let p = rd64 (mem (m_fs g)) (node + 8 * i)
           in if h = 0 then
                if p < NVMCAP \<and> p \<noteq> 0 then do { g' \<leftarrow> migrate_pointer w (node + 8 * i) g; Some (g', False) }
                else Some (g, False)
              else if p = 0 then Some (g, False)
              else do {
                g' \<leftarrow> recursive_migrate_inode h w p (first_blk h lo i) (last_blk h hi i) g;
                Some (g', False)
              })
     in if node = 0 \<and> blk_index h lo \<le> blk_index h hi then None
        else for_loop body [blk_index h lo..<Suc (blk_index h hi)] g)"

definition allocate_sspace :: "u64 \<Rightarrow> mig \<Rightarrow> u64 \<times> mig" where
  "allocate_sspace n g = (logaddr g, g\<lparr>logaddr := logaddr g + n\<rparr>)"

text \<open>\<open>migrate_blocks\<close>: \<open>opened\<close> says whether \<open>filp_open\<close> succeeds. The loop over the LRU list ends with its first
  round. The result is the return value.\<close>

definition migrate_blocks :: "(u8 list \<Rightarrow> u64 \<Rightarrow> mem \<Rightarrow> mem) \<Rightarrow> bool \<Rightarrow> mig \<Rightarrow> (int \<times> mig) option" where
  "migrate_blocks w opened g =
     (let g0 = g\<lparr>totalsize := EXPECTBLOCK - num_free_blocks (sbi (m_fs g))\<rparr>;
          (addr, g1) = allocate_sspace (totalsize g0) g0;
          g2 = g1\<lparr>soffset := addr\<rparr>
      in if \<not> opened then Some (-1, g2)
         else case inodelru g2 of
                None \<Rightarrow> None
              | Some l \<Rightarrow>
                  (case next_of l Lru_nodes of
                     Lru_nodes \<Rightarrow> Some (1, g2)
                   | Lru_list n \<Rightarrow>
                       if \<not> n < length (nodes l) \<or> pinode (nodes l ! n) = 0 then None
                       else do {
                         let pi = pinode (nodes l ! n);
                         let p = rd_inode (mem (m_fs g2)) pi;
                         g3 \<leftarrow> (if pi_height p = 0 then
                                  if pi_root p < NVMCAP then migrate_pointer w (pi + 8) g2 else Some g2
                                else recursive_migrate_inode (unat (pi_height p)) w (pi_root p) 0 (pi_blocks p) g2);
                         l1 \<leftarrow> list_del (Lru_list n) l;
                         let l2 = upd_node n (\<lambda>x. x\<lparr>n_score := 0\<rparr>) l1;
                         l3 \<leftarrow> list_add_tail (Lru_list n) Lru_nodes l2;
                         Some (1, g3\<lparr>inodelru := Some l3\<rparr>)
                       }
                   | _ \<Rightarrow> None))"

section \<open>The scan\<close>

text \<open>The decimal digits that \<open>sprintf\<close> writes for \<open>%d\<close>.\<close>

fun digits :: "nat \<Rightarrow> u8 list" where
  "digits n = (if n < 10 then [of_nat (48 + n)] else digits (n div 10) @ [of_nat (48 + n mod 10)])"

declare digits.simps [simp del]

definition sprintf_d :: "u32 \<Rightarrow> u8 list" where
  "sprintf_d x = (if sint x < 0 then 45 # digits (nat (- sint x)) else digits (unat x))"

text \<open>The name \<open>file<ino>\<close>, without its terminator.\<close>

definition lru_name :: "u64 \<Rightarrow> u8 list" where
  "lru_name ino = [102, 105, 108, 101] @ sprintf_d (ucast ino)"

definition scan_inode :: "(nat \<Rightarrow> nat) \<Rightarrow> u32 \<Rightarrow> mig \<Rightarrow> mig option" where
  "scan_inode ksize i g =
     (let ino = scast (push_bit PMFS_INODE_BITS i) :: u64; s = m_fs g
      in do {
           pi \<leftarrow> pmfs_get_inode s ino;
           let p = rd_inode (mem s) pi;
           if pi = 0 \<or> pi_links_count p = 0 \<or> S_ISDIR (pi_mode p) then Some g
           else do {
             sco \<leftarrow> score (now s) p;
             let fname = lru_name ino;
             (node, l) \<leftarrow> insert_lru_node ksize (inodelru g) (Some (fname @ [0])) (of_nat (length fname)) ino;
             case (node, l) of
               (Some n, Some l') \<Rightarrow> Some (g\<lparr>inodelru := Some (upd_node n (\<lambda>x. x\<lparr>pinode := pi, n_score := sco\<rparr>) l')\<rparr>)
             | _ \<Rightarrow> None
           }
         })"

text \<open>\<open>lru_ok\<close>, \<open>slots_ok\<close> and \<open>rest\<close> are the outcomes of the allocations, as for \<open>init_lru\<close>.\<close>

definition scaninode :: "(nat \<Rightarrow> nat) \<Rightarrow> bool \<Rightarrow> bool \<Rightarrow> bool list \<Rightarrow> mig \<Rightarrow> mig option" where
  "scaninode ksize lru_ok slots_ok rest g = do {
     l \<leftarrow> init_lru (Some (4, 6)) lru_ok slots_ok rest;
     for_loop (\<lambda>i g. do { g' \<leftarrow> scan_inode ksize (of_nat i) g; Some (g', False) })
       [1..<unat (s_inodes_count (sbi (m_fs g)))] (g\<lparr>inodelru := l\<rparr>) }"

end
