(* ===== verification/Spec2Isabelle.thy ===== *)
theory Spec2Isabelle
  imports Super File_Ops Sync_Meta Dir_Read Format Rebuild Migrate
begin

text \<open>
  A verification development for PMFS, a file system for byte-addressable persistent memory.
\<close>

end
